(* ===== verification/Prelude.thy ===== *)
theory Prelude
  imports Complex_Main "HOL-Library.Word" "HOL-Library.Signed_Division"
begin

text \<open>
  What every component of the development shares: the names of the machine integer types, the
  result type of fallible code, the decimal digits of a text, and the generic lemmas on words and
  lists that the component theories use through the collections \<open>word_nat\<close> (moving word
  arithmetic to naturals) and \<open>ok_intros\<close> (introduction rules of well-formedness invariants).
\<close>

section \<open>Names and automation\<close>

named_theorems word_nat "rules that turn a word operation without overflow into one on naturals"
named_theorems ok_intros "introduction rules of the components' well-formedness invariants"

type_synonym u8 = "8 word"
type_synonym u16 = "16 word"
type_synonym u32 = "32 word"
type_synonym u64 = "64 word"

text \<open>Fallible code returns \<open>Inl\<close> of its error or \<open>Inr\<close> of its result.\<close>

fun bind_r :: "'e + 'a \<Rightarrow> ('a \<Rightarrow> 'e + 'b) \<Rightarrow> 'e + 'b" where
  "bind_r (Inl e) f = Inl e"
| "bind_r (Inr x) f = f x"

lemma bind_r_eq_Inr: "bind_r m f = Inr y \<longleftrightarrow> (\<exists>x. m = Inr x \<and> f x = Inr y)"
  by (cases m) auto

lemma bind_r_eq_Inl: "bind_r m f = Inl e \<longleftrightarrow> m = Inl e \<or> (\<exists>x. m = Inr x \<and> f x = Inl e)"
  by (cases m) auto

section \<open>Words as naturals\<close>

lemma unat_u64_to_u32 [word_nat]:
  "unat (x :: u64) < 4294967296 \<Longrightarrow> unat (ucast x :: u32) = unat x"
  by (simp add: unsigned_ucast_eq take_bit_nat_eq_self_iff)

lemma unat_u32_to_u64 [simp]: "unat (ucast (x :: u32) :: u64) = unat x"
proof -
  have "unat x < 2 ^ 64"
    using unsigned_less [of x, where ?'a = nat] by simp
  then show ?thesis
    by (simp add: unsigned_ucast_eq take_bit_nat_eq_self_iff)
qed

lemma unat_add_small [word_nat]:
  "unat (x :: u64) + unat y < 18446744073709551616 \<Longrightarrow> unat (x + y) = unat x + unat y"
  by (simp add: unat_word_ariths)

lemma unat_mult_small [word_nat]:
  "unat (x :: u64) * unat y < 18446744073709551616 \<Longrightarrow> unat (x * y) = unat x * unat y"
  by (simp add: unat_word_ariths)

lemma unat_add_small_u32 [word_nat]:
  "unat (x :: u32) + unat y < 4294967296 \<Longrightarrow> unat (x + y) = unat x + unat y"
  by (simp add: unat_word_ariths)

lemma unat_mult_small_u32 [word_nat]:
  "unat (x :: u32) * unat y < 4294967296 \<Longrightarrow> unat (x * y) = unat x * unat y"
  by (simp add: unat_word_ariths)

lemma unat_sub_small [word_nat]: "y \<le> (x :: u64) \<Longrightarrow> unat (x - y) = unat x - unat y"
  by (simp add: unat_sub)

lemma unat_of_nat_u32 [word_nat]: "n < 4294967296 \<Longrightarrow> unat (of_nat n :: u32) = n"
  by (simp add: unat_of_nat)

lemma unat_of_nat_u64 [word_nat]: "n < 18446744073709551616 \<Longrightarrow> unat (of_nat n :: u64) = n"
  by (simp add: unat_of_nat)

lemma unat_u64_lt: "unat (x :: u64) < 18446744073709551616"
  using unsigned_less [of x] by simp

lemma unat_u32_lt: "unat (x :: u32) < 4294967296"
  using unsigned_less [of x] by simp

lemma sint_u64: "sint (v :: u64) = (if unat v < 9223372036854775808 then int (unat v) else int (unat v) - 18446744073709551616)"
proof -
  define k where "k = uint v"
  have k: "0 \<le> k" "k < 2 ^ 64" using uint_lt2p [of v] by (simp_all add: k_def)
  have "sint v = take_bit (Suc 63) k - 2 ^ Suc 63 * of_bool (bit k 63)"
    by (simp add: sint_uint signed_take_bit_eq_take_bit_minus k_def)
  moreover have "take_bit (Suc 63) k = k"
    using k by (simp add: take_bit_int_eq_self_iff)
  moreover have "k div 2 ^ 63 = (if k < 2 ^ 63 then 0 else 1)"
  proof (cases "k < 2 ^ 63")
    case True
    then show ?thesis using k by (simp add: div_pos_pos_trivial)
  next
    case False
    then show ?thesis using k int_div_pos_eq [of k "2 ^ 63" 1 "k - 2 ^ 63"] by simp
  qed
  then have "bit k 63 \<longleftrightarrow> \<not> k < 2 ^ 63"
    by (simp add: bit_iff_odd)
  ultimately have s: "sint v = (if k < 9223372036854775808 then k else k - 18446744073709551616)" by simp
  have a: "int (unat v) = k" by (simp add: k_def)
  then have b: "unat v < 9223372036854775808 \<longleftrightarrow> k < 9223372036854775808" by linarith
  show ?thesis unfolding a b by (rule s)
qed

lemma unat_neg_u64: "unat (- v :: u64) = (if v = 0 then 0 else 18446744073709551616 - unat v)"
proof (cases "v = 0")
  case False
  then have "uint v \<noteq> 0" by (simp add: uint_0_iff)
  then have u: "0 < uint v" "uint v < 2 ^ 64"
    using uint_lt2p [of v] uint_ge_0 [of v] by (simp_all add: less_le)
  then have "uint v mod 2 ^ 64 = uint v" by (simp add: mod_pos_pos_trivial)
  moreover have "uint (- v) = - uint v mod 2 ^ 64" by (simp add: uint_word_ariths)
  ultimately have n: "uint (- v) = 2 ^ 64 - uint v"
    using u by (simp add: zmod_zminus1_eq_if)
  have "unat (- v) = nat (uint (- v))" by (rule unat_eq_nat_uint)
  also have "\<dots> = 18446744073709551616 - unat v"
    unfolding n unat_eq_nat_uint using u by (simp add: nat_diff_distrib)
  finally show ?thesis using False by simp
qed simp

text \<open>From here on word values stay in the form \<open>unat\<close>.\<close>

declare of_nat_unat [simp del]

section \<open>Decimal digits\<close>

definition is_digit :: "char \<Rightarrow> bool" where
  "is_digit c \<longleftrightarrow> of_char (CHR ''0'') \<le> (of_char c :: nat) \<and> of_char c \<le> (of_char (CHR ''9'') :: nat)"

definition digit_val :: "char \<Rightarrow> nat" where
  "digit_val c = of_char c - of_char (CHR ''0'')"

definition digit_char :: "nat \<Rightarrow> char" where
  "digit_char d = char_of (d + of_char (CHR ''0''))"

lemma is_digit_range: "is_digit c \<longleftrightarrow> 48 \<le> (of_char c :: nat) \<and> of_char c \<le> (57 :: nat)"
  by (simp add: is_digit_def)

lemma digit_val_less: "is_digit c \<Longrightarrow> digit_val c < 10"
  by (auto simp: is_digit_range digit_val_def)

lemma digit_char_val [simp]: "d < 10 \<Longrightarrow> digit_val (digit_char d) = d"
  by (simp add: digit_val_def digit_char_def of_char_of)

lemma digit_val_char [simp]: "is_digit c \<Longrightarrow> digit_char (digit_val c) = c"
  by (auto simp: is_digit_range digit_val_def digit_char_def)

lemma is_digit_digit_char [simp]: "d < 10 \<Longrightarrow> is_digit (digit_char d)"
  by (simp add: is_digit_range digit_char_def of_char_of)

lemma digit_char_0 [simp]: "digit_char 0 = CHR ''0''"
  unfolding digit_char_def by (simp only: add_0 char_of_char)

lemma digit_char_eq_0 [simp]: "d < 10 \<Longrightarrow> digit_char d = CHR ''0'' \<longleftrightarrow> d = 0"
  using digit_char_val [of d] digit_char_val [of 0] by fastforce

lemma digit_val_eq_0: "is_digit c \<Longrightarrow> digit_val c = 0 \<longleftrightarrow> c = CHR ''0''"
  by (metis digit_char_eq_0 digit_val_char digit_val_less)

text \<open>The value of a text of digits, most significant first.\<close>

definition digits_val :: "string \<Rightarrow> nat" where
  "digits_val ds = foldl (\<lambda>n c. 10 * n + digit_val c) 0 ds"

lemma foldl_digits: "foldl (\<lambda>n c. 10 * n + digit_val c) m ds = m * 10 ^ length ds + digits_val ds"
proof (induction ds arbitrary: m)
  case Nil
  then show ?case by (simp add: digits_val_def)
next
  case (Cons c ds)
  have "foldl (\<lambda>n c. 10 * n + digit_val c) 0 (c # ds) = digit_val c * 10 ^ length ds + digits_val ds"
    using Cons.IH [of "digit_val c"] by simp
  then have "digits_val (c # ds) = digit_val c * 10 ^ length ds + digits_val ds"
    by (simp add: digits_val_def)
  moreover have "foldl (\<lambda>n c. 10 * n + digit_val c) m (c # ds)
      = (10 * m + digit_val c) * 10 ^ length ds + digits_val ds"
    using Cons.IH [of "10 * m + digit_val c"] by simp
  ultimately show ?case by (simp add: algebra_simps)
qed

lemma digits_val_Nil [simp]: "digits_val [] = 0"
  by (simp add: digits_val_def)

lemma digits_val_append: "digits_val (xs @ ys) = digits_val xs * 10 ^ length ys + digits_val ys"
  using foldl_digits [of "digits_val xs" ys] by (simp add: digits_val_def)

lemma digits_val_Cons: "digits_val (c # ds) = digit_val c * 10 ^ length ds + digits_val ds"
  using digits_val_append [of "[c]" ds] by (simp add: digits_val_def)

lemma digits_val_less: "\<forall>c\<in>set ds. is_digit c \<Longrightarrow> digits_val ds < 10 ^ length ds"
proof (induction ds)
  case Nil
  then show ?case by simp
next
  case (Cons c ds)
  then have "digits_val ds < 10 ^ length ds" and "digit_val c \<le> 9"
    using digit_val_less [of c] by auto
  moreover have "digit_val c * 10 ^ length ds \<le> 9 * 10 ^ length ds"
    using \<open>digit_val c \<le> 9\<close> by simp
  ultimately have "digits_val (c # ds) < 10 ^ length ds + 9 * 10 ^ length ds"
    unfolding digits_val_Cons by linarith
  then show ?case by simp
qed

text \<open>The decimal text of a natural number (\<open>std::to_string\<close> of a non-negative value).\<close>

fun nat_text :: "nat \<Rightarrow> string" where
  "nat_text n = (if n < 10 then [digit_char n] else nat_text (n div 10) @ [digit_char (n mod 10)])"

declare nat_text.simps [simp del]

lemma nat_text_small: "n < 10 \<Longrightarrow> nat_text n = [digit_char n]"
  by (subst nat_text.simps) simp

lemma nat_text_big: "10 \<le> n \<Longrightarrow> nat_text n = nat_text (n div 10) @ [digit_char (n mod 10)]"
  by (subst nat_text.simps) simp

lemma nat_text_spec:
  "digits_val (nat_text n) = n \<and> (\<forall>c\<in>set (nat_text n). is_digit c) \<and> nat_text n \<noteq> []"
proof (induction n rule: nat_text.induct)
  case (1 n)
  show ?case
  proof (cases "n < 10")
    case True
    then show ?thesis by (simp add: nat_text_small digits_val_Cons)
  next
    case False
    then show ?thesis
      using 1 by (auto simp: nat_text_big digits_val_append digits_val_Cons)
  qed
qed

lemmas nat_text_val [simp] = nat_text_spec [THEN conjunct1]
lemmas nat_text_digits = nat_text_spec [THEN conjunct2, THEN conjunct1]
lemmas nat_text_nonempty [simp] = nat_text_spec [THEN conjunct2, THEN conjunct2]

lemma hd_nat_text: "0 < n \<Longrightarrow> hd (nat_text n) \<noteq> CHR ''0''"
proof (induction n rule: nat_text.induct)
  case (1 n)
  then show ?case
    by (cases "n < 10") (auto simp: nat_text_small nat_text_big)
qed

lemma nat_text_0 [simp]: "nat_text 0 = ''0''"
  by (simp add: nat_text_small)

lemma length_nat_text_le: "0 < k \<Longrightarrow> n < 10 ^ k \<Longrightarrow> length (nat_text n) \<le> k"
proof (induction n arbitrary: k rule: nat_text.induct)
  case (1 n)
  show ?case
  proof (cases "n < 10")
    case True
    with 1 show ?thesis by (simp add: nat_text_small)
  next
    case False
    with 1 obtain j where j: "k = Suc j" "0 < j"
      by (cases k; cases "k - 1") auto
    with 1 False have "n div 10 < 10 ^ j" by (simp add: less_mult_imp_div_less mult.commute)
    with 1 False j show ?thesis by (fastforce simp: nat_text_big)
  qed
qed

section \<open>Machine integers as integers\<close>

lemma le_div_mult: "0 < (m :: int) \<Longrightarrow> j \<le> L div m \<longleftrightarrow> j * m \<le> L"
proof
  assume "0 < m" "j \<le> L div m"
  then have "j * m \<le> L div m * m" by (intro mult_right_mono) simp_all
  also have "\<dots> \<le> L" using minus_mod_eq_div_mult [of L m] pos_mod_sign [of m L] \<open>0 < m\<close> by linarith
  finally show "j * m \<le> L" .
next
  assume "0 < m" "j * m \<le> L"
  then have "(j * m) div m \<le> L div m" by (intro zdiv_mono1)
  then show "j \<le> L div m" using \<open>0 < m\<close> by simp
qed

text \<open>A 64-bit value as an \<open>int\<close>, every conversion and wrapping operation passed through these.\<close>

definition wrap_u64 :: "int \<Rightarrow> int" where
  "wrap_u64 x = x mod 18446744073709551616"

definition wrap_i64 :: "int \<Rightarrow> int" where
  "wrap_i64 x = (if wrap_u64 x < 9223372036854775808 then wrap_u64 x else wrap_u64 x - 18446744073709551616)"

abbreviation (input) i64_range :: "int \<Rightarrow> bool" where
  "i64_range x \<equiv> - 9223372036854775808 \<le> x \<and> x \<le> 9223372036854775807"

lemma wrap_u64_id: "0 \<le> x \<Longrightarrow> x < 18446744073709551616 \<Longrightarrow> wrap_u64 x = x"
  by (simp add: wrap_u64_def)

lemma wrap_u64_neg: "- 18446744073709551616 \<le> x \<Longrightarrow> x < 0 \<Longrightarrow> wrap_u64 x = x + 18446744073709551616"
  using mod_pos_pos_trivial [of "x + 18446744073709551616" "18446744073709551616"] by (simp add: wrap_u64_def)

lemma wrap_u64_mod [simp]: "wrap_u64 (wrap_u64 x + y) = wrap_u64 (x + y)" "wrap_u64 (x + wrap_u64 y) = wrap_u64 (x + y)"
  "wrap_u64 (wrap_u64 x - y) = wrap_u64 (x - y)" "wrap_u64 (x - wrap_u64 y) = wrap_u64 (x - y)"
  "wrap_u64 (wrap_u64 x * y) = wrap_u64 (x * y)" "wrap_u64 (x * wrap_u64 y) = wrap_u64 (x * y)"
  "wrap_u64 (- wrap_u64 x) = wrap_u64 (- x)" "wrap_u64 (wrap_u64 x) = wrap_u64 x" "wrap_i64 (wrap_u64 x) = wrap_i64 x"
  by (simp_all add: wrap_u64_def wrap_i64_def mod_simps)

lemma wrap_u64_wrap_i64 [simp]: "wrap_u64 (wrap_i64 x + y) = wrap_u64 (x + y)"
proof -
  have "wrap_u64 (wrap_i64 x + y) = wrap_u64 (wrap_u64 x + y)"
    unfolding wrap_i64_def using mod_mult_self2 [of "wrap_u64 x + y" "- 1" 18446744073709551616]
    by (simp add: wrap_u64_def algebra_simps)
  then show ?thesis by simp
qed

lemma wrap_i64_wrap_i64 [simp]: "wrap_i64 (wrap_i64 x + y) = wrap_i64 (x + y)"
  unfolding wrap_i64_def [of "wrap_i64 x + y"] wrap_u64_wrap_i64 wrap_i64_def [of "x + y"] ..

lemma wrap_i64_id: "i64_range x \<Longrightarrow> wrap_i64 x = x"
  by (cases "x < 0") (simp_all add: wrap_i64_def wrap_u64_id wrap_u64_neg)

section \<open>Lists\<close>

definition strip_back :: "('a \<Rightarrow> bool) \<Rightarrow> 'a list \<Rightarrow> 'a list" where
  "strip_back p xs = rev (dropWhile p (rev xs))"

lemma strip_back_decomp: "\<exists>zs. xs = strip_back p xs @ zs \<and> (\<forall>z\<in>set zs. p z)"
proof -
  have "rev xs = takeWhile p (rev xs) @ dropWhile p (rev xs)" by simp
  then have "rev (rev xs) = rev (dropWhile p (rev xs)) @ rev (takeWhile p (rev xs))"
    by (metis rev_append)
  then have "xs = strip_back p xs @ rev (takeWhile p (rev xs))"
    unfolding strip_back_def by simp
  moreover have "\<forall>z\<in>set (rev (takeWhile p (rev xs))). p z"
    by (auto dest: set_takeWhileD)
  ultimately show ?thesis by blast
qed

lemma set_strip_back: "set (strip_back p xs) \<subseteq> set xs"
  unfolding strip_back_def by (metis set_dropWhileD set_rev subsetI)

lemma last_strip_back: "strip_back p xs \<noteq> [] \<Longrightarrow> \<not> p (last (strip_back p xs))"
  unfolding strip_back_def by (simp add: last_rev hd_dropWhile)

lemma strip_back_id: "xs = [] \<or> \<not> p (last xs) \<Longrightarrow> strip_back p xs = xs"
  unfolding strip_back_def by (cases xs rule: rev_cases) auto

end
