(* ===== verification/Big_Integer.thy ===== *)
theory Big_Integer
  imports Prelude
begin

text \<open>
  The runtime's arbitrary-precision integer, \<open>struct BigInt\<close> of \<open>src/runtime_integer.cpp\<close>: a sign
  and little-endian limbs in base 1e9, held as 32-bit words; sums and products run in 64-bit words
  with the carry explicit, as the code computes them. \<open>bi_val\<close> reads a value, \<open>bi_ok\<close> is the
  representation invariant (limbs below the base, no leading zero limb, sign 0 exactly for zero).
  The lemmas show that every operation keeps the invariant, that no 64-bit intermediate wraps, and
  that each computes its integer operation.
\<close>

section \<open>Representation\<close>

abbreviation limb_base :: nat where
  "limb_base \<equiv> 1000000000"

record bigint =
  sign :: int
  limbs :: "u32 list"

definition bi_zero :: bigint where
  "bi_zero = \<lparr>sign = 0, limbs = []\<rparr>"

definition normalize :: "bigint \<Rightarrow> bigint" where
  "normalize b =
     (let ls = strip_back (\<lambda>l. l = 0) (limbs b)
      in if ls = [] then \<lparr>sign = 0, limbs = ls\<rparr>
         else \<lparr>sign = (if sign b < 0 then -1 else 1), limbs = ls\<rparr>)"

text \<open>The constructor \<open>BigInt(s, v)\<close>.\<close>

definition mk_bigint :: "int \<Rightarrow> u32 list \<Rightarrow> bigint" where
  "mk_bigint s v = normalize \<lparr>sign = s, limbs = v\<rparr>"

fun limbs_val :: "u32 list \<Rightarrow> nat" where
  "limbs_val [] = 0"
| "limbs_val (l # ls) = unat l + limb_base * limbs_val ls"

definition bi_val :: "bigint \<Rightarrow> int" where
  "bi_val b = sign b * int (limbs_val (limbs b))"

definition limbs_ok :: "u32 list \<Rightarrow> bool" where
  "limbs_ok ls \<longleftrightarrow> (\<forall>l\<in>set ls. unat l < limb_base)"

definition bi_ok :: "bigint \<Rightarrow> bool" where
  "bi_ok b \<longleftrightarrow> limbs_ok (limbs b) \<and> (limbs b = [] \<or> last (limbs b) \<noteq> 0)
     \<and> (if limbs b = [] then sign b = 0 else sign b = 1 \<or> sign b = -1)"

lemma limbs_ok_Nil [simp]: "limbs_ok []"
  by (simp add: limbs_ok_def)

lemma limbs_ok_Cons [simp]: "limbs_ok (l # ls) \<longleftrightarrow> unat l < limb_base \<and> limbs_ok ls"
  by (simp add: limbs_ok_def)

lemma limbs_ok_append [simp]: "limbs_ok (xs @ ys) \<longleftrightarrow> limbs_ok xs \<and> limbs_ok ys"
  by (auto simp: limbs_ok_def)

lemma limbs_ok_rev [simp]: "limbs_ok (rev xs) \<longleftrightarrow> limbs_ok xs"
  by (simp add: limbs_ok_def)

lemma limbs_val_append: "limbs_val (xs @ ys) = limbs_val xs + limb_base ^ length xs * limbs_val ys"
  by (induction xs) (simp_all add: algebra_simps)

lemma limbs_val_zeros: "\<forall>z\<in>set zs. z = 0 \<Longrightarrow> limbs_val zs = 0"
  by (induction zs) auto

lemma limbs_val_less: "limbs_ok ls \<Longrightarrow> limbs_val ls < limb_base ^ length ls"
proof (induction ls)
  case Nil
  then show ?case by simp
next
  case (Cons l ls)
  then have "unat l < limb_base" and "limbs_val ls + 1 \<le> limb_base ^ length ls" by auto
  moreover from this(2) have "limb_base * (limbs_val ls + 1) \<le> limb_base * limb_base ^ length ls"
    by (rule mult_le_mono2)
  ultimately show ?case by simp
qed

lemma limbs_val_ge:
  assumes "ls \<noteq> []" and "last ls \<noteq> 0"
  shows "limb_base ^ (length ls - 1) \<le> limbs_val ls"
proof -
  obtain xs l where ls: "ls = xs @ [l]" and "l \<noteq> 0"
    using assms by (metis append_butlast_last_id)
  then have "1 \<le> unat l" by (metis less_one linorder_not_le unat_eq_zero)
  then show ?thesis by (simp add: ls limbs_val_append trans_le_add2)
qed

lemma limbs_val_0_iff: "ls = [] \<or> last ls \<noteq> 0 \<Longrightarrow> limbs_val ls = 0 \<longleftrightarrow> ls = []"
  using limbs_val_ge [of ls] by fastforce

lemma limbs_val_strip: "limbs_val (strip_back (\<lambda>l. l = 0) ls) = limbs_val ls"
proof -
  obtain zs where zs: "ls = strip_back (\<lambda>l. l = 0) ls @ zs" "\<forall>z\<in>set zs. z = 0"
    using strip_back_decomp [of ls "\<lambda>l. l = 0"] by blast
  have "limbs_val ls = limbs_val (strip_back (\<lambda>l. l = 0) ls @ zs)"
    using zs(1) by simp
  then show ?thesis
    by (simp add: limbs_val_append limbs_val_zeros [OF zs(2)])
qed

lemma bi_ok_mk [ok_intros, simp]: "limbs_ok v \<Longrightarrow> bi_ok (mk_bigint s v)"
  using set_strip_back [of "\<lambda>l. l = 0" v] last_strip_back [of "\<lambda>l. l = 0" v]
  by (auto simp: bi_ok_def mk_bigint_def normalize_def Let_def limbs_ok_def)

lemma bi_val_mk: "bi_val (mk_bigint s v) = (if s < 0 then - int (limbs_val v) else int (limbs_val v))"
  using limbs_val_strip [of v]
  by (auto simp: bi_val_def mk_bigint_def normalize_def Let_def)

lemma limbs_val_mk [simp]: "limbs_val (limbs (mk_bigint s v)) = limbs_val v"
  using limbs_val_strip [of v] by (auto simp: mk_bigint_def normalize_def Let_def)

lemma sign_mk: "sign (mk_bigint s v) = (if limbs_val v = 0 then 0 else if s < 0 then -1 else 1)"
  using limbs_val_strip [of v] last_strip_back [of "\<lambda>l. l = 0" v]
  limbs_val_0_iff [of "strip_back (\<lambda>l. l = 0) v"]
  by (auto simp: mk_bigint_def normalize_def Let_def)

lemma bi_ok_zero [ok_intros, simp]: "bi_ok bi_zero"
  by (simp add: bi_ok_def bi_zero_def)

lemma bi_val_zero [simp]: "bi_val bi_zero = 0"
  by (simp add: bi_val_def bi_zero_def)

lemma bi_ok_sign: "bi_ok b \<Longrightarrow> sign b = sgn (bi_val b)"
proof -
  assume b: "bi_ok b"
  then have "limbs_val (limbs b) = 0 \<longleftrightarrow> limbs b = []"
    by (intro limbs_val_0_iff) (auto simp: bi_ok_def)
  then show ?thesis
    using b by (cases "limbs b = []") (auto simp: bi_ok_def bi_val_def sgn_if)
qed

lemma bi_ok_sign_cases: "bi_ok b \<Longrightarrow> sign b \<noteq> 0 \<Longrightarrow> sign b = 1 \<or> sign b = -1"
  by (auto simp: bi_ok_def split: if_splits)

lemma bi_ok_abs: "bi_ok b \<Longrightarrow> int (limbs_val (limbs b)) = \<bar>bi_val b\<bar>"
  by (auto simp: bi_ok_def bi_val_def split: if_splits)

lemma bi_ok_limbs [simp]: "bi_ok b \<Longrightarrow> limbs_ok (limbs b)"
  by (simp add: bi_ok_def)

lemma bi_ok_sign_0 [simp]: "bi_ok b \<Longrightarrow> sign b = 0 \<longleftrightarrow> bi_val b = 0"
  by (simp add: bi_ok_sign sgn_0_0)

section \<open>Machine integers in and out\<close>

lemma u64_div_base_less: "(v :: u64) \<noteq> 0 \<Longrightarrow> unat (v div 1000000000) < unat v"
proof -
  assume "v \<noteq> 0"
  then have "0 < unat v" by (simp add: unat_gt_0)
  then show ?thesis by (simp add: unat_div_distrib)
qed

function u64_limbs :: "u64 \<Rightarrow> u32 list" where
  "u64_limbs v = (if v = 0 then [] else ucast (v mod 1000000000) # u64_limbs (v div 1000000000))"
  by pat_completeness auto
termination
  by (relation "measure unat") (use u64_div_base_less in auto)

declare u64_limbs.simps [simp del]

definition from_u64 :: "u64 \<Rightarrow> bigint" where
  "from_u64 v = (if v = 0 then bi_zero else mk_bigint 1 (u64_limbs v))"

text \<open>A signed 64-bit value is a \<open>u64\<close> read by \<open>sint\<close>.\<close>

definition from_i64 :: "u64 \<Rightarrow> bigint" where
  "from_i64 v =
     (if 0 \<le> sint v then from_u64 v
      else let magnitude = - (v + 1) + 1 in (from_u64 magnitude)\<lparr>sign := -1\<rparr>)"

lemma u64_limbs_spec: "limbs_val (u64_limbs v) = unat v \<and> limbs_ok (u64_limbs v)"
proof (induction v rule: u64_limbs.induct)
  case (1 v)
  show ?case
  proof (cases "v = 0")
    case True
    then show ?thesis by (simp add: u64_limbs.simps)
  next
    case False
    have m: "unat (v mod 1000000000) = unat v mod limb_base"
      by (simp add: unat_mod_distrib)
    then have "unat (ucast (v mod 1000000000) :: u32) = unat v mod limb_base"
      by (simp add: word_nat)
    moreover have "unat (v div 1000000000) = unat v div limb_base"
      by (simp add: unat_div_distrib)
    ultimately show ?thesis
      using 1 False by (subst (1 2) u64_limbs.simps) simp
  qed
qed

lemma from_u64_ok [ok_intros, simp]: "bi_ok (from_u64 v)"
  using u64_limbs_spec [of v] by (simp add: from_u64_def)

lemma from_u64_val [simp]: "bi_val (from_u64 v) = int (unat v)"
  using u64_limbs_spec [of v] by (simp add: from_u64_def bi_val_mk)

lemma neg_magnitude: "sint (v :: u64) < 0 \<Longrightarrow> int (unat (- v)) = - sint v"
proof -
  assume neg: "sint v < 0"
  then have "v \<noteq> 0" by auto
  moreover have "unat v < 18446744073709551616"
    using unsigned_less [of v, where ?'a=nat] by simp
  ultimately show ?thesis using neg by (auto simp: sint_u64 unat_neg_u64 split: if_splits)
qed
lemma from_u64_limbs [simp]: "limbs_val (limbs (from_u64 v)) = unat v"
  using u64_limbs_spec [of v] by (simp add: from_u64_def bi_zero_def)

lemma from_i64_val [simp]: "bi_val (from_i64 v) = sint v"
proof (cases "0 \<le> sint v")
  case True
  then show ?thesis
    using unat_u64_lt [of v] by (auto simp: from_i64_def sint_u64 split: if_splits)
next
  case False
  then have "int (unat (- v)) = - sint v" by (intro neg_magnitude) simp
  with False show ?thesis by (simp add: from_i64_def Let_def bi_val_def)
qed

lemma from_i64_ok [ok_intros, simp]: "bi_ok (from_i64 v)"
proof (cases "0 \<le> sint v")
  case True
  then show ?thesis by (simp add: from_i64_def)
next
  case False
  then have "int (unat (- v)) = - sint v" by (intro neg_magnitude) simp
  with False have "limbs_val (limbs (from_u64 (- v))) \<noteq> 0"
    using from_u64_limbs [of "- v"] by linarith
  then have "limbs (from_u64 (- v)) \<noteq> []" by (metis limbs_val.simps(1))
  with False show ?thesis
    using from_u64_ok [of "- v"] by (auto simp: from_i64_def Let_def bi_ok_def)
qed

section \<open>Comparison\<close>

text \<open>The limbs from the most significant one down, of two numbers of one length.\<close>

fun cmp_limbs :: "u32 list \<Rightarrow> u32 list \<Rightarrow> int" where
  "cmp_limbs (x # xs) (y # ys) = (if x \<noteq> y then (if x < y then -1 else 1) else cmp_limbs xs ys)"
| "cmp_limbs _ _ = 0"

definition cmp_abs :: "bigint \<Rightarrow> bigint \<Rightarrow> int" where
  "cmp_abs a b =
     (if length (limbs a) \<noteq> length (limbs b)
      then (if length (limbs a) < length (limbs b) then -1 else 1)
      else cmp_limbs (rev (limbs a)) (rev (limbs b)))"

definition cmp :: "bigint \<Rightarrow> bigint \<Rightarrow> int" where
  "cmp a b =
     (if sign a \<noteq> sign b then (if sign a < sign b then -1 else 1)
      else if sign a = 0 then 0
      else let c = cmp_abs a b in if sign a < 0 then - c else c)"

definition neg :: "bigint \<Rightarrow> bigint" where
  "neg b = b\<lparr>sign := - sign b\<rparr>"

definition absbi :: "bigint \<Rightarrow> bigint" where
  "absbi b = (if sign b < 0 then b\<lparr>sign := 1\<rparr> else b)"

lemma cmp_limbs_val:
  "length xs = length ys \<Longrightarrow> limbs_ok xs \<Longrightarrow> limbs_ok ys \<Longrightarrow>
    cmp_limbs xs ys = sgn (int (limbs_val (rev xs)) - int (limbs_val (rev ys)))"
proof (induction xs ys rule: list_induct2)
  case Nil
  then show ?case by simp
next
  case (Cons x xs y ys)
  define p where "p = limb_base ^ length xs"
  have lt: "limbs_val (rev xs) < p" "limbs_val (rev ys) < p"
    using Cons limbs_val_less [of "rev xs"] limbs_val_less [of "rev ys"] by (auto simp: p_def)
  have val: "limbs_val (rev (x # xs)) = limbs_val (rev xs) + p * unat x"
    "limbs_val (rev (y # ys)) = limbs_val (rev ys) + p * unat y"
    using Cons.hyps by (simp_all add: limbs_val_append p_def)
  consider "unat x < unat y" | "unat y < unat x" | "x = y"
    using word_unat_eq_iff [of x y] by linarith
  then show ?case
  proof cases
    case 1
    then have "p * (unat x + 1) \<le> p * unat y" by (intro mult_le_mono2) simp
    with lt have "limbs_val (rev (x # xs)) < limbs_val (rev (y # ys))" unfolding val by simp
    with 1 show ?thesis by (auto simp: word_less_nat_alt sgn_if)
  next
    case 2
    then have "p * (unat y + 1) \<le> p * unat x" by (intro mult_le_mono2) simp
    with lt have "limbs_val (rev (y # ys)) < limbs_val (rev (x # xs))" unfolding val by simp
    with 2 show ?thesis by (auto simp: word_less_nat_alt sgn_if)
  next
    case 3
    with Cons show ?thesis unfolding val by simp
  qed
qed

definition limbs_canon :: "u32 list \<Rightarrow> bool" where
  "limbs_canon ls \<longleftrightarrow> limbs_ok ls \<and> (ls = [] \<or> last ls \<noteq> 0)"

lemma bi_ok_canon [simp]: "bi_ok b \<Longrightarrow> limbs_canon (limbs b)"
  by (simp add: bi_ok_def limbs_canon_def)

lemma limbs_canon_shorter:
  assumes "limbs_canon xs" and "limbs_canon ys" and "length xs < length ys"
  shows "limbs_val xs < limbs_val ys"
proof -
  have "limbs_val xs < limb_base ^ length xs"
    using assms(1) by (simp add: limbs_canon_def limbs_val_less)
  also have "\<dots> \<le> limb_base ^ (length ys - 1)"
    using assms(3) by (intro power_increasing) auto
  also have "\<dots> \<le> limbs_val ys"
    using assms(2,3) by (intro limbs_val_ge) (auto simp: limbs_canon_def)
  finally show ?thesis .
qed

lemma cmp_abs_val:
  assumes "limbs_canon (limbs a)" and "limbs_canon (limbs b)"
  shows "cmp_abs a b = sgn (int (limbs_val (limbs a)) - int (limbs_val (limbs b)))"
proof (cases "length (limbs a) = length (limbs b)")
  case True
  then show ?thesis
    using assms cmp_limbs_val [of "rev (limbs a)" "rev (limbs b)"]
    by (simp add: cmp_abs_def limbs_canon_def)
next
  case False
  then show ?thesis
    using limbs_canon_shorter [OF assms] limbs_canon_shorter [OF assms(2,1)]
    by (auto simp: cmp_abs_def sgn_if)
qed

lemma neg_ok [ok_intros, simp]: "bi_ok b \<Longrightarrow> bi_ok (neg b)"
  by (auto simp: bi_ok_def neg_def split: if_splits)

lemma neg_val [simp]: "bi_val (neg b) = - bi_val b"
  by (simp add: bi_val_def neg_def)

lemma absbi_ok [ok_intros, simp]: "bi_ok b \<Longrightarrow> bi_ok (absbi b)"
  by (auto simp: bi_ok_def absbi_def split: if_splits)

lemma absbi_val [simp]: "bi_ok b \<Longrightarrow> bi_val (absbi b) = \<bar>bi_val b\<bar>"
  by (auto simp: bi_ok_def absbi_def bi_val_def split: if_splits)

lemma limbs_absbi [simp]: "limbs (absbi b) = limbs b"
  by (simp add: absbi_def)

lemma cmp_val: "bi_ok a \<Longrightarrow> bi_ok b \<Longrightarrow> cmp a b = sgn (bi_val a - bi_val b)"
proof -
  assume a: "bi_ok a" and b: "bi_ok b"
  have c: "cmp_abs a b = sgn (\<bar>bi_val a\<bar> - \<bar>bi_val b\<bar>)"
    using a b by (simp add: cmp_abs_val bi_ok_abs [symmetric])
  show ?thesis
    unfolding cmp_def c Let_def bi_ok_sign [OF a] bi_ok_sign [OF b]
    by (auto simp: sgn_if)
qed

section \<open>Addition and subtraction\<close>

text \<open>The loop of \<open>add_abs\<close>: the limbs that remain of each operand, and the carry.\<close>

fun add_loop :: "u32 list \<Rightarrow> u32 list \<Rightarrow> u64 \<Rightarrow> u32 list" where
  "add_loop [] [] carry = (if carry \<noteq> 0 then [ucast carry] else [])"
| "add_loop (x # xs) [] carry =
     (let total = carry + ucast x
      in ucast (total mod 1000000000) # add_loop xs [] (total div 1000000000))"
| "add_loop [] (y # ys) carry =
     (let total = carry + ucast y
      in ucast (total mod 1000000000) # add_loop [] ys (total div 1000000000))"
| "add_loop (x # xs) (y # ys) carry =
     (let total = carry + ucast x + ucast y
      in ucast (total mod 1000000000) # add_loop xs ys (total div 1000000000))"

definition add_abs :: "bigint \<Rightarrow> bigint \<Rightarrow> bigint" where
  "add_abs a b = mk_bigint 1 (add_loop (limbs a) (limbs b) 0)"

text \<open>
  The loop of \<open>sub_abs\<close>, in 64-bit signed values between \<open>- limb_base\<close> and \<open>limb_base\<close>, which no
  64-bit operation wraps; it visits the limbs of the first operand only.
\<close>

fun sub_loop :: "u32 list \<Rightarrow> u32 list \<Rightarrow> int \<Rightarrow> u32 list" where
  "sub_loop [] _ borrow = []"
| "sub_loop (x # xs) ys borrow =
     (let v = int (unat x) - borrow - (case ys of [] \<Rightarrow> 0 | y # _ \<Rightarrow> int (unat y));
          v' = (if v < 0 then v + 1000000000 else v);
          borrow' = (if v < 0 then 1 else 0)
      in of_int v' # sub_loop xs (tl ys) borrow')"

definition sub_abs :: "bigint \<Rightarrow> bigint \<Rightarrow> bigint" where
  "sub_abs a b = mk_bigint 1 (sub_loop (limbs a) (limbs b) 0)"

definition add :: "bigint \<Rightarrow> bigint \<Rightarrow> bigint" where
  "add a b =
     (if sign a = 0 then b
      else if sign b = 0 then a
      else if sign a = sign b then (add_abs a b)\<lparr>sign := sign a\<rparr>
      else let c = cmp_abs a b in
           if c = 0 then bi_zero
           else if 0 < c then (sub_abs a b)\<lparr>sign := sign a\<rparr>
           else (sub_abs b a)\<lparr>sign := sign b\<rparr>)"

definition sub :: "bigint \<Rightarrow> bigint \<Rightarrow> bigint" where
  "sub a b = add a (neg b)"

lemma split_base:
  assumes "unat (t :: u64) < limb_base * limb_base"
  shows "unat (ucast (t mod 1000000000) :: u32) = unat t mod limb_base"
    and "unat (t div 1000000000) = unat t div limb_base"
    and "unat t div limb_base < limb_base"
  using assms by (simp_all add: unat_mod_distrib unat_div_distrib word_nat less_mult_imp_div_less)

lemma add_loop_spec:
  "limbs_ok xs \<Longrightarrow> limbs_ok ys \<Longrightarrow> unat c < limb_base \<Longrightarrow>
    limbs_val (add_loop xs ys c) = limbs_val xs + limbs_val ys + unat c \<and> limbs_ok (add_loop xs ys c)"
proof (induction xs ys c rule: add_loop.induct)
  case (1 c)
  then show ?case by (auto simp: word_nat)
next
  case (2 x xs c)
  define t where "t = c + ucast x"
  have t: "unat t = unat c + unat x" using 2 by (simp add: t_def word_nat)
  then have "unat t < limb_base * limb_base" using 2 by simp
  note s = split_base [OF this]
  have "limbs_val (add_loop xs [] (t div 1000000000)) = limbs_val xs + 0 + unat (t div 1000000000)
      \<and> limbs_ok (add_loop xs [] (t div 1000000000))"
    using 2 s by (simp add: t_def [symmetric])
  then show ?case
    using s t by (simp add: t_def [symmetric] algebra_simps)
next
  case (3 y ys c)
  define t where "t = c + ucast y"
  have t: "unat t = unat c + unat y" using 3 by (simp add: t_def word_nat)
  then have "unat t < limb_base * limb_base" using 3 by simp
  note s = split_base [OF this]
  have "limbs_val (add_loop [] ys (t div 1000000000)) = 0 + limbs_val ys + unat (t div 1000000000)
      \<and> limbs_ok (add_loop [] ys (t div 1000000000))"
    using 3 s by (simp add: t_def [symmetric])
  then show ?case
    using s t by (simp add: t_def [symmetric] algebra_simps)
next
  case (4 x xs y ys c)
  define t where "t = c + ucast x + ucast y"
  have t: "unat t = unat c + unat x + unat y" using 4 by (simp add: t_def word_nat)
  then have "unat t < limb_base * limb_base" using 4 by simp
  note s = split_base [OF this]
  have eq: "add_loop (x # xs) (y # ys) c
      = ucast (t mod 1000000000) # add_loop xs ys (t div 1000000000)"
    by (simp add: t_def Let_def)
  have "limbs_val (add_loop xs ys (t div 1000000000)) = limbs_val xs + limbs_val ys + unat (t div 1000000000)
      \<and> limbs_ok (add_loop xs ys (t div 1000000000))"
    using 4 s by (simp add: t_def [symmetric])
  then show ?case
    unfolding eq using s t by (simp add: algebra_simps)
qed

lemma add_abs_val:
  "limbs_ok (limbs a) \<Longrightarrow> limbs_ok (limbs b) \<Longrightarrow>
    bi_ok (add_abs a b) \<and> limbs_val (limbs (add_abs a b)) = limbs_val (limbs a) + limbs_val (limbs b)"
  using add_loop_spec [of "limbs a" "limbs b" 0] by (simp add: add_abs_def)

lemma sub_loop_spec:
  "limbs_ok xs \<Longrightarrow> limbs_ok ys \<Longrightarrow> c = 0 \<or> c = 1 \<Longrightarrow>
    int (limbs_val ys) + c \<le> int (limbs_val xs) \<Longrightarrow>
    int (limbs_val (sub_loop xs ys c)) = int (limbs_val xs) - int (limbs_val ys) - c
      \<and> limbs_ok (sub_loop xs ys c)"
proof (induction xs ys c rule: sub_loop.induct)
  case (1 ys c)
  then show ?case by auto
next
  case (2 x xs ys c)
  define y where "y = (case ys of [] \<Rightarrow> 0 | y # _ \<Rightarrow> unat y)"
  define v where "v = int (unat x) - c - int y"
  define v' where "v' = (if v < 0 then v + 1000000000 else v)"
  define c' where "c' = (if v < 0 then 1 else 0 :: int)"
  have yv: "limbs_val ys = y + limb_base * limbs_val (tl ys)" and y: "y < limb_base"
    and tl: "limbs_ok (tl ys)"
    using 2(3) by (cases ys; simp add: y_def)+
  have x: "unat x < limb_base" using 2(2) by simp
  have vv: "v' = v + limb_base * c'" by (simp add: v'_def c'_def)
  have v'r: "0 \<le> v'" "v' < limb_base" and c'r: "c' = 0 \<or> c' = 1"
    using x y 2(4) by (auto simp: v'_def v_def c'_def)
  have le: "int (limbs_val (tl ys)) + c' \<le> int (limbs_val xs)"
  proof (rule ccontr)
    assume "\<not> ?thesis"
    then have "limb_base * (int (limbs_val xs) + 1) \<le> limb_base * (int (limbs_val (tl ys)) + c')"
      by (intro mult_left_mono) auto
    moreover have "int (y + limb_base * limbs_val (tl ys)) + c \<le> int (unat x) + limb_base * int (limbs_val xs)"
      using 2(5) yv by simp
    moreover have "v' < limb_base" by (fact v'r)
    ultimately show False
      using v'r vv by (simp add: v_def algebra_simps)
  qed
  have eq: "sub_loop (x # xs) ys c = of_int v' # sub_loop xs (tl ys) c'"
    by (simp add: Let_def v'_def c'_def v_def y_def split: list.splits)
  have IH: "int (limbs_val (sub_loop xs (tl ys) c')) = int (limbs_val xs) - int (limbs_val (tl ys)) - c'
      \<and> limbs_ok (sub_loop xs (tl ys) c')"
  proof (rule 2(1) [OF _ v'_def c'_def _ tl c'r le])
    show "v = int (unat x) - c - (case ys of [] \<Rightarrow> 0 | y # _ \<Rightarrow> int (unat y))"
      by (cases ys) (simp_all add: v_def y_def)
    show "limbs_ok xs" using 2(2) by simp
  qed
  have "int (unat (of_int v' :: u32)) = v'"
    using v'r by (simp add: of_nat_unat uint_word_of_int)
  with IH v'r vv show ?case
    unfolding eq yv by (simp add: v_def algebra_simps)
qed

lemma sub_abs_val:
  assumes "limbs_ok (limbs a)" and "limbs_ok (limbs b)"
    and "limbs_val (limbs b) \<le> limbs_val (limbs a)"
  shows "bi_ok (sub_abs a b)"
    and "limbs_val (limbs (sub_abs a b)) = limbs_val (limbs a) - limbs_val (limbs b)"
proof -
  have "int (limbs_val (sub_loop (limbs a) (limbs b) 0)) = int (limbs_val (limbs a)) - int (limbs_val (limbs b))"
    and "limbs_ok (sub_loop (limbs a) (limbs b) 0)"
    using sub_loop_spec [of "limbs a" "limbs b" 0] assms by simp_all
  then show "bi_ok (sub_abs a b)"
    and "limbs_val (limbs (sub_abs a b)) = limbs_val (limbs a) - limbs_val (limbs b)"
    by (auto simp: sub_abs_def)
qed

text \<open>A sign put on limbs that are not all zero.\<close>

lemma resign:
  assumes "bi_ok x" and "s = 1 \<or> s = -1" and "limbs_val (limbs x) \<noteq> 0"
  shows "bi_ok (x\<lparr>sign := s\<rparr>)" and "bi_val (x\<lparr>sign := s\<rparr>) = s * int (limbs_val (limbs x))"
  using assms by (auto simp: bi_ok_def bi_val_def)

lemma add_ok_val:
  assumes a: "bi_ok a" and b: "bi_ok b"
  shows "bi_ok (add a b) \<and> bi_val (add a b) = bi_val a + bi_val b"
proof -
  note abs = bi_ok_abs [OF a] bi_ok_abs [OF b] and sg = bi_ok_sign [OF a] bi_ok_sign [OF b]
  have c: "cmp_abs a b = sgn (\<bar>bi_val a\<bar> - \<bar>bi_val b\<bar>)"
    using a b by (simp add: cmp_abs_val bi_ok_abs [symmetric])
  consider "bi_val a = 0" | "bi_val b = 0" | "bi_val a \<noteq> 0" "bi_val b \<noteq> 0" "sgn (bi_val a) = sgn (bi_val b)"
    | "bi_val a \<noteq> 0" "bi_val b \<noteq> 0" "sgn (bi_val a) \<noteq> sgn (bi_val b)" "\<bar>bi_val a\<bar> = \<bar>bi_val b\<bar>"
    | "bi_val a \<noteq> 0" "bi_val b \<noteq> 0" "sgn (bi_val a) \<noteq> sgn (bi_val b)" "\<bar>bi_val b\<bar> < \<bar>bi_val a\<bar>"
    | "bi_val a \<noteq> 0" "bi_val b \<noteq> 0" "sgn (bi_val a) \<noteq> sgn (bi_val b)" "\<bar>bi_val a\<bar> < \<bar>bi_val b\<bar>"
    by linarith
  then show ?thesis
  proof cases
    case 1
    then have "sign a = 0" using a by simp
    then show ?thesis using b 1 by (simp add: add_def)
  next
    case 2
    then have "sign b = 0" using b by simp
    then show ?thesis using a b 2 bi_ok_sign_0 [OF a] by (auto simp: add_def)
  next
    case 3
    have "limbs_val (limbs (add_abs a b)) = limbs_val (limbs a) + limbs_val (limbs b)" "bi_ok (add_abs a b)"
      using add_abs_val a b by auto
    with 3 show ?thesis
      using resign [of "add_abs a b" "sign a"] abs
      by (auto simp: add_def sg sgn_if split: if_splits)
  next
    case 4
    then show ?thesis using c by (auto simp: add_def sg sgn_if split: if_splits)
  next
    case 5
    have "limbs_val (limbs b) < limbs_val (limbs a)" using 5 abs by linarith
    then have "bi_ok (sub_abs a b)" "int (limbs_val (limbs (sub_abs a b))) = \<bar>bi_val a\<bar> - \<bar>bi_val b\<bar>"
      using sub_abs_val [of a b] a b abs by auto
    with 5 c show ?thesis
      using resign [of "sub_abs a b" "sign a"]
      by (auto simp: add_def sg sgn_if split: if_splits)
  next
    case 6
    have "limbs_val (limbs a) < limbs_val (limbs b)" using 6 abs by linarith
    then have "bi_ok (sub_abs b a)" "int (limbs_val (limbs (sub_abs b a))) = \<bar>bi_val b\<bar> - \<bar>bi_val a\<bar>"
      using sub_abs_val [of b a] a b abs by auto
    with 6 c show ?thesis
      using resign [of "sub_abs b a" "sign b"]
      by (auto simp: add_def sg sgn_if split: if_splits)
  qed
qed

lemma add_ok [ok_intros, simp]: "bi_ok a \<Longrightarrow> bi_ok b \<Longrightarrow> bi_ok (add a b)"
  and add_val [simp]: "bi_ok a \<Longrightarrow> bi_ok b \<Longrightarrow> bi_val (add a b) = bi_val a + bi_val b"
  using add_ok_val by auto

lemma sub_ok [ok_intros, simp]: "bi_ok a \<Longrightarrow> bi_ok b \<Longrightarrow> bi_ok (sub a b)"
  and sub_val [simp]: "bi_ok a \<Longrightarrow> bi_ok b \<Longrightarrow> bi_val (sub a b) = bi_val a - bi_val b"
  by (simp_all add: sub_def)

end
