(* ===== verification/Big_Integer_Mul.thy ===== *)
theory Big_Integer_Mul
  imports Big_Integer
begin

unbundle bit_operations_syntax

text \<open>
  Multiplication, division, greatest common divisor and powers of \<open>BigInt\<close>
  (\<open>src/runtime_integer.cpp\<close>). The accumulator of the schoolbook product is a list of 64-bit words;
  the loop over index \<open>i + j\<close> is written as a recursion on the part of the accumulator from that
  index on. Division finds each quotient limb by the code's binary search. The lemmas show that
  every 64-bit intermediate is exact and that the results are the integer product, the quotient
  truncated towards zero and the remainder with the dividend's sign.
\<close>

section \<open>Multiplication\<close>

datatype exact_error =
    Division_By_Zero
  | Negative_Integer_Exponent
  | Zero_Power_Zero
  | Nat_Negative
  | Exact_Failure string
  | Out_Of_Range
  | Does_Not_Return

fun mul_small_loop :: "u32 list \<Rightarrow> u32 \<Rightarrow> u64 \<Rightarrow> u32 list" where
  "mul_small_loop [] factor carry = (if carry \<noteq> 0 then [ucast carry] else [])"
| "mul_small_loop (x # xs) factor carry =
     (let v = ucast x * ucast factor + carry
      in ucast (v mod 1000000000) # mul_small_loop xs factor (v div 1000000000))"

definition mul_small :: "bigint \<Rightarrow> u32 \<Rightarrow> bigint" where
  "mul_small a factor =
     (if sign a = 0 \<or> factor = 0 then bi_zero
      else mk_bigint (sign a) (mul_small_loop (limbs a) factor 0))"

text \<open>
  \<open>carry_up acc carry\<close> is the \<open>while (carry)\<close> loop of \<open>mul\<close> on the accumulator from index \<open>k\<close> on;
  at its end the code pushes a zero limb and goes on. \<open>mul_row x ys acc carry\<close> is the inner loop for
  one limb \<open>x\<close> followed by it. The accumulator is never shorter than \<open>ys\<close> (\<open>length_mul_row\<close>), so
  the case of an exhausted accumulator, which the code would read out of range, is not reached.
\<close>

function carry_up :: "u64 list \<Rightarrow> u64 \<Rightarrow> u64 list" where
  "carry_up (a # acc) carry =
     (if carry = 0 then a # acc
      else let total = a + carry
           in total mod 1000000000 # carry_up acc (total div 1000000000))"
| "carry_up [] carry =
     (if carry = 0 then []
      else carry mod 1000000000 # carry_up [] (carry div 1000000000))"
  by pat_completeness auto
termination
  by (relation "measures [\<lambda>(acc, c). length acc, \<lambda>(acc, c). unat c]") (use u64_div_base_less in auto)

fun mul_row :: "u32 \<Rightarrow> u32 list \<Rightarrow> u64 list \<Rightarrow> u64 \<Rightarrow> u64 list" where
  "mul_row x [] acc carry = carry_up acc carry"
| "mul_row x (y # ys) (a # acc) carry =
     (let total = ucast x * ucast y + a + carry
      in total mod 1000000000 # mul_row x ys acc (total div 1000000000))"
| "mul_row x (y # ys) [] carry = []"

fun mul_rows :: "u32 list \<Rightarrow> u32 list \<Rightarrow> u64 list \<Rightarrow> u64 list" where
  "mul_rows [] ys acc = acc"
| "mul_rows (x # xs) ys acc =
     (case mul_row x ys acc 0 of
        [] \<Rightarrow> []
      | a # acc' \<Rightarrow> a # mul_rows xs ys acc')"

definition mul :: "bigint \<Rightarrow> bigint \<Rightarrow> bigint" where
  "mul a b =
     (if sign a = 0 \<or> sign b = 0 then bi_zero
      else mk_bigint (sign a * sign b)
             (map ucast (mul_rows (limbs a) (limbs b)
                (replicate (length (limbs a) + length (limbs b)) 0))))"

fun acc_val :: "u64 list \<Rightarrow> nat" where
  "acc_val [] = 0"
| "acc_val (a # acc) = unat a + limb_base * acc_val acc"

definition acc_ok :: "u64 list \<Rightarrow> bool" where
  "acc_ok acc \<longleftrightarrow> (\<forall>a\<in>set acc. unat a < limb_base)"

lemma acc_ok_simps [simp]: "acc_ok []" "acc_ok (a # acc) \<longleftrightarrow> unat a < limb_base \<and> acc_ok acc"
  by (simp_all add: acc_ok_def)

lemma acc_replicate [simp]: "acc_val (replicate n 0) = 0" "acc_ok (replicate n 0)"
  by (induction n) simp_all

lemma split_base64:
  assumes "unat (t :: u64) < limb_base * limb_base"
  shows "unat (t mod 1000000000) = unat t mod limb_base"
    and "unat (t div 1000000000) = unat t div limb_base"
    and "unat t div limb_base < limb_base"
  using assms by (simp_all add: unat_mod_distrib unat_div_distrib less_mult_imp_div_less)

lemma base_product:
  assumes "x < limb_base" and "y < limb_base" and "a < limb_base" and "c < limb_base"
  shows "x * y + a + c < limb_base * limb_base"
proof -
  have "x * y \<le> 999999999 * 999999999"
    using assms by (intro mult_le_mono) linarith+
  moreover have "999999999 * 999999999 = (999999998000000001 :: nat)"
    and "limb_base * limb_base = 1000000000000000000" by simp_all
  ultimately show ?thesis using assms by linarith
qed

lemma word_product:
  assumes "unat (x :: u32) < limb_base" and "unat (y :: u32) < limb_base"
    and "unat (a :: u64) < limb_base" and "unat (c :: u64) < limb_base"
  shows "unat (ucast x * ucast y + a + c) = unat x * unat y + unat a + unat c"
    and "unat x * unat y + unat a + unat c < limb_base * limb_base"
proof -
  show b: "unat x * unat y + unat a + unat c < limb_base * limb_base"
    using assms by (rule base_product)
  then have "unat (ucast x * ucast y :: u64) = unat x * unat y"
    by (simp add: word_nat)
  with b show "unat (ucast x * ucast y + a + c) = unat x * unat y + unat a + unat c"
    by (simp add: word_nat)
qed

lemma mul_small_loop_spec:
  "limbs_ok xs \<Longrightarrow> unat f < limb_base \<Longrightarrow> unat c < limb_base \<Longrightarrow>
    limbs_val (mul_small_loop xs f c) = limbs_val xs * unat f + unat c \<and> limbs_ok (mul_small_loop xs f c)"
proof (induction xs f c rule: mul_small_loop.induct)
  case (1 f c)
  then show ?case by (auto simp: word_nat)
next
  case (2 x xs f c)
  define t where "t = ucast x * ucast f + c"
  have t: "unat t = unat x * unat f + unat c" "unat t < limb_base * limb_base"
    using 2 word_product [of x f 0 c] by (simp_all add: t_def)
  note s = split_base [OF t(2)]
  have eq: "mul_small_loop (x # xs) f c = ucast (t mod 1000000000) # mul_small_loop xs f (t div 1000000000)"
    by (simp add: t_def Let_def)
  have "limbs_val (mul_small_loop xs f (t div 1000000000)) = limbs_val xs * unat f + unat (t div 1000000000)
      \<and> limbs_ok (mul_small_loop xs f (t div 1000000000))"
    using 2 s by (simp add: t_def [symmetric])
  then show ?case unfolding eq using s t(1) by (simp add: algebra_simps)
qed

lemma mul_small_ok_val:
  assumes "bi_ok a" and "unat f < limb_base"
  shows "bi_ok (mul_small a f) \<and> bi_val (mul_small a f) = bi_val a * int (unat f)"
proof (cases "sign a = 0 \<or> f = 0")
  case True
  then show ?thesis using assms(1) by (auto simp: mul_small_def)
next
  case False
  then have "sign a = 1 \<or> sign a = -1"
    using bi_ok_sign_cases [OF assms(1)] by blast
  moreover have "limbs_val (mul_small_loop (limbs a) f 0) = limbs_val (limbs a) * unat f"
    and "limbs_ok (mul_small_loop (limbs a) f 0)"
    using mul_small_loop_spec [of "limbs a" f 0] assms by simp_all
  ultimately show ?thesis
    using False by (auto simp: mul_small_def bi_val_mk bi_val_def [of a])
qed

lemma carry_up_spec:
  "acc_ok acc \<Longrightarrow> unat c < limb_base \<Longrightarrow>
    acc_val (carry_up acc c) = acc_val acc + unat c \<and> acc_ok (carry_up acc c)"
proof (induction acc c rule: carry_up.induct)
  case (1 a acc c)
  show ?case
  proof (cases "c = 0")
    case True
    with 1 show ?thesis by simp
  next
    case False
    define t where "t = a + c"
    have t: "unat t = unat a + unat c" using 1 by (simp add: t_def word_nat)
    then have "unat t < limb_base * limb_base" using 1 by simp
    note s = split_base64 [OF this]
    have "acc_val (carry_up acc (t div 1000000000)) = acc_val acc + unat (t div 1000000000)
        \<and> acc_ok (carry_up acc (t div 1000000000))"
      using 1 False s by (simp add: t_def [symmetric])
    moreover have "carry_up (a # acc) c = t mod 1000000000 # carry_up acc (t div 1000000000)"
      using False by (simp add: t_def Let_def)
    ultimately show ?thesis using s t by (simp add: algebra_simps)
  qed
next
  case (2 c)
  show ?case
  proof (cases "c = 0")
    case True
    then show ?thesis by simp
  next
    case False
    have "unat c < limb_base * limb_base" using 2 by simp
    note s = split_base64 [OF this]
    with 2 False show ?thesis by simp
  qed
qed

lemma length_carry_up: "length acc \<le> length (carry_up acc c)"
  by (induction acc c rule: carry_up.induct) (auto simp: Let_def)

lemma mul_row_spec:
  "unat x < limb_base \<Longrightarrow> limbs_ok ys \<Longrightarrow> acc_ok acc \<Longrightarrow> length ys \<le> length acc \<Longrightarrow> unat c < limb_base \<Longrightarrow>
    acc_val (mul_row x ys acc c) = unat x * limbs_val ys + acc_val acc + unat c
      \<and> acc_ok (mul_row x ys acc c)"
proof (induction x ys acc c rule: mul_row.induct)
  case (1 x acc c)
  then show ?case using carry_up_spec [of acc c] by simp
next
  case (2 x y ys a acc c)
  define t where "t = ucast x * ucast y + a + c"
  have t: "unat t = unat x * unat y + unat a + unat c" "unat t < limb_base * limb_base"
    using 2 word_product [of x y a c] by (simp_all add: t_def)
  note s = split_base64 [OF t(2)]
  have eq: "mul_row x (y # ys) (a # acc) c = t mod 1000000000 # mul_row x ys acc (t div 1000000000)"
    by (simp add: t_def Let_def)
  have "acc_val (mul_row x ys acc (t div 1000000000))
      = unat x * limbs_val ys + acc_val acc + unat (t div 1000000000)
      \<and> acc_ok (mul_row x ys acc (t div 1000000000))"
    using 2 s by (simp add: t_def [symmetric])
  then show ?case unfolding eq using s t(1) by (simp add: algebra_simps)
next
  case (3 x y ys c)
  then show ?case by simp
qed

lemma length_mul_row: "length ys \<le> length acc \<Longrightarrow> length acc \<le> length (mul_row x ys acc c)"
  using length_carry_up by (induction x ys acc c rule: mul_row.induct) (auto simp: Let_def)

lemma mul_rows_spec:
  "limbs_ok xs \<Longrightarrow> limbs_ok ys \<Longrightarrow> acc_ok acc \<Longrightarrow> length xs + length ys \<le> length acc \<Longrightarrow>
    acc_val (mul_rows xs ys acc) = limbs_val xs * limbs_val ys + acc_val acc
      \<and> acc_ok (mul_rows xs ys acc)"
proof (induction xs ys acc rule: mul_rows.induct)
  case (1 ys acc)
  then show ?case by simp
next
  case (2 x xs ys acc)
  have len: "length acc \<le> length (mul_row x ys acc 0)"
    using 2 by (intro length_mul_row) simp
  have row: "acc_val (mul_row x ys acc 0) = unat x * limbs_val ys + acc_val acc"
    "acc_ok (mul_row x ys acc 0)"
    using mul_row_spec [of x ys acc 0] 2 by auto
  obtain a acc' where r: "mul_row x ys acc 0 = a # acc'"
    using len 2(5) by (cases "mul_row x ys acc 0") auto
  have "acc_val (mul_rows xs ys acc') = limbs_val xs * limbs_val ys + acc_val acc'
      \<and> acc_ok (mul_rows xs ys acc')"
    using 2(1) [OF r] 2(2-5) row len by (simp add: r)
  then show ?case using row by (simp add: r algebra_simps)
qed

lemma acc_to_limbs:
  "acc_ok acc \<Longrightarrow> limbs_val (map ucast acc) = acc_val acc \<and> limbs_ok (map ucast acc)"
  by (induction acc) (simp_all add: word_nat)

lemma mul_ok_val:
  assumes a: "bi_ok a" and b: "bi_ok b"
  shows "bi_ok (mul a b) \<and> bi_val (mul a b) = bi_val a * bi_val b"
proof (cases "sign a = 0 \<or> sign b = 0")
  case True
  then show ?thesis using a b by (auto simp: mul_def)
next
  case False
  let ?acc = "mul_rows (limbs a) (limbs b) (replicate (length (limbs a) + length (limbs b)) 0)"
  have "acc_val ?acc = limbs_val (limbs a) * limbs_val (limbs b)" "acc_ok ?acc"
    using mul_rows_spec [of "limbs a" "limbs b" "replicate (length (limbs a) + length (limbs b)) 0"] a b
    by auto
  then have v: "limbs_val (map ucast ?acc) = limbs_val (limbs a) * limbs_val (limbs b)"
    and ok: "limbs_ok (map ucast ?acc)"
    using acc_to_limbs [of ?acc] by auto
  have m: "mul a b = mk_bigint (sign a * sign b) (map ucast ?acc)"
    using False by (simp add: mul_def)
  have s: "sign a = 1 \<or> sign a = -1" "sign b = 1 \<or> sign b = -1"
    using a b False using bi_ok_sign_cases [of a] bi_ok_sign_cases [of b] by blast+
  have "bi_val (mul a b) = bi_val a * bi_val b"
    using s by (auto simp: m bi_val_mk v bi_val_def [of a] bi_val_def [of b])
  then show ?thesis using ok by (simp add: m)
qed

lemma mul_ok [ok_intros, simp]: "bi_ok a \<Longrightarrow> bi_ok b \<Longrightarrow> bi_ok (mul a b)"
  and mul_val [simp]: "bi_ok a \<Longrightarrow> bi_ok b \<Longrightarrow> bi_val (mul a b) = bi_val a * bi_val b"
  using mul_ok_val by auto

section \<open>Division\<close>

lemma limbs_bi_zero: "limbs bi_zero = []" "sign bi_zero = 0"
  by (simp_all add: bi_zero_def)

fun div_small_loop :: "u32 list \<Rightarrow> u32 \<Rightarrow> u64 \<Rightarrow> u32 list \<times> u64" where
  "div_small_loop [] divisor rem = ([], rem)"
| "div_small_loop (x # xs) divisor rem =
     (let cur = rem * 1000000000 + ucast x;
          (out, rem') = div_small_loop xs divisor (cur mod ucast divisor)
      in (ucast (cur div ucast divisor) # out, rem'))"

text \<open>The loop runs from the most significant limb down, so it is given the limbs in that order.\<close>

definition div_small :: "bigint \<Rightarrow> u32 \<Rightarrow> exact_error + bigint \<times> u32" where
  "div_small a divisor =
     (if divisor = 0 then Inl Division_By_Zero
      else if sign a = 0 then Inr (bi_zero, 0)
      else let (out, rem) = div_small_loop (rev (limbs a)) divisor 0
           in Inr (mk_bigint (sign a) (rev out), ucast rem))"

text \<open>
  The binary search for one quotient limb. Its bounds are 32-bit in the code; \<open>mid\<close> lies between
  them and the two \<open>break\<close>s keep \<open>mid + 1\<close> and \<open>mid - 1\<close> within \<open>0 \<dots> limb_base - 1\<close>, so naturals
  compute the same values.
\<close>

function quotient_search :: "bigint \<Rightarrow> bigint \<Rightarrow> nat \<Rightarrow> nat \<Rightarrow> nat \<Rightarrow> nat" where
  "quotient_search bb rem lo hi best =
     (if lo \<le> hi then
        let mid = lo + (hi - lo) div 2;
            candidate = mul_small bb (of_nat mid)
        in if cmp_abs candidate rem \<le> 0 then
             (if mid = limb_base - 1 then mid else quotient_search bb rem (mid + 1) hi mid)
           else
             (if mid = 0 then best else quotient_search bb rem lo (mid - 1) best)
      else best)"
  by pat_completeness auto
termination
  by (relation "measure (\<lambda>(bb, rem, lo, hi, best). hi + 1 - lo)") auto

declare quotient_search.simps [simp del]

fun divmod_loop :: "u32 list \<Rightarrow> bigint \<Rightarrow> bigint \<Rightarrow> u32 list \<times> bigint" where
  "divmod_loop [] bb rem = ([], rem)"
| "divmod_loop (x # xs) bb rem =
     (let rem1 = normalize \<lparr>sign = 1, limbs = x # limbs rem\<rparr>;
          best = quotient_search bb rem1 0 (limb_base - 1) 0;
          rem2 = (if best \<noteq> 0 then sub_abs rem1 (mul_small bb (of_nat best)) else rem1);
          (out, rem3) = divmod_loop xs bb rem2
      in (of_nat best # out, rem3))"

definition divmod :: "bigint \<Rightarrow> bigint \<Rightarrow> exact_error + bigint \<times> bigint" where
  "divmod a b =
     (if sign b = 0 then Inl Division_By_Zero
      else if sign a = 0 then Inr (bi_zero, bi_zero)
      else let aa = absbi a; bb = absbi b in
        if cmp_abs aa bb < 0 then Inr (bi_zero, a)
        else let (out, rem) = divmod_loop (rev (limbs aa)) bb bi_zero;
                 q = mk_bigint 1 (rev out)
             in Inr (q\<lparr>sign := if sign q \<noteq> 0 then sign a * sign b else 0\<rparr>,
                     rem\<lparr>sign := if sign rem \<noteq> 0 then sign a else 0\<rparr>))"

text \<open>Euclid's loop; \<open>None\<close> would mean that it does not return.\<close>

partial_function (option) gcd_loop :: "bigint \<Rightarrow> bigint \<Rightarrow> bigint option" where
  "gcd_loop a b =
     (if sign b = 0 then Some a
      else case divmod a b of
             Inl e \<Rightarrow> None
           | Inr qr \<Rightarrow> gcd_loop b (snd qr))"

definition gcd_bi :: "bigint \<Rightarrow> bigint \<Rightarrow> bigint option" where
  "gcd_bi a b = gcd_loop (absbi a) (absbi b)"

lemma div_small_loop_spec:
  assumes "unat d \<noteq> 0"
  shows "limbs_ok xs \<Longrightarrow> unat r < unat d \<Longrightarrow> div_small_loop xs d r = (out, r') \<Longrightarrow>
    unat r * limb_base ^ length xs + limbs_val (rev xs) = limbs_val (rev out) * unat d + unat r'
      \<and> unat r' < unat d \<and> limbs_ok out \<and> length out = length xs"
proof (induction xs arbitrary: r out r')
  case Nil
  then show ?case by simp
next
  case (Cons x xs)
  define cur where "cur = r * 1000000000 + ucast x"
  have d: "unat d < 4294967296" by (rule unat_u32_lt)
  have "unat r * limb_base + unat x < 4294967296 * limb_base"
  proof -
    have "(unat r + 1) * limb_base \<le> 4294967296 * limb_base"
      using Cons.prems(2) d by (intro mult_le_mono1) linarith
    then show ?thesis using Cons.prems(1) by simp
  qed
  then have cur: "unat cur = unat r * limb_base + unat x"
    using Cons.prems(1) by (simp add: cur_def word_nat)
  have "unat cur < unat d * limb_base"
  proof -
    have "(unat r + 1) * limb_base \<le> unat d * limb_base"
      using Cons.prems(2) by (intro mult_le_mono1) linarith
    then show ?thesis unfolding cur using Cons.prems(1) by simp
  qed
  then have q: "unat cur div unat d < limb_base"
    using assms by (simp add: less_mult_imp_div_less mult.commute)
  have qw: "unat (ucast (cur div ucast d) :: u32) = unat cur div unat d"
    using q by (simp add: unat_div_distrib word_nat)
  have rw: "unat (cur mod ucast d) = unat cur mod unat d"
    by (simp add: unat_mod_distrib)
  obtain out1 r1 where rec: "div_small_loop xs d (cur mod ucast d) = (out1, r1)"
    by (cases "div_small_loop xs d (cur mod ucast d)")
  have IH: "unat (cur mod ucast d) * limb_base ^ length xs + limbs_val (rev xs)
      = limbs_val (rev out1) * unat d + unat r1 \<and> unat r1 < unat d \<and> limbs_ok out1 \<and> length out1 = length xs"
    using Cons.IH [OF _ _ rec] Cons.prems(1) rw assms by simp
  have res: "out = ucast (cur div ucast d) # out1" "r' = r1"
    using Cons.prems(3) rec by (simp_all add: cur_def Let_def)
  define p where "p = limb_base ^ length xs"
  define q0 where "q0 = unat cur div unat d"
  define m0 where "m0 = unat cur mod unat d"
  have split: "unat r * limb_base + unat x = q0 * unat d + m0"
    by (simp add: cur [symmetric] q0_def m0_def)
  have "unat r * limb_base ^ length (x # xs) + limbs_val (rev (x # xs))
      = (unat r * limb_base + unat x) * p + limbs_val (rev xs)"
    by (simp add: limbs_val_append p_def algebra_simps)
  also have "\<dots> = q0 * unat d * p + (m0 * p + limbs_val (rev xs))"
    unfolding split by (simp add: algebra_simps)
  also have "m0 * p + limbs_val (rev xs) = limbs_val (rev out1) * unat d + unat r1"
    using IH rw by (simp add: p_def m0_def)
  finally show ?case
    using IH q qw by (simp add: res limbs_val_append p_def q0_def algebra_simps)
qed

lemma div_small_spec:
  assumes "bi_ok a" and "unat d \<noteq> 0"
  obtains q r where "div_small a d = Inr (q, r)" and "bi_ok q"
    and "limbs_val (limbs q) = limbs_val (limbs a) div unat d"
    and "unat r = limbs_val (limbs a) mod unat d"
    and "sign q = (if limbs_val (limbs q) = 0 then 0 else sign a)"
proof (cases "sign a = 0")
  case True
  then have "limbs a = []" using assms(1) by (auto simp only: bi_ok_def split: if_splits)
  moreover have "d \<noteq> 0" using assms(2) by auto
  ultimately show ?thesis
    using True by (intro that [of bi_zero 0]) (simp_all add: div_small_def limbs_bi_zero del: bi_ok_sign_0)
next
  case False
  obtain out r' where l: "div_small_loop (rev (limbs a)) d 0 = (out, r')"
    by (cases "div_small_loop (rev (limbs a)) d 0")
  have s: "limbs_val (limbs a) = limbs_val (rev out) * unat d + unat r'" "unat r' < unat d" "limbs_ok out"
    using div_small_loop_spec [OF assms(2) _ _ l] assms by auto
  have "unat r' < 4294967296" using s(2) unat_u32_lt [of d] by linarith
  moreover have "limbs_val (limbs a) div unat d = limbs_val (rev out)"
    "limbs_val (limbs a) mod unat d = unat r'"
    using s(1,2) assms(2) by simp_all
  moreover have "sign a = 1 \<or> sign a = -1" by (rule bi_ok_sign_cases [OF assms(1) False])
  ultimately show ?thesis
    using False assms(2) s(3)
    by (intro that [of "mk_bigint (sign a) (rev out)" "ucast r'"]) (auto simp: div_small_def l word_nat sign_mk)
qed

lemma mul_small_limbs:
  assumes "bi_ok bb" and "m < limb_base"
  shows "bi_ok (mul_small bb (of_nat m))"
    and "limbs_val (limbs (mul_small bb (of_nat m))) = m * limbs_val (limbs bb)"
proof -
  have u: "unat (of_nat m :: u32) = m" using assms(2) by (simp add: word_nat)
  then have v: "bi_ok (mul_small bb (of_nat m)) \<and> bi_val (mul_small bb (of_nat m)) = bi_val bb * int m"
    using mul_small_ok_val [of bb "of_nat m"] assms by simp
  then show "bi_ok (mul_small bb (of_nat m))" by simp
  have "int (limbs_val (limbs (mul_small bb (of_nat m)))) = int (m * limbs_val (limbs bb))"
    using v bi_ok_abs [of "mul_small bb (of_nat m)"] bi_ok_abs [of bb] assms
    by (simp add: abs_mult)
  then show "limbs_val (limbs (mul_small bb (of_nat m))) = m * limbs_val (limbs bb)"
    by (simp only: of_nat_eq_iff)
qed

lemma quotient_search_spec:
  assumes bb: "bi_ok bb" and rem: "bi_ok rem"
  shows "best * limbs_val (limbs bb) \<le> limbs_val (limbs rem) \<Longrightarrow>
    limbs_val (limbs rem) < (hi + 1) * limbs_val (limbs bb) \<Longrightarrow>
    lo = best + 1 \<or> lo = 0 \<and> best = 0 \<Longrightarrow> hi < limb_base \<Longrightarrow> best < limb_base \<Longrightarrow>
    quotient_search bb rem lo hi best * limbs_val (limbs bb) \<le> limbs_val (limbs rem)
      \<and> limbs_val (limbs rem) < (quotient_search bb rem lo hi best + 1) * limbs_val (limbs bb)
      \<and> quotient_search bb rem lo hi best < limb_base"
  using assms
proof (induction bb rem lo hi best rule: quotient_search.induct)
  case (1 bb rem lo hi best)
  define V where "V = limbs_val (limbs bb)"
  define R where "R = limbs_val (limbs rem)"
  define mid where "mid = lo + (hi - lo) div 2"
  note p = "1.prems" [folded V_def R_def]
  show ?case
  proof (cases "lo \<le> hi")
    case False
    with p have "lo = best + 1" and "hi \<le> best" by auto
    then have "(hi + 1) * V \<le> (best + 1) * V" by (intro mult_le_mono1) simp
    then have "R < (best + 1) * V" using p(2) by linarith
    moreover have "quotient_search bb rem lo hi best = best"
      using False by (subst quotient_search.simps) simp
    ultimately show ?thesis
      using p unfolding V_def [symmetric] R_def [symmetric] by simp
  next
    case True
    have mid: "mid \<le> hi" "lo \<le> mid" "mid < limb_base" using True p by (auto simp: mid_def)
    have cand: "bi_ok (mul_small bb (of_nat mid))"
      and mV: "limbs_val (limbs (mul_small bb (of_nat mid))) = mid * V"
      using mul_small_limbs [of bb mid] p mid by (simp_all add: V_def)
    have c: "cmp_abs (mul_small bb (of_nat mid)) rem \<le> 0 \<longleftrightarrow> mid * V \<le> R"
      using cand p by (simp add: cmp_abs_val mV R_def [symmetric] sgn_if del: of_nat_mult)
    show ?thesis
    proof (cases "mid * V \<le> R")
      case le: True
      show ?thesis
      proof (cases "mid = limb_base - 1")
        case True
        with mid p have "hi = mid" by auto
        have "quotient_search bb rem lo hi best = mid"
          using \<open>lo \<le> hi\<close> le c True
          by (subst quotient_search.simps) (simp add: Let_def mid_def [symmetric])
        then show ?thesis
          using le p mid \<open>hi = mid\<close> by (simp add: V_def [symmetric] R_def [symmetric])
      next
        case False
        have "quotient_search bb rem lo hi best = quotient_search bb rem (mid + 1) hi mid"
          using \<open>lo \<le> hi\<close> le c False
          by (subst quotient_search.simps) (simp add: Let_def mid_def [symmetric])
        moreover have "quotient_search bb rem (mid + 1) hi mid * V \<le> R
            \<and> R < (quotient_search bb rem (mid + 1) hi mid + 1) * V
            \<and> quotient_search bb rem (mid + 1) hi mid < limb_base"
          using "1.IH"(1) [OF \<open>lo \<le> hi\<close> mid_def refl] le c False p mid
          by (simp add: V_def [symmetric] R_def [symmetric])
        ultimately show ?thesis by (simp add: V_def [symmetric] R_def [symmetric])
      qed
    next
      case gt: False
      then have "mid \<noteq> 0" by (cases "mid = 0") simp_all
      have "quotient_search bb rem lo hi best = quotient_search bb rem lo (mid - 1) best"
        using \<open>lo \<le> hi\<close> gt c \<open>mid \<noteq> 0\<close>
        by (subst quotient_search.simps) (simp add: Let_def mid_def [symmetric])
      moreover have "quotient_search bb rem lo (mid - 1) best * V \<le> R
          \<and> R < (quotient_search bb rem lo (mid - 1) best + 1) * V
          \<and> quotient_search bb rem lo (mid - 1) best < limb_base"
        using "1.IH"(2) [OF \<open>lo \<le> hi\<close> mid_def refl] gt c \<open>mid \<noteq> 0\<close> p mid
        by (simp add: V_def [symmetric] R_def [symmetric])
      ultimately show ?thesis by (simp add: V_def [symmetric] R_def [symmetric])
    qed
  qed
qed

lemma divmod_loop_length: "divmod_loop xs bb rem = (out, rem') \<Longrightarrow> length out = length xs"
proof (induction xs arbitrary: rem out)
  case (Cons x xs)
  then show ?case
    by (auto simp: Let_def split: prod.splits)
qed simp

lemma divmod_loop_spec:
  assumes bb: "bi_ok bb" and V: "V = limbs_val (limbs bb)"
  shows "limbs_ok xs \<Longrightarrow> bi_ok rem \<Longrightarrow> limbs_val (limbs rem) < V \<Longrightarrow> divmod_loop xs bb rem = (out, rem') \<Longrightarrow>
    limbs_val (limbs rem) * limb_base ^ length xs + limbs_val (rev xs)
        = limbs_val (rev out) * V + limbs_val (limbs rem')
      \<and> limbs_val (limbs rem') < V \<and> bi_ok rem' \<and> limbs_ok out"
proof (induction xs arbitrary: rem out rem')
  case Nil
  then show ?case by simp
next
  case (Cons x xs)
  define rem1 where "rem1 = mk_bigint 1 (x # limbs rem)"
  define best where "best = quotient_search bb rem1 0 (limb_base - 1) 0"
  define rem2 where "rem2 = (if best \<noteq> 0 then sub_abs rem1 (mul_small bb (of_nat best)) else rem1)"
  have lr: "limbs_ok (limbs rem)" using Cons.prems(2) by (simp add: bi_ok_def)
  have rem1: "bi_ok rem1" "limbs_val (limbs rem1) = unat x + limb_base * limbs_val (limbs rem)"
    using Cons.prems(1) lr by (simp_all add: rem1_def limbs_val_mk)
  have "(limbs_val (limbs rem) + 1) * limb_base \<le> V * limb_base"
    using Cons.prems(3) by (intro mult_le_mono1) linarith
  then have lt: "limbs_val (limbs rem1) < (limb_base - 1 + 1) * V"
    unfolding rem1(2) using Cons.prems(1) by simp
  have best: "best * V \<le> limbs_val (limbs rem1)" "limbs_val (limbs rem1) < (best + 1) * V" "best < limb_base"
    using quotient_search_spec [OF bb rem1(1), of 0 "limb_base - 1" 0] lt by (simp_all add: best_def V)
  have u: "unat (of_nat best :: u32) = best" using best(3) by (simp add: word_nat)
  have ms: "bi_ok (mul_small bb (of_nat best))" "limbs_val (limbs (mul_small bb (of_nat best))) = best * V"
    using mul_small_limbs [OF bb best(3)] by (simp_all add: V)
  have lo: "limbs_ok (limbs rem1)" "limbs_ok (limbs (mul_small bb (of_nat best)))"
    using rem1(1) ms(1) by (simp_all add: bi_ok_def)
  have rem2: "bi_ok rem2 \<and> limbs_val (limbs rem2) = limbs_val (limbs rem1) - best * V"
  proof (cases "best = 0")
    case True
    then show ?thesis using rem1(1) by (simp add: rem2_def)
  next
    case False
    then show ?thesis
      using sub_abs_val [OF lo] best(1) ms(2) by (simp add: rem2_def del: bi_ok_sign_0)
  qed
  obtain out1 rem3 where rec: "divmod_loop xs bb rem2 = (out1, rem3)"
    by (cases "divmod_loop xs bb rem2")
  have "divmod_loop (x # xs) bb rem
      = (let (out, r) = divmod_loop xs bb rem2 in (of_nat best # out, r))"
    by (simp only: divmod_loop.simps rem1_def best_def rem2_def mk_bigint_def Let_def)
  then have res: "out = of_nat best # out1" "rem' = rem3"
    using Cons.prems(4) rec by simp_all
  have "limbs_val (limbs rem2) < V" using rem2 best by simp
  then have IH: "limbs_val (limbs rem2) * limb_base ^ length xs + limbs_val (rev xs)
      = limbs_val (rev out1) * V + limbs_val (limbs rem3)
      \<and> limbs_val (limbs rem3) < V \<and> bi_ok rem3 \<and> limbs_ok out1"
    using Cons.IH [OF _ conjunct1 [OF rem2] _ rec] Cons.prems(1) by simp
  define p where "p = limb_base ^ length xs"
  have len: "length out1 = length xs" using divmod_loop_length [OF rec] by simp
  have "limbs_val (limbs rem) * limb_base ^ length (x # xs) + limbs_val (rev (x # xs))
      = limbs_val (limbs rem1) * p + limbs_val (rev xs)"
    by (simp add: rem1(2) limbs_val_append p_def algebra_simps)
  also have "limbs_val (limbs rem1) = best * V + limbs_val (limbs rem2)"
    using rem2 best by simp
  also have "(best * V + limbs_val (limbs rem2)) * p + limbs_val (rev xs)
      = best * p * V + (limbs_val (limbs rem2) * p + limbs_val (rev xs))"
    by (simp add: algebra_simps)
  also have "limbs_val (limbs rem2) * p + limbs_val (rev xs) = limbs_val (rev out1) * V + limbs_val (limbs rem3)"
    using IH by (simp add: p_def)
  finally show ?case
    using IH best(3) u by (simp add: res limbs_val_append len p_def algebra_simps)
qed

lemma signed_value:
  assumes "bi_ok x" and "s = 1 \<or> s = -1"
  shows "bi_ok (x\<lparr>sign := if sign x \<noteq> 0 then s else 0\<rparr>)"
    and "bi_val (x\<lparr>sign := if sign x \<noteq> 0 then s else 0\<rparr>) = s * int (limbs_val (limbs x))"
  using assms by (auto simp: bi_ok_def bi_val_def simp del: bi_ok_sign_0 split: if_splits)

lemma smod_int_alt: "sgn a * (\<bar>a\<bar> mod \<bar>b\<bar>) = a smod b" for a b :: int
  by (simp only: signed_modulo_int_def)

lemma divmod_ok_val:
  assumes a: "bi_ok a" and b: "bi_ok b" and nz: "sign b \<noteq> 0"
  obtains q r where "divmod a b = Inr (q, r)" and "bi_ok q" and "bi_ok r"
    and "bi_val q = bi_val a sdiv bi_val b" and "bi_val r = bi_val a smod bi_val b"
proof -
  have b0: "bi_val b \<noteq> 0" using nz bi_ok_sign [OF b] by auto
  define A where "A = limbs_val (limbs a)"
  define B where "B = limbs_val (limbs b)"
  have AB: "int A = \<bar>bi_val a\<bar>" "int B = \<bar>bi_val b\<bar>"
    using bi_ok_abs a b by (simp_all add: A_def B_def)
  have B0: "0 < B" using AB(2) b0 by linarith
  have cv: "cmp_abs (absbi a) (absbi b) = sgn (int A - int B)"
    using a b by (simp add: cmp_abs_val A_def B_def)
  consider "sign a = 0" | "sign a \<noteq> 0" "A < B" | "sign a \<noteq> 0" "B \<le> A" by linarith
  then show ?thesis
  proof cases
    case 1
    then have "bi_val a = 0" using bi_ok_sign [OF a] by (simp add: sgn_0_0)
    then show ?thesis
      using 1 nz by (intro that [of bi_zero bi_zero]) (simp_all add: divmod_def signed_divide_int_def signed_modulo_int_def)
  next
    case 2
    then have "\<bar>bi_val a\<bar> div \<bar>bi_val b\<bar> = 0" and m: "\<bar>bi_val a\<bar> mod \<bar>bi_val b\<bar> = \<bar>bi_val a\<bar>"
      using AB by simp_all
    then have "bi_val a sdiv bi_val b = 0" by (simp add: signed_divide_int_def)
    moreover have "bi_val a smod bi_val b = bi_val a"
      using smod_int_alt [of "bi_val a" "bi_val b", unfolded m] by (simp only: sgn_mult_abs)
    moreover have "divmod a b = Inr (bi_zero, a)"
      using 2 nz cv by (simp add: divmod_def Let_def sgn_if del: bi_ok_sign_0)
    ultimately show ?thesis using a by (intro that [of bi_zero a]) simp_all
  next
    case 3
    obtain out rem where l: "divmod_loop (rev (limbs a)) (absbi b) bi_zero = (out, rem)"
      by (cases "divmod_loop (rev (limbs a)) (absbi b) bi_zero")
    have la: "limbs_ok (rev (limbs a))" using a by (simp add: bi_ok_def)
    have L: "A = limbs_val (rev out) * B + limbs_val (limbs rem)" "limbs_val (limbs rem) < B"
      "bi_ok rem" "limbs_ok out"
      using divmod_loop_spec [OF absbi_ok [OF b] refl la bi_ok_zero _ l] B0
      by (simp_all add: limbs_bi_zero A_def B_def)
    define q where "q = mk_bigint 1 (rev out)"
    define s where "s = sign a * sign b"
    have q: "bi_ok q" "limbs_val (limbs q) = limbs_val (rev out)"
      using L(4) by (simp_all add: q_def)
    have sg: "sign a = sgn (bi_val a)" "sign b = sgn (bi_val b)"
      using bi_ok_sign a b by simp_all
    have s: "s = 1 \<or> s = -1" "sign a = 1 \<or> sign a = -1"
      using bi_ok_sign_cases [OF a 3(1)] bi_ok_sign_cases [OF b nz] by (auto simp: s_def)
    have Q: "int (limbs_val (limbs q)) = \<bar>bi_val a\<bar> div \<bar>bi_val b\<bar>"
      and R: "int (limbs_val (limbs rem)) = \<bar>bi_val a\<bar> mod \<bar>bi_val b\<bar>"
    proof -
      have "A div B = limbs_val (rev out)" "A mod B = limbs_val (limbs rem)"
        using L(1,2) B0 by simp_all
      then show "int (limbs_val (limbs q)) = \<bar>bi_val a\<bar> div \<bar>bi_val b\<bar>"
        "int (limbs_val (limbs rem)) = \<bar>bi_val a\<bar> mod \<bar>bi_val b\<bar>"
        unfolding AB [symmetric] q(2) by (simp_all only: zdiv_int [symmetric] zmod_int [symmetric])
    qed
    let ?q = "q\<lparr>sign := if sign q \<noteq> 0 then s else 0\<rparr>"
    let ?r = "rem\<lparr>sign := if sign rem \<noteq> 0 then sign a else 0\<rparr>"
    have "divmod a b = Inr (?q, ?r)"
      using 3 nz cv l by (simp add: divmod_def Let_def sgn_if q_def s_def)
    moreover note signed_value [OF q(1) s(1)] signed_value [OF L(3) s(2)]
    moreover have "s * (\<bar>bi_val a\<bar> div \<bar>bi_val b\<bar>) = bi_val a sdiv bi_val b"
      by (simp add: signed_divide_int_def s_def sg sgn_mult)
    moreover have "sign a * (\<bar>bi_val a\<bar> mod \<bar>bi_val b\<bar>) = bi_val a smod bi_val b"
      unfolding sg by (rule smod_int_alt)
    ultimately show ?thesis using that [of ?q ?r] Q R by simp
  qed
qed

section \<open>Greatest common divisor and powers\<close>

lemma gcd_loop_spec:
  assumes "bi_ok a" and "bi_ok b" and "0 \<le> bi_val a" and "0 \<le> bi_val b"
  shows "\<exists>g. gcd_loop a b = Some g \<and> bi_ok g \<and> bi_val g = gcd (bi_val a) (bi_val b)"
  using assms
proof (induction "nat (bi_val b)" arbitrary: a b rule: less_induct)
  case less
  show ?case
  proof (cases "sign b = 0")
    case True
    then have "bi_val b = 0" using bi_ok_sign [OF less.prems(2)] by (simp add: sgn_0_0)
    then show ?thesis using True less.prems by (subst gcd_loop.simps) simp
  next
    case False
    then have pos: "0 < bi_val b" using bi_ok_sign [OF less.prems(2)] less.prems(4) by (cases "bi_val b = 0") simp_all
    obtain q r where d: "divmod a b = Inr (q, r)" "bi_ok r" "bi_val r = bi_val a smod bi_val b"
      using divmod_ok_val [OF less.prems(1,2) False] by metis
    have r: "bi_val r = bi_val a mod bi_val b"
      using d(3) smod_int_alt [of "bi_val a" "bi_val b"] pos less.prems(3)
      by (cases "bi_val a = 0") simp_all
    have "\<exists>g. gcd_loop b r = Some g \<and> bi_ok g \<and> bi_val g = gcd (bi_val b) (bi_val r)"
      using less.prems d(2) pos r by (intro less.hyps) simp_all
    moreover have "gcd (bi_val a) (bi_val b) = gcd (bi_val b) (bi_val r)"
      by (simp only: r gcd_red_int [of "bi_val a"])
    moreover have "gcd_loop a b = gcd_loop b r"
      using False d(1) by (subst gcd_loop.simps) (simp del: bi_ok_sign_0)
    ultimately show ?thesis by simp
  qed
qed

lemma gcd_bi_spec:
  assumes "bi_ok a" and "bi_ok b"
  obtains g where "gcd_bi a b = Some g" and "bi_ok g" and "bi_val g = gcd (bi_val a) (bi_val b)"
  using gcd_loop_spec [of "absbi a" "absbi b"] assms by (auto simp: gcd_bi_def)

lemma power_halves: "x ^ n = x ^ (n mod 2) * x ^ (2 * (n div 2))" for x :: int
  by (simp only: power_add [symmetric]) simp

lemma unat_half: "unat (drop_bit (Suc 0) n) = unat n div 2" for n :: "'a::len word"
  unfolding unat_drop_bit_eq by (simp add: drop_bit_Suc)
lemma unat_odd_bit: "n AND 1 = 0 \<longleftrightarrow> unat n mod 2 = 0" for n :: "'a::len word"
proof -
  have "n AND 1 = 0 \<longleftrightarrow> unat (n AND 1) = 0" by (simp add: unat_eq_0)
  also have "unat (n AND 1) = unat n AND 1" by (simp only: unsigned_and_eq unsigned_1)
  also have "\<dots> = unat n mod 2" by (simp only: and_one_eq)
  finally show ?thesis .
qed

text \<open>\<open>pow_small\<close> takes a 32-bit exponent and \<open>pow10\<close> a 64-bit one; their loops are the same.\<close>

function pow_loop :: "bigint \<Rightarrow> bigint \<Rightarrow> 'a::len word \<Rightarrow> bigint" where
  "pow_loop out base n =
     (if n = 0 then out
      else let out' = (if n AND 1 \<noteq> 0 then mul out base else out);
               n' = drop_bit 1 n
           in pow_loop out' (if n' \<noteq> 0 then mul base base else base) n')"
  by pat_completeness auto
termination
  by (relation "measure (\<lambda>(out, base, n). unat n)") (auto simp: unat_half unat_gt_0 unat_eq_0 intro: div_less_dividend)

declare pow_loop.simps [simp del]

definition pow_small :: "bigint \<Rightarrow> u32 \<Rightarrow> bigint" where
  "pow_small base exponent = pow_loop (from_u64 1) base exponent"

definition pow10 :: "u64 \<Rightarrow> bigint" where
  "pow10 n = pow_loop (from_u64 1) (from_u64 10) n"

lemma pow_loop_spec:
  "bi_ok out \<Longrightarrow> bi_ok base \<Longrightarrow>
    bi_ok (pow_loop out base n) \<and> bi_val (pow_loop out base n) = bi_val out * bi_val base ^ unat n"
proof (induction out base n rule: pow_loop.induct)
  case (1 out base n)
  show ?case
  proof (cases "n = 0")
    case True
    then show ?thesis using 1 by (subst (1 2) pow_loop.simps) simp
  next
    case False
    define out' where "out' = (if n AND 1 \<noteq> 0 then mul out base else out)"
    define n' where "n' = drop_bit 1 n"
    define base' where "base' = (if n' \<noteq> 0 then mul base base else base)"
    have eq: "pow_loop out base n = pow_loop out' base' n'"
      using False by (subst pow_loop.simps) (simp add: out'_def n'_def base'_def Let_def)
    have ok: "bi_ok out'" "bi_ok base'" using 1 by (simp_all add: out'_def base'_def)
    have IH: "bi_ok (pow_loop out' base' n') \<and> bi_val (pow_loop out' base' n') = bi_val out' * bi_val base' ^ unat n'"
      using 1(1) [OF False out'_def n'_def] ok by (simp add: base'_def)
    have half: "unat n' = unat n div 2" by (simp add: n'_def unat_half)
    have "bi_val base' ^ unat n' = bi_val base ^ (2 * (unat n div 2))"
    proof (cases "n' = 0")
      case True
      then show ?thesis using half by simp
    next
      case n: False
      then show ?thesis using 1 half by (simp add: base'_def power_mult power2_eq_square)
    qed
    moreover have "bi_val out' = bi_val out * bi_val base ^ (unat n mod 2)"
      using 1 by (auto simp: out'_def unat_odd_bit)
    ultimately have "bi_val out' * bi_val base' ^ unat n' = bi_val out * bi_val base ^ unat n"
      by (simp add: power_halves [of _ "unat n"])
    then show ?thesis using IH unfolding eq by simp
  qed
qed

lemma pow_small_ok [ok_intros, simp]: "bi_ok b \<Longrightarrow> bi_ok (pow_small b n)"
  and pow_small_val [simp]: "bi_ok b \<Longrightarrow> bi_val (pow_small b n) = bi_val b ^ unat n"
  using pow_loop_spec [of "from_u64 1" b n] by (simp_all add: pow_small_def)

lemma pow10_ok [ok_intros, simp]: "bi_ok (pow10 n)"
  and pow10_val [simp]: "bi_val (pow10 n) = 10 ^ unat n"
  using pow_loop_spec [of "from_u64 1" "from_u64 10" n] by (simp_all add: pow10_def)

text \<open>
  The loop of \<open>quidra_bigint_pow\<close> and \<open>quidra_int_pow\<close>: the exponent is itself a big integer, halved
  by \<open>div_small\<close>. \<open>None\<close> would mean that the loop does not return.
\<close>

partial_function (option) bigint_pow_loop :: "bigint \<Rightarrow> bigint \<Rightarrow> bigint \<Rightarrow> bigint option" where
  "bigint_pow_loop result base exponent =
     (if sign exponent = 0 then Some result
      else case div_small exponent 2 of
             Inl e \<Rightarrow> None
           | Inr qr \<Rightarrow>
               bigint_pow_loop (if snd qr AND 1 \<noteq> 0 then mul result base else result)
                 (if sign (fst qr) \<noteq> 0 then mul base base else base) (fst qr))"

lemma bigint_pow_loop_spec:
  assumes "bi_ok result" and "bi_ok base" and "bi_ok exponent" and "0 \<le> bi_val exponent"
  shows "\<exists>r. bigint_pow_loop result base exponent = Some r \<and> bi_ok r
    \<and> bi_val r = bi_val result * bi_val base ^ nat (bi_val exponent)"
  using assms
proof (induction "nat (bi_val exponent)" arbitrary: result base exponent rule: less_induct)
  case less
  show ?case
  proof (cases "sign exponent = 0")
    case True
    then have "bi_val exponent = 0" using bi_ok_sign [OF less.prems(3)] by (simp add: sgn_0_0)
    then show ?thesis using True less.prems by (subst bigint_pow_loop.simps) simp
  next
    case False
    define N where "N = limbs_val (limbs exponent)"
    have N: "bi_val exponent = int N" using bi_ok_abs [OF less.prems(3)] less.prems(4) by (simp add: N_def)
    have N0: "0 < N" using False bi_ok_sign [OF less.prems(3)] N by (cases "N = 0") simp_all
    have sg: "sign exponent = 1" using N N0 bi_ok_sign [OF less.prems(3)] by simp
    obtain q r where d: "div_small exponent 2 = Inr (q, r)" "bi_ok q" "limbs_val (limbs q) = N div 2"
      "unat r = N mod 2" "sign q = (if limbs_val (limbs q) = 0 then 0 else sign exponent)"
      using div_small_spec [OF less.prems(3), of 2] by (auto simp: N_def)
    have q: "bi_val q = int (N div 2)" using d(3,5) sg by (simp add: bi_val_def)
    define result' where "result' = (if r AND 1 \<noteq> 0 then mul result base else result)"
    define base' where "base' = (if sign q \<noteq> 0 then mul base base else base)"
    have ok: "bi_ok result'" "bi_ok base'" using less.prems by (simp_all add: result'_def base'_def)
    have "\<exists>p. bigint_pow_loop result' base' q = Some p \<and> bi_ok p
        \<and> bi_val p = bi_val result' * bi_val base' ^ nat (bi_val q)"
      using N N0 by (intro less.hyps ok d(2)) (simp_all add: q)
    moreover have "bi_val base' ^ (N div 2) = bi_val base ^ (2 * (N div 2))"
      using less.prems q d(2) bi_ok_sign [OF d(2)]
      by (cases "N div 2 = 0") (simp_all add: base'_def power_mult power2_eq_square)
    moreover have "bi_val result' = bi_val result * bi_val base ^ (N mod 2)"
      using less.prems d(4) by (auto simp: result'_def unat_odd_bit)
    moreover have "bigint_pow_loop result base exponent = bigint_pow_loop result' base' q"
      using False d(1) by (subst bigint_pow_loop.simps) (simp add: result'_def base'_def del: bi_ok_sign_0)
    ultimately show ?thesis by (simp add: q N power_halves [of _ N] mult.assoc)
  qed
qed

end
