(* ===== verification/Big_Integer_Text.thy ===== *)
theory Big_Integer_Text
  imports Big_Integer_Mul
begin

text \<open>
  Decimal text of the arbitrary-precision integer (\<open>BigInt::parse\<close>, \<open>BigInt::text\<close>), the conversions
  that go through it, and the entry points of the boxed type (\<open>quidra_bigint_*\<close>) in
  \<open>src/runtime_integer.cpp\<close>. Text is read and written nine digits at a time, one limb each.
\<close>

section \<open>Parsing and printing\<close>

function parse_limbs :: "string \<Rightarrow> u32 list" where
  "parse_limbs ds =
     (if ds = [] then []
      else let start = length ds - 9
           in foldl (\<lambda>limb c. limb * 10 + of_nat (digit_val c)) 0 (drop start ds)
                # parse_limbs (take start ds))"
  by pat_completeness auto
termination
  by (relation "measure length") auto

declare parse_limbs.simps [simp del]

definition bigint_parse :: "string \<Rightarrow> bigint option" where
  "bigint_parse t =
     (if t = [] then None
      else let s = (if hd t = CHR ''-'' then -1 else 1);
               ds = (if hd t = CHR ''+'' \<or> hd t = CHR ''-'' then tl t else t)
           in if ds = [] then None
              else if \<not> (\<forall>c\<in>set ds. is_digit c) then None
              else let ds' = dropWhile (\<lambda>c. c = CHR ''0'') ds
                   in if ds' = [] then Some bi_zero
                      else Some (mk_bigint s (parse_limbs ds')))"

text \<open>\<open>std::setw(LIMB_DIGITS) << std::setfill('0')\<close>: the text of a limb, padded to nine digits.\<close>

definition pad_limb :: "u32 \<Rightarrow> string" where
  "pad_limb l = replicate (9 - length (nat_text (unat l))) (CHR ''0'') @ nat_text (unat l)"

definition bigint_text :: "bigint \<Rightarrow> string" where
  "bigint_text b =
     (if sign b = 0 then ''0''
      else (if sign b < 0 then ''-'' else []) @ nat_text (unat (last (limbs b)))
             @ concat (map pad_limb (tl (rev (limbs b)))))"

lemma digits_val_zeros: "digits_val (replicate n (CHR ''0'') @ ds) = digits_val ds"
proof (induction n)
  case (Suc n)
  have "digit_val (CHR ''0'') = 0" by (simp add: digit_val_def)
  with Suc show ?case by (simp add: digits_val_Cons)
qed simp

lemma foldl_limb:
  "\<forall>c\<in>set ds. is_digit c \<Longrightarrow> unat l * 10 ^ length ds + digits_val ds < 4294967296 \<Longrightarrow>
    unat (foldl (\<lambda>limb c. limb * 10 + of_nat (digit_val c)) (l :: u32) ds)
      = unat l * 10 ^ length ds + digits_val ds"
proof (induction ds arbitrary: l)
  case (Cons c ds)
  let ?l = "l * 10 + of_nat (digit_val c) :: u32"
  have e: "(unat l * 10 + digit_val c) * 10 ^ length ds + digits_val ds
      = unat l * 10 ^ length (c # ds) + digits_val (c # ds)"
    by (simp add: digits_val_Cons algebra_simps)
  have "unat l * 10 + digit_val c \<le> (unat l * 10 + digit_val c) * 10 ^ length ds" by simp
  then have b: "unat l * 10 + digit_val c < 4294967296" using Cons.prems(2) e by linarith
  moreover have "digit_val c < 10" using Cons.prems(1) digit_val_less by simp
  ultimately have u: "unat ?l = unat l * 10 + digit_val c" by (simp add: word_nat)
  show ?case using Cons.IH [of ?l] Cons.prems e by (simp add: u)
qed simp

lemma parse_limbs_spec:
  "\<forall>c\<in>set ds. is_digit c \<Longrightarrow> limbs_val (parse_limbs ds) = digits_val ds \<and> limbs_ok (parse_limbs ds)"
proof (induction ds rule: parse_limbs.induct)
  case (1 ds)
  show ?case
  proof (cases "ds = []")
    case True
    then show ?thesis by (subst (1 2) parse_limbs.simps) simp
  next
    case False
    let ?s = "length ds - 9"
    define l :: u32 where "l = foldl (\<lambda>limb c. limb * 10 + of_nat (digit_val c)) 0 (drop ?s ds)"
    have dig: "\<forall>c\<in>set (drop ?s ds). is_digit c" "\<forall>c\<in>set (take ?s ds). is_digit c"
      using 1(2) by (auto dest: in_set_dropD in_set_takeD)
    have "digits_val (drop ?s ds) < 10 ^ length (drop ?s ds)" by (rule digits_val_less [OF dig(1)])
    also have "\<dots> \<le> 10 ^ 9" by (intro power_increasing) auto
    finally have lt: "digits_val (drop ?s ds) < limb_base" by simp
    then have l: "unat l = digits_val (drop ?s ds)"
      using foldl_limb [OF dig(1), of 0] by (simp add: l_def)
    have pl: "parse_limbs ds = l # parse_limbs (take ?s ds)"
      using False by (subst parse_limbs.simps) (simp add: l_def Let_def)
    have IH: "limbs_val (parse_limbs (take ?s ds)) = digits_val (take ?s ds)" "limbs_ok (parse_limbs (take ?s ds))"
      using 1(1) [OF False refl dig(2)] by auto
    have "digits_val ds = digits_val (take ?s ds) * 10 ^ length (drop ?s ds) + digits_val (drop ?s ds)"
      using digits_val_append [of "take ?s ds" "drop ?s ds"] by simp
    moreover have "take ?s ds = [] \<or> length (drop ?s ds) = 9" by auto
    ultimately have "digits_val ds = limb_base * digits_val (take ?s ds) + digits_val (drop ?s ds)"
      by (elim disjE) (simp_all del: take_eq_Nil take_eq_Nil2 length_drop)
    then show ?thesis using IH l lt by (simp add: pl)
  qed
qed

lemma digits_val_strip: "digits_val (dropWhile (\<lambda>c. c = CHR ''0'') ds) = digits_val ds"
proof (induction ds)
  case (Cons c ds)
  have "digit_val (CHR ''0'') = 0" by (simp add: digit_val_def)
  with Cons show ?case by (simp add: digits_val_Cons)
qed simp

lemma pad_limb_spec:
  assumes "unat l < limb_base"
  shows "length (pad_limb l) = 9" and "digits_val (pad_limb l) = unat l"
    and "\<forall>c\<in>set (pad_limb l). is_digit c"
proof -
  have "length (nat_text (unat l)) \<le> 9" using assms by (intro length_nat_text_le) simp_all
  then show "length (pad_limb l) = 9" by (simp add: pad_limb_def)
  show "digits_val (pad_limb l) = unat l" by (simp add: pad_limb_def digits_val_zeros)
  show "\<forall>c\<in>set (pad_limb l). is_digit c"
    using nat_text_digits by (auto simp: pad_limb_def is_digit_def)
qed

lemma pad_limbs_spec:
  "limbs_ok ls \<Longrightarrow> digits_val (concat (map pad_limb ls)) = limbs_val (rev ls)
    \<and> length (concat (map pad_limb ls)) = 9 * length ls \<and> (\<forall>c\<in>set (concat (map pad_limb ls)). is_digit c)"
proof (induction ls)
  case (Cons l ls)
  have "(10::nat) ^ (9 * length ls) = limb_base ^ length ls" by (simp add: power_mult)
  with Cons pad_limb_spec [of l] show ?case
    by (auto simp: digits_val_append limbs_val_append)
qed simp

text \<open>Two digit texts of one value without leading zeros are the same text.\<close>

lemma digits_lead:
  assumes "ds \<noteq> []" and "\<forall>c\<in>set ds. is_digit c" and "hd ds \<noteq> CHR ''0''"
  shows "10 ^ (length ds - 1) \<le> digits_val ds"
proof (cases ds)
  case (Cons c cs)
  then have "1 \<le> digit_val c" using assms digit_val_eq_0 [of c] by fastforce
  then have "1 * 10 ^ length cs \<le> digit_val c * 10 ^ length cs" by (intro mult_le_mono1)
  then have "10 ^ length cs \<le> digits_val ds" unfolding Cons digits_val_Cons by linarith
  then show ?thesis using Cons by simp
qed (use assms in simp)

lemma digits_eq:
  "length xs = length ys \<Longrightarrow> \<forall>c\<in>set xs. is_digit c \<Longrightarrow> \<forall>c\<in>set ys. is_digit c \<Longrightarrow>
    digits_val xs = digits_val ys \<Longrightarrow> xs = ys"
proof (induction xs ys rule: list_induct2)
  case (Cons x xs y ys)
  define p :: nat where "p = 10 ^ length xs"
  have lt: "digits_val xs < p" "digits_val ys < p" and p: "0 < p"
    using Cons digits_val_less [of xs] digits_val_less [of ys] by (simp_all add: p_def)
  have e: "digit_val x * p + digits_val xs = digit_val y * p + digits_val ys"
    using Cons.prems(3) Cons.hyps by (simp add: digits_val_Cons p_def)
  then have "(digit_val x * p + digits_val xs) div p = (digit_val y * p + digits_val ys) div p" by simp
  then have d: "digit_val x = digit_val y" using lt p by simp
  then have "x = y" using Cons.prems digit_val_char by (metis list.set_intros(1))
  with Cons e d show ?case by simp
qed simp

lemma digits_canonical:
  assumes "xs \<noteq> []" "\<forall>c\<in>set xs. is_digit c" "hd xs \<noteq> CHR ''0''"
    and "ys \<noteq> []" "\<forall>c\<in>set ys. is_digit c" "hd ys \<noteq> CHR ''0''"
    and "digits_val xs = digits_val ys"
  shows "xs = ys"
proof -
  have shorter: "\<not> length us < length vs"
    if "\<forall>c\<in>set us. is_digit c" "vs \<noteq> []" "\<forall>c\<in>set vs. is_digit c" "hd vs \<noteq> CHR ''0''"
      "digits_val us = digits_val vs" for us vs
  proof
    assume "length us < length vs"
    then have "(10::nat) ^ length us \<le> 10 ^ (length vs - 1)" by (intro power_increasing) auto
    also have "\<dots> \<le> digits_val vs" by (rule digits_lead [OF that(2-4)])
    finally show False using digits_val_less [OF that(1)] that(5) by linarith
  qed
  show ?thesis
    using shorter [of xs ys] shorter [of ys xs] digits_eq [of xs ys] assms by (metis linorder_neqE_nat)
qed

text \<open>The decimal text of an integer.\<close>

definition int_text :: "int \<Rightarrow> string" where
  "int_text n = (if n < 0 then ''-'' else []) @ nat_text (nat \<bar>n\<bar>)"

lemma bigint_text_val:
  assumes "bi_ok b"
  shows "bigint_text b = int_text (bi_val b)"
proof (cases "sign b = 0")
  case True
  then have "bi_val b = 0" using bi_ok_sign [OF assms] by (simp add: sgn_0_0)
  then show ?thesis by (simp add: bigint_text_def int_text_def True)
next
  case False
  then obtain l ls where r: "rev (limbs b) = l # ls" and l: "l \<noteq> 0" and ok: "unat l < limb_base" "limbs_ok ls"
    using assms by (cases "limbs b" rule: rev_cases) (auto simp: bi_ok_def limbs_ok_def)
  have last: "last (limbs b) = l" "limbs b = rev ls @ [l]"
    using r by (metis hd_rev list.sel(1), metis rev_rev_ident rev.simps(2) r)
  let ?ds = "nat_text (unat l) @ concat (map pad_limb ls)"
  have pos: "0 < unat l" using l by (simp add: unat_gt_0)
  have "(10::nat) ^ (9 * length ls) = limb_base ^ length ls" by (simp add: power_mult)
  then have v: "digits_val ?ds = limbs_val (limbs b)"
    using pad_limbs_spec [OF ok(2)] by (simp add: digits_val_append limbs_val_append last(2))
  have N: "0 < limbs_val (limbs b)" using pos by (simp add: last(2) limbs_val_append)
  have "?ds = nat_text (limbs_val (limbs b))"
  proof (rule digits_canonical)
    show "\<forall>c\<in>set ?ds. is_digit c" using pad_limbs_spec [OF ok(2)] nat_text_digits by auto
    show "hd ?ds \<noteq> CHR ''0''" using hd_nat_text [OF pos] by simp
    show "hd (nat_text (limbs_val (limbs b))) \<noteq> CHR ''0''" by (rule hd_nat_text [OF N])
    show "digits_val ?ds = digits_val (nat_text (limbs_val (limbs b)))" using v by simp
  qed (simp_all add: nat_text_digits)
  moreover have "limbs_val (limbs b) = nat \<bar>bi_val b\<bar>" using bi_ok_abs [OF assms] by simp
  moreover have "sign b < 0 \<longleftrightarrow> bi_val b < 0" using bi_ok_sign [OF assms] by simp
  ultimately show ?thesis
    using False r last(1) by (simp add: bigint_text_def int_text_def del: bi_ok_sign_0)
qed

text \<open>One value has one representation, so texts, comparisons and words can be compared by value.\<close>

lemma limbs_val_inj:
  "length xs = length ys \<Longrightarrow> limbs_ok xs \<Longrightarrow> limbs_ok ys \<Longrightarrow> limbs_val xs = limbs_val ys \<Longrightarrow> xs = ys"
proof (induction xs ys rule: list_induct2)
  case (Cons x xs y ys)
  then have e: "unat x + limb_base * limbs_val xs = unat y + limb_base * limbs_val ys"
    and lt: "unat x < limb_base" "unat y < limb_base" by simp_all
  then have "unat x = unat y" by (metis mod_less mod_mult_self2)
  then have "x = y" by (simp add: word_unat_eq_iff)
  with e Cons show ?case by simp
qed simp

lemma bi_val_inj:
  assumes "bi_ok a" and "bi_ok b" and "bi_val a = bi_val b"
  shows "a = b"
proof -
  have v: "limbs_val (limbs a) = limbs_val (limbs b)"
    using bi_ok_abs [OF assms(1)] bi_ok_abs [OF assms(2)] assms(3) by simp
  have c: "limbs_canon (limbs a)" "limbs_canon (limbs b)" using assms by simp_all
  have "length (limbs a) = length (limbs b)"
    using limbs_canon_shorter [OF c] limbs_canon_shorter [OF c(2,1)] v by (metis linorder_neqE_nat less_irrefl)
  then have "limbs a = limbs b" using c v by (intro limbs_val_inj) (simp_all add: limbs_canon_def)
  moreover have "sign a = sign b" using assms bi_ok_sign by metis
  ultimately show ?thesis by simp
qed

text \<open>What a literal is and which value it has: an optional sign and at least one digit.\<close>

definition int_literal :: "string \<Rightarrow> bool" where
  "int_literal t \<longleftrightarrow> (let ds = (if t \<noteq> [] \<and> (hd t = CHR ''+'' \<or> hd t = CHR ''-'') then tl t else t)
     in ds \<noteq> [] \<and> (\<forall>c\<in>set ds. is_digit c))"

definition int_literal_val :: "string \<Rightarrow> int" where
  "int_literal_val t =
     (if hd t = CHR ''-'' then - int (digits_val (tl t))
      else if hd t = CHR ''+'' then int (digits_val (tl t)) else int (digits_val t))"

lemma bigint_parse_spec:
  "(bigint_parse t = None \<longleftrightarrow> \<not> int_literal t)
    \<and> (\<forall>b. bigint_parse t = Some b \<longrightarrow> bi_ok b \<and> bi_val b = int_literal_val t)"
proof -
  define s :: int where "s = (if hd t = CHR ''-'' then -1 else 1)"
  define ds where "ds = (if hd t = CHR ''+'' \<or> hd t = CHR ''-'' then tl t else t)"
  define ds' where "ds' = dropWhile (\<lambda>c. c = CHR ''0'') ds"
  have p: "bigint_parse t = (if t = [] \<or> ds = [] \<or> \<not> (\<forall>c\<in>set ds. is_digit c) then None
      else if ds' = [] then Some bi_zero else Some (mk_bigint s (parse_limbs ds')))"
    by (simp add: bigint_parse_def Let_def s_def ds_def ds'_def)
  have lit: "int_literal t \<longleftrightarrow> t \<noteq> [] \<and> ds \<noteq> [] \<and> (\<forall>c\<in>set ds. is_digit c)"
    by (auto simp: int_literal_def ds_def Let_def)
  have val: "int_literal_val t = s * int (digits_val ds)"
    by (auto simp: int_literal_val_def s_def ds_def)
  have dv: "digits_val ds' = digits_val ds" by (simp add: ds'_def digits_val_strip)
  have s: "s = 1 \<or> s = -1" by (simp add: s_def)
  show ?thesis
  proof (cases "int_literal t")
    case False
    then show ?thesis unfolding p lit by auto
  next
    case True
    then have dig: "\<forall>c\<in>set ds'. is_digit c" unfolding lit ds'_def by (auto dest: set_dropWhileD)
    show ?thesis
    proof (cases "ds' = []")
      case True
      then have "digits_val ds = 0" using dv by simp
      then show ?thesis using \<open>int_literal t\<close> True unfolding p lit val by auto
    next
      case False
      note pl = parse_limbs_spec [OF dig]
      have "bi_val (mk_bigint s (parse_limbs ds')) = s * int (digits_val ds)"
        using pl dv s by (auto simp: bi_val_mk)
      then show ?thesis using \<open>int_literal t\<close> False pl unfolding p lit val by auto
    qed
  qed
qed

lemma is_digit_not_sign: "is_digit c \<Longrightarrow> c \<noteq> CHR ''-'' \<and> c \<noteq> CHR ''+''"
  by (auto simp: is_digit_def)

lemma int_text_literal: "int_literal (int_text n) \<and> int_literal_val (int_text n) = n"
proof (cases "n < 0")
  case True
  then show ?thesis using nat_text_digits by (auto simp: int_text_def int_literal_def int_literal_val_def)
next
  case False
  obtain c cs where t: "nat_text (nat n) = c # cs" by (cases "nat_text (nat n)") simp_all
  then have "is_digit c" using nat_text_digits [of "nat n"] by simp
  moreover have "digits_val (c # cs) = nat n" using t nat_text_val [of "nat n"] by simp
  ultimately show ?thesis
    using False t nat_text_digits [of "nat n"] is_digit_not_sign [of c]
    by (simp add: int_text_def int_literal_def int_literal_val_def)
qed

section \<open>Conversions to fixed-width integers\<close>

text \<open>
  The C library's \<open>strtoll\<close> and \<open>strtoull\<close> on a text without leading white space, in base 10: the
  value, whether \<open>errno\<close> is \<open>ERANGE\<close>, and the text from the end pointer on. A value out of range is
  clamped. With no digits the end pointer is the start of the text. The unsigned form is used on
  texts without a sign.
\<close>

definition strtoll :: "string \<Rightarrow> int \<times> bool \<times> string" where
  "strtoll t =
     (let ds = (if t \<noteq> [] \<and> (hd t = CHR ''+'' \<or> hd t = CHR ''-'') then tl t else t);
          n = (if t \<noteq> [] \<and> hd t = CHR ''-'' then - int (digits_val (takeWhile is_digit ds))
               else int (digits_val (takeWhile is_digit ds)))
      in if takeWhile is_digit ds = [] then (0, False, t)
         else if n < - (2 ^ 63) then (- (2 ^ 63), True, dropWhile is_digit ds)
         else if n > 2 ^ 63 - 1 then (2 ^ 63 - 1, True, dropWhile is_digit ds)
         else (n, False, dropWhile is_digit ds))"

definition strtoull :: "string \<Rightarrow> nat \<times> bool \<times> string" where
  "strtoull t =
     (let n = digits_val (takeWhile is_digit t)
      in if takeWhile is_digit t = [] then (0, False, t)
         else if n > 2 ^ 64 - 1 then (2 ^ 64 - 1, True, dropWhile is_digit t)
         else (n, False, dropWhile is_digit t))"

definition bigint_try_i64_value :: "bigint \<Rightarrow> int \<Rightarrow> int option" where
  "bigint_try_i64_value source bits =
     (if bits \<le> 0 \<or> bits > 64 then None
      else let (v, erange, rest) = strtoll (bigint_text source)
           in if erange \<or> rest \<noteq> [] then None
              else if bits < 64 then
                (let low = - (2 ^ nat (bits - 1)); high = 2 ^ nat (bits - 1) - 1
                 in if v < low \<or> v > high then None else Some v)
              else Some v)"

definition bigint_try_u64_value :: "bigint \<Rightarrow> int \<Rightarrow> nat option" where
  "bigint_try_u64_value source bits =
     (if bits \<le> 0 \<or> bits > 64 \<or> sign source < 0 then None
      else let (v, erange, rest) = strtoull (bigint_text source)
           in if erange \<or> rest \<noteq> [] then None
              else if bits < 64 \<and> v > 2 ^ nat bits - 1 then None else Some v)"

lemma takeWhile_nat_text [simp]:
  "takeWhile is_digit (nat_text n) = nat_text n" "dropWhile is_digit (nat_text n) = []"
  using nat_text_digits [of n] by (auto simp: dropWhile_eq_Nil_conv)

lemma hd_nat_text_sign [simp]: "hd (nat_text n) \<noteq> CHR ''-''" "hd (nat_text n) \<noteq> CHR ''+''"
proof -
  have "is_digit (hd (nat_text n))" using nat_text_digits [of n] by simp
  then show "hd (nat_text n) \<noteq> CHR ''-''" "hd (nat_text n) \<noteq> CHR ''+''"
    using is_digit_not_sign by simp_all
qed

lemma strtoll_int_text:
  "strtoll (int_text n) = (if n < - (2 ^ 63) then (- (2 ^ 63), True, [])
     else if n > 2 ^ 63 - 1 then (2 ^ 63 - 1, True, []) else (n, False, []))"
proof (cases "n < 0")
  case True
  then have "- int (nat \<bar>n\<bar>) = n" by simp
  with True show ?thesis by (simp add: strtoll_def int_text_def Let_def)
next
  case False
  then show ?thesis by (simp add: strtoll_def int_text_def Let_def)
qed

lemma strtoull_nat_text:
  "strtoull (nat_text n) = (if n > 2 ^ 64 - 1 then (2 ^ 64 - 1, True, []) else (n, False, []))"
  by (simp add: strtoull_def Let_def)

lemma bigint_try_i64_spec:
  assumes "bi_ok b"
  shows "bigint_try_i64_value b bits =
    (if 0 < bits \<and> bits \<le> 64 \<and> - (2 ^ nat (bits - 1)) \<le> bi_val b \<and> bi_val b < 2 ^ nat (bits - 1)
     then Some (bi_val b) else None)"
proof (cases "0 < bits \<and> bits < 64")
  case True
  then have "(2::int) ^ nat (bits - 1) \<le> 2 ^ 63" by (intro power_increasing) auto
  then show ?thesis
    using True by (simp add: bigint_try_i64_value_def bigint_text_val [OF assms] strtoll_int_text Let_def)
next
  case False
  then consider "bits = 64" | "bits \<le> 0" | "64 < bits" by linarith
  then show ?thesis
    by cases (simp_all add: bigint_try_i64_value_def bigint_text_val [OF assms] strtoll_int_text)
qed

lemma bigint_try_u64_spec:
  assumes "bi_ok b"
  shows "bigint_try_u64_value b bits =
    (if 0 < bits \<and> bits \<le> 64 \<and> 0 \<le> bi_val b \<and> bi_val b < 2 ^ nat bits
     then Some (nat (bi_val b)) else None)"
proof (cases "0 < bits \<and> bits \<le> 64 \<and> 0 \<le> bi_val b")
  case False
  then show ?thesis using bi_ok_sign [OF assms] by (auto simp: bigint_try_u64_value_def sgn_if)
next
  case True
  then have le: "(2::int) ^ nat bits \<le> 2 ^ 64" by (intro power_increasing) auto
  have t: "bigint_text b = nat_text (nat (bi_val b))"
    using True by (simp add: bigint_text_val [OF assms] int_text_def)
  have s: "\<not> sign b < 0" using True bi_ok_sign [OF assms] by (simp add: sgn_if)
  have "nat (bi_val b) > 2 ^ nat bits - 1 \<longleftrightarrow> \<not> bi_val b < 2 ^ nat bits"
  proof -
    have "(0::nat) < 2 ^ nat bits" by simp
    then have "nat (bi_val b) > 2 ^ nat bits - 1 \<longleftrightarrow> \<not> nat (bi_val b) < 2 ^ nat bits" by linarith
    also have "nat (bi_val b) < 2 ^ nat bits \<longleftrightarrow> int (nat (bi_val b)) < int (2 ^ nat bits)"
      by (simp only: of_nat_less_iff)
    finally show ?thesis using True by simp
  qed
  then show ?thesis
    using True le s by (auto simp: bigint_try_u64_value_def t strtoull_nat_text nat_le_iff)
qed

section \<open>Entry points of the boxed type\<close>

text \<open>
  A null pointer is \<open>None\<close>. The codes are those of \<open>abi::exact_binary_opcode\<close>; a failure ends the
  program and is \<open>Inl\<close>.
\<close>

definition quidra_bigint_literal :: "string \<Rightarrow> exact_error + bigint" where
  "quidra_bigint_literal t =
     (case bigint_parse t of None \<Rightarrow> Inl (Exact_Failure ''invalid bigint literal'') | Some b \<Rightarrow> Inr b)"

definition quidra_bigint_neg :: "bigint option \<Rightarrow> exact_error + bigint" where
  "quidra_bigint_neg p =
     (case p of None \<Rightarrow> Inl (Exact_Failure ''null bigint'') | Some b \<Rightarrow> Inr (neg b))"

definition quidra_bigint_binary :: "bigint option \<Rightarrow> bigint option \<Rightarrow> int \<Rightarrow> exact_error + bigint" where
  "quidra_bigint_binary left right operation =
     (case (left, right) of
        (Some a, Some b) \<Rightarrow>
          if operation = 1 then Inr (add a b)
          else if operation = 2 then Inr (sub a b)
          else if operation = 3 then Inr (mul a b)
          else if operation = 4 then bind_r (divmod a b) (\<lambda>qr. Inr (fst qr))
          else if operation = 5 then bind_r (divmod a b) (\<lambda>qr. Inr (snd qr))
          else Inl (Exact_Failure ''invalid bigint operation'')
      | _ \<Rightarrow> Inl (Exact_Failure ''null bigint operand''))"

definition quidra_bigint_pow :: "bigint option \<Rightarrow> bigint option \<Rightarrow> exact_error + bigint" where
  "quidra_bigint_pow left right =
     (case (left, right) of
        (Some base, Some exponent) \<Rightarrow>
          if sign exponent < 0 then Inl Negative_Integer_Exponent
          else (case bigint_pow_loop (from_u64 1) base exponent of
                  None \<Rightarrow> Inl Does_Not_Return
                | Some r \<Rightarrow> Inr r)
      | _ \<Rightarrow> Inl (Exact_Failure ''null bigint power operand''))"

definition quidra_bigint_compare :: "bigint option \<Rightarrow> bigint option \<Rightarrow> exact_error + int" where
  "quidra_bigint_compare left right =
     (case (left, right) of
        (Some a, Some b) \<Rightarrow> Inr (cmp a b)
      | _ \<Rightarrow> Inl (Exact_Failure ''null bigint comparison''))"

definition quidra_bigint_to_i64 :: "bigint option \<Rightarrow> int \<Rightarrow> exact_error + int" where
  "quidra_bigint_to_i64 p bits =
     (case p of None \<Rightarrow> Inl (Exact_Failure ''null bigint'')
      | Some b \<Rightarrow> (case bigint_try_i64_value b bits of None \<Rightarrow> Inl Out_Of_Range | Some v \<Rightarrow> Inr v))"

definition quidra_bigint_to_u64 :: "bigint option \<Rightarrow> int \<Rightarrow> exact_error + nat" where
  "quidra_bigint_to_u64 p bits =
     (case p of None \<Rightarrow> Inl (Exact_Failure ''null bigint'')
      | Some b \<Rightarrow> if sign b < 0 then Inl Out_Of_Range
                  else (case bigint_try_u64_value b bits of None \<Rightarrow> Inl Out_Of_Range | Some v \<Rightarrow> Inr v))"

text \<open>What the five operations promise over the integers, division by zero included.\<close>

definition int_binary_spec :: "int \<Rightarrow> int \<Rightarrow> int \<Rightarrow> exact_error + int" where
  "int_binary_spec x y operation =
     (if operation = 1 then Inr (x + y)
      else if operation = 2 then Inr (x - y)
      else if operation = 3 then Inr (x * y)
      else if operation = 4 then (if y = 0 then Inl Division_By_Zero else Inr (x sdiv y))
      else if operation = 5 then (if y = 0 then Inl Division_By_Zero else Inr (x smod y))
      else Inl (Exact_Failure ''invalid bigint operation''))"

section \<open>Properties\<close>

text \<open>
  C24: every operation of the boxed integers refines the mathematical one: on well-formed operands
  \<open>quidra_bigint_binary\<close> gives the sum, difference, product, truncated quotient or remainder, fails
  exactly where the specification fails, and its result is well-formed again.
\<close>

theorem bigint_binary_refines:
  assumes "bi_ok a" and "bi_ok b"
  shows "map_sum id bi_val (quidra_bigint_binary (Some a) (Some b) operation)
      = int_binary_spec (bi_val a) (bi_val b) operation
    \<and> pred_sum (\<lambda>_. True) bi_ok (quidra_bigint_binary (Some a) (Some b) operation)"
proof (cases "sign b = 0")
  case True
  then have "bi_val b = 0" using bi_ok_sign [OF assms(2)] by (simp add: sgn_0_0)
  then show ?thesis
    using assms True by (simp add: quidra_bigint_binary_def int_binary_spec_def divmod_def del: bi_ok_sign_0)
next
  case False
  then have nz: "bi_val b \<noteq> 0" using assms(2) by simp
  obtain q r where d: "divmod a b = Inr (q, r)" "bi_ok q" "bi_ok r"
    "bi_val q = bi_val a sdiv bi_val b" "bi_val r = bi_val a smod bi_val b"
    by (rule divmod_ok_val [OF assms False])
  show ?thesis
    using assms nz by (simp add: quidra_bigint_binary_def int_binary_spec_def d)
qed

theorem bigint_binary_refines_witness:
  "map_sum id bi_val (quidra_bigint_binary (Some (from_i64 (-7))) (Some (from_i64 2)) 4)
      = int_binary_spec (-7) 2 4"
  using bigint_binary_refines [of "from_i64 (-7)" "from_i64 2" 4] by simp

text \<open>
  C30: \<open>quidra_bigint_pow\<close> returns for every exponent: it raises to a non-negative exponent of any size,
  \<open>0^0\<close> being 1, and fails on a negative one.
\<close>

theorem bigint_pow_total:
  assumes "bi_ok a" and "bi_ok e"
  shows "if bi_val e < 0 then quidra_bigint_pow (Some a) (Some e) = Inl Negative_Integer_Exponent
    else \<exists>r. quidra_bigint_pow (Some a) (Some e) = Inr r \<and> bi_ok r
      \<and> bi_val r = bi_val a ^ nat (bi_val e)"
  using bigint_pow_loop_spec [of "from_u64 1" a e] assms bi_ok_sign [OF assms(2)]
  by (auto simp: quidra_bigint_pow_def)

theorem bigint_pow_total_witness:
  "\<exists>r. quidra_bigint_pow (Some (from_u64 3)) (Some (from_u64 4)) = Inr r \<and> bi_val r = 81"
  using bigint_pow_total [of "from_u64 3" "from_u64 4"] by auto

text \<open>
  C25: \<open>BigInt::text\<close> writes the decimal text of the value, and reading it back gives the same
  integer, limb for limb.
\<close>

theorem bigint_text_roundtrip:
  assumes "bi_ok b"
  shows "bigint_text b = int_text (bi_val b) \<and> bigint_parse (bigint_text b) = Some b"
proof -
  have t: "bigint_text b = int_text (bi_val b)" by (rule bigint_text_val [OF assms])
  obtain c where "bigint_parse (bigint_text b) = Some c"
    using bigint_parse_spec [of "bigint_text b"] int_text_literal by (auto simp: t)
  moreover from this have "bi_ok c" "bi_val c = bi_val b"
    using bigint_parse_spec [of "bigint_text b"] int_text_literal by (auto simp: t)
  ultimately show ?thesis using t bi_val_inj [OF _ assms] by simp
qed

theorem bigint_text_roundtrip_witness:
  "bigint_parse (bigint_text (from_u64 1000000000)) = Some (from_u64 1000000000)"
  using bigint_text_roundtrip [OF from_u64_ok [of 1000000000]] by (rule conjunct2)

text \<open>
  \<open>BigInt::parse\<close> accepts exactly the texts of an optional sign and at least one digit, gives a
  well-formed integer of the value they denote, and \<open>quidra_bigint_literal\<close> fails on every other text.
\<close>

lemma bigint_parse_correct:
  "case bigint_parse t of
     None \<Rightarrow> \<not> int_literal t \<and> quidra_bigint_literal t = Inl (Exact_Failure ''invalid bigint literal'')
   | Some b \<Rightarrow> int_literal t \<and> bi_ok b \<and> bi_val b = int_literal_val t \<and> quidra_bigint_literal t = Inr b"
  using bigint_parse_spec [of t] by (auto simp: quidra_bigint_literal_def split: option.split)

text \<open>
  C31: a conversion to a fixed-width integer succeeds exactly on the values of that width: signed for
  \<open>quidra_bigint_to_i64\<close>, unsigned for \<open>quidra_bigint_to_u64\<close>, for every width from 1 to 64; any other
  width declines.
\<close>

theorem bigint_fixed_width:
  assumes "bi_ok b"
  shows "quidra_bigint_to_i64 (Some b) bits =
      (if 0 < bits \<and> bits \<le> 64 \<and> - (2 ^ nat (bits - 1)) \<le> bi_val b \<and> bi_val b < 2 ^ nat (bits - 1)
       then Inr (bi_val b) else Inl Out_Of_Range)
    \<and> quidra_bigint_to_u64 (Some b) bits =
      (if 0 < bits \<and> bits \<le> 64 \<and> 0 \<le> bi_val b \<and> bi_val b < 2 ^ nat bits
       then Inr (nat (bi_val b)) else Inl Out_Of_Range)"
  using assms bi_ok_sign [OF assms]
  by (simp add: quidra_bigint_to_i64_def quidra_bigint_to_u64_def bigint_try_i64_spec bigint_try_u64_spec sgn_if)

theorem bigint_fixed_width_witness:
  "quidra_bigint_to_u64 (Some (from_u64 256)) 8 = Inl Out_Of_Range
    \<and> quidra_bigint_to_i64 (Some (from_i64 (-128))) 8 = Inr (-128)"
  using bigint_fixed_width [of "from_u64 256" 8] bigint_fixed_width [of "from_i64 (-128)" 8] by simp

text \<open>
  \<open>cmp\<close> orders the integers: its sign is that of the difference, and 0 means the very same
  representation.
\<close>

theorem bigint_compare_correct:
  assumes "bi_ok a" and "bi_ok b"
  shows "quidra_bigint_compare (Some a) (Some b) = Inr (sgn (bi_val a - bi_val b))
    \<and> (cmp a b = 0 \<longleftrightarrow> a = b)"
  using assms bi_val_inj [OF assms] by (auto simp: quidra_bigint_compare_def cmp_val sgn_0_0)

theorem bigint_compare_correct_witness:
  "quidra_bigint_compare (Some (from_i64 (-1))) (Some (from_u64 1)) = Inr (-1)"
  using bigint_compare_correct [of "from_i64 (-1)" "from_u64 1"] by simp

text \<open>C32: \<open>gcd\<close> returns for all operands and is the greatest common divisor of the two values.\<close>

theorem bigint_gcd_correct:
  assumes "bi_ok a" and "bi_ok b"
  shows "\<exists>g. gcd_bi a b = Some g \<and> bi_ok g \<and> bi_val g = gcd (bi_val a) (bi_val b)"
  by (rule gcd_bi_spec [OF assms]) blast

theorem bigint_gcd_correct_witness:
  "\<exists>g. gcd_bi (from_i64 (-12)) (from_u64 18) = Some g \<and> bi_val g = 6"
proof -
  have "gcd (-12) 18 = (6::int)" by code_simp
  then show ?thesis using bigint_gcd_correct [of "from_i64 (-12)" "from_u64 18"] by auto
qed

end
