(* ===== verification/Int_Word.thy ===== *)
theory Int_Word
  imports Big_Integer_Text
begin

unbundle bit_operations_syntax

text \<open>
  The \<open>int\<close> values of generated code as 64-bit words (\<open>abi::bare_integer_layout\<close>,
  \<open>include/quidra/abi/layout.hpp\<close>) and the entry points \<open>quidra_int_*\<close> of
  \<open>src/runtime_integer.cpp\<close>. A word with the low bit clear is the value shifted left by one; with the
  low bit set the rest is the address of a box. Boxes live in an explicit heap from addresses to big
  integers; the managed allocator is a parameter that may fail. The theorems show that every operation
  computes over the integers and that its result is in canonical form: inline exactly when it fits.
\<close>

section \<open>Words and boxes\<close>

type_synonym heap = "u64 \<rightharpoonup> bigint"

type_synonym allocator = "heap \<Rightarrow> u64 option"

definition boxed_bit :: u64 where "boxed_bit = 1"

definition inline_min :: int where "inline_min = - (2 ^ 62)"

definition inline_max :: int where "inline_max = 2 ^ 62 - 1"

definition word_boxed :: "u64 \<Rightarrow> bool" where
  "word_boxed w \<longleftrightarrow> w AND boxed_bit \<noteq> 0"

definition word_box :: "u64 \<Rightarrow> u64" where
  "word_box w = w AND NOT boxed_bit"

definition word_small :: "u64 \<Rightarrow> u64" where
  "word_small w = signed_drop_bit 1 w"

definition small_word :: "u64 \<Rightarrow> u64" where
  "small_word v = push_bit 1 v"

definition small_inline :: "u64 \<Rightarrow> bool" where
  "small_inline v \<longleftrightarrow> inline_min \<le> sint v \<and> sint v \<le> inline_max"

text \<open>\<open>WordValue\<close>: the big integer a word stands for. A word whose box is not in the heap is a dangling
  pointer; the theorems are about words for which \<open>word_ok\<close> holds.\<close>

definition word_value :: "heap \<Rightarrow> u64 \<Rightarrow> bigint" where
  "word_value h w = (if word_boxed w then the (h (word_box w)) else from_i64 (word_small w))"

fun exact_magnitude :: "u32 list \<Rightarrow> u64 \<Rightarrow> u64 option" where
  "exact_magnitude [] magnitude = Some magnitude"
| "exact_magnitude (l # ls) magnitude =
     (let limb = ucast l :: u64
      in if magnitude > (NOT 0 - limb) div 1000000000 then None
         else exact_magnitude ls (magnitude * 1000000000 + limb))"

definition bigint_exact_i64 :: "bigint \<Rightarrow> u64 option" where
  "bigint_exact_i64 b =
     (case exact_magnitude (rev (limbs b)) 0 of
        None \<Rightarrow> None
      | Some magnitude \<Rightarrow>
          let positive_limit = 9223372036854775807
          in if 0 \<le> sign b then (if magnitude > positive_limit then None else Some magnitude)
             else if magnitude > positive_limit + 1 then None
             else Some (if magnitude = positive_limit + 1 then 9223372036854775808 else - magnitude))"

definition box_word :: "allocator \<Rightarrow> heap \<Rightarrow> bigint \<Rightarrow> exact_error + u64 \<times> heap" where
  "box_word alloc h b =
     (case alloc h of
        None \<Rightarrow> Inl (Exact_Failure ''exact numeric allocation failed'')
      | Some box \<Rightarrow> Inr (box OR boxed_bit, h(box \<mapsto> b)))"

definition canonical_word :: "allocator \<Rightarrow> heap \<Rightarrow> bigint \<Rightarrow> exact_error + u64 \<times> heap" where
  "canonical_word alloc h b =
     (case bigint_exact_i64 b of
        Some small \<Rightarrow> if small_inline small then Inr (small_word small, h) else box_word alloc h b
      | None \<Rightarrow> box_word alloc h b)"

definition word_from_i64 :: "allocator \<Rightarrow> heap \<Rightarrow> u64 \<Rightarrow> exact_error + u64 \<times> heap" where
  "word_from_i64 alloc h v =
     (if small_inline v then Inr (small_word v, h) else box_word alloc h (from_i64 v))"

definition small_fits_signed :: "u64 \<Rightarrow> int \<Rightarrow> bool" where
  "small_fits_signed v bits \<longleftrightarrow>
     (if bits \<le> 0 \<or> bits > 64 then False
      else if bits = 64 then True
      else - (2 ^ nat (bits - 1)) \<le> sint v \<and> sint v \<le> 2 ^ nat (bits - 1) - 1)"

definition small_fits_unsigned :: "u64 \<Rightarrow> int \<Rightarrow> bool" where
  "small_fits_unsigned v bits \<longleftrightarrow>
     (if bits \<le> 0 \<or> bits > 64 \<or> sint v < 0 then False
      else if bits = 64 then True
      else unat v \<le> 2 ^ nat bits - 1)"

section \<open>Entry points\<close>

definition quidra_int_add :: "allocator \<Rightarrow> heap \<Rightarrow> u64 \<Rightarrow> u64 \<Rightarrow> exact_error + u64 \<times> heap" where
  "quidra_int_add alloc h left right =
     (if \<not> word_boxed left \<and> \<not> word_boxed right
      then word_from_i64 alloc h (word_small left + word_small right)
      else canonical_word alloc h (add (word_value h left) (word_value h right)))"

definition quidra_int_sub :: "allocator \<Rightarrow> heap \<Rightarrow> u64 \<Rightarrow> u64 \<Rightarrow> exact_error + u64 \<times> heap" where
  "quidra_int_sub alloc h left right =
     (if \<not> word_boxed left \<and> \<not> word_boxed right
      then word_from_i64 alloc h (word_small left - word_small right)
      else canonical_word alloc h (sub (word_value h left) (word_value h right)))"

definition quidra_int_mul :: "allocator \<Rightarrow> heap \<Rightarrow> u64 \<Rightarrow> u64 \<Rightarrow> exact_error + u64 \<times> heap" where
  "quidra_int_mul alloc h left right =
     (let a = word_small left; b = word_small right; half = 2 ^ 31
      in if \<not> word_boxed left \<and> \<not> word_boxed right
            \<and> sint a > - half \<and> sint a < half \<and> sint b > - half \<and> sint b < half
         then word_from_i64 alloc h (a * b)
         else canonical_word alloc h (mul (word_value h left) (word_value h right)))"

definition quidra_int_div :: "allocator \<Rightarrow> heap \<Rightarrow> u64 \<Rightarrow> u64 \<Rightarrow> exact_error + u64 \<times> heap" where
  "quidra_int_div alloc h left right =
     bind_r (divmod (word_value h left) (word_value h right)) (\<lambda>qr. canonical_word alloc h (fst qr))"

definition quidra_int_rem :: "allocator \<Rightarrow> heap \<Rightarrow> u64 \<Rightarrow> u64 \<Rightarrow> exact_error + u64 \<times> heap" where
  "quidra_int_rem alloc h left right =
     bind_r (divmod (word_value h left) (word_value h right)) (\<lambda>qr. canonical_word alloc h (snd qr))"

definition quidra_int_neg :: "allocator \<Rightarrow> heap \<Rightarrow> u64 \<Rightarrow> exact_error + u64 \<times> heap" where
  "quidra_int_neg alloc h v =
     (if \<not> word_boxed v then word_from_i64 alloc h (- word_small v)
      else canonical_word alloc h (neg (the (h (word_box v)))))"

definition quidra_int_pow :: "allocator \<Rightarrow> heap \<Rightarrow> u64 \<Rightarrow> u64 \<Rightarrow> exact_error + u64 \<times> heap" where
  "quidra_int_pow alloc h left right =
     (let base = word_value h left; exponent = word_value h right
      in if sign exponent < 0 then Inl Negative_Integer_Exponent
         else if sign base = 0 \<and> sign exponent = 0 then Inl Zero_Power_Zero
         else case bigint_pow_loop (from_u64 1) base exponent of
                None \<Rightarrow> Inl Does_Not_Return
              | Some r \<Rightarrow> canonical_word alloc h r)"

definition quidra_int_compare :: "heap \<Rightarrow> u64 \<Rightarrow> u64 \<Rightarrow> int" where
  "quidra_int_compare h left right =
     (if \<not> word_boxed left \<and> \<not> word_boxed right
      then (if sint left > sint right then 1 else 0) - (if sint left < sint right then 1 else 0)
      else cmp (word_value h left) (word_value h right))"

definition quidra_int_text :: "heap \<Rightarrow> u64 \<Rightarrow> string" where
  "quidra_int_text h v =
     (if \<not> word_boxed v then int_text (sint (word_small v))
      else bigint_text (the (h (word_box v))))"

definition quidra_int_parse :: "allocator \<Rightarrow> heap \<Rightarrow> string \<Rightarrow> (exact_error + u64 \<times> heap) option" where
  "quidra_int_parse alloc h t =
     (case bigint_parse t of None \<Rightarrow> None | Some b \<Rightarrow> Some (canonical_word alloc h b))"

definition quidra_int_from_u64 :: "allocator \<Rightarrow> heap \<Rightarrow> u64 \<Rightarrow> exact_error + u64 \<times> heap" where
  "quidra_int_from_u64 alloc h v =
     (if int (unat v) \<le> inline_max then Inr (small_word v, h) else box_word alloc h (from_u64 v))"

definition quidra_int_try_i64 :: "heap \<Rightarrow> u64 \<Rightarrow> int \<Rightarrow> int option" where
  "quidra_int_try_i64 h v bits =
     (if \<not> word_boxed v
      then (if \<not> small_fits_signed (word_small v) bits then None else Some (sint (word_small v)))
      else bigint_try_i64_value (the (h (word_box v))) bits)"

definition quidra_int_try_u64 :: "heap \<Rightarrow> u64 \<Rightarrow> int \<Rightarrow> nat option" where
  "quidra_int_try_u64 h v bits =
     (if \<not> word_boxed v
      then (if \<not> small_fits_unsigned (word_small v) bits then None else Some (unat (word_small v)))
      else bigint_try_u64_value (the (h (word_box v))) bits)"

definition quidra_int_to_i64_checked :: "heap \<Rightarrow> u64 \<Rightarrow> int \<Rightarrow> exact_error + int" where
  "quidra_int_to_i64_checked h v bits =
     (case quidra_int_try_i64 h v bits of None \<Rightarrow> Inl Out_Of_Range | Some n \<Rightarrow> Inr n)"

definition quidra_int_to_u64_checked :: "heap \<Rightarrow> u64 \<Rightarrow> int \<Rightarrow> exact_error + nat" where
  "quidra_int_to_u64_checked h v bits =
     (let negative = (if word_boxed v then sign (the (h (word_box v))) < 0 else sint (word_small v) < 0)
      in if negative then Inl Out_Of_Range
         else case quidra_int_try_u64 h v bits of None \<Rightarrow> Inl Out_Of_Range | Some n \<Rightarrow> Inr n)"

definition quidra_nat_sub :: "allocator \<Rightarrow> heap \<Rightarrow> u64 \<Rightarrow> u64 \<Rightarrow> exact_error + u64 \<times> heap" where
  "quidra_nat_sub alloc h left right =
     (let difference = sub (word_value h left) (word_value h right)
      in if sign difference < 0 then Inl Nat_Negative else canonical_word alloc h difference)"

text \<open>\<open>quidra_for_step_check\<close>: the failure of a \<open>for\<close> header's step, with the step's text.\<close>

datatype step_failure = For_Step_Zero | For_Step_Descending string | For_Step_Ascending string

definition quidra_for_step_check :: "heap \<Rightarrow> u64 \<Rightarrow> bool \<Rightarrow> step_failure option" where
  "quidra_for_step_check h step descending =
     (let sg = quidra_int_compare h step 0
      in if sg = 0 then Some For_Step_Zero
         else if (sg < 0) = descending then None
         else let t = bigint_text (word_value h step)
              in Some (if descending then For_Step_Descending t else For_Step_Ascending t))"

section \<open>Word arithmetic\<close>

lemma even_word: "w AND 1 = 0 \<longleftrightarrow> \<not> bit w 0" for w :: u64
  by (simp only: and_one_eq bit_0 not_not even_iff_mod_2_eq_zero)

lemma sint_word_small: "sint (word_small w) = sint w div 2"
  by (simp add: word_small_def sint_signed_drop_bit_eq drop_bit_eq_div)

lemma sint_fits:
  fixes a b :: u64
  shows "- (2 ^ 63) \<le> sint a + sint b \<Longrightarrow> sint a + sint b < 2 ^ 63 \<Longrightarrow> sint (a + b) = sint a + sint b"
    and "- (2 ^ 63) \<le> sint a - sint b \<Longrightarrow> sint a - sint b < 2 ^ 63 \<Longrightarrow> sint (a - b) = sint a - sint b"
    and "- (2 ^ 63) \<le> sint a * sint b \<Longrightarrow> sint a * sint b < 2 ^ 63 \<Longrightarrow> sint (a * b) = sint a * sint b"
    and "- (2 ^ 63) \<le> - sint a \<Longrightarrow> - sint a < 2 ^ 63 \<Longrightarrow> sint (- a) = - sint a"
  by (simp_all add: sint_word_add sint_word_diff sint_word_mult sint_word_minus signed_take_bit_int_eq_self)

lemma sint_u64_range: "- (2 ^ 63) \<le> sint (w :: u64)" "sint (w :: u64) < 2 ^ 63"
  using sint_range_size [of w] by (simp_all add: word_size)

lemma word_small_range: "inline_min \<le> sint (word_small w)" "sint (word_small w) \<le> inline_max"
  using sint_u64_range [of w] unfolding sint_word_small inline_min_def inline_max_def by simp_all

lemma small_word_not_boxed: "\<not> word_boxed (small_word v)"
  by (simp only: word_boxed_def boxed_bit_def small_word_def even_word bit_push_bit_iff) simp

lemma sint_small_word: 
  assumes "small_inline v" shows "sint (small_word v) = 2 * sint v"
proof -
  have "small_word v = v + v" by (simp add: small_word_def push_bit_eq_mult)
  then show ?thesis using assms sint_fits(1) [of v v] by (simp add: small_inline_def inline_min_def inline_max_def)
qed
lemma small_word_small: "small_inline v \<Longrightarrow> word_small (small_word v) = v"
  using sint_word_small [of "small_word v"] sint_small_word [of v] by (simp add: signed_word_eqI)

lemma box_bits:
  fixes a :: u64 assumes "a AND 1 = 0"
  shows "(a OR 1) AND 1 \<noteq> 0" "(a OR 1) AND NOT 1 = a"
proof -
  have z: "bit a 0 = False" using assms by (simp only: even_word simp_thms)
  show "(a OR 1) AND 1 \<noteq> 0" by (simp only: even_word bit_or_iff bit_1_iff) simp
  show "(a OR 1) AND NOT 1 = a"
  proof (rule bit_word_eqI)
    fix n assume "n < LENGTH(64)"
    then show "bit ((a OR 1) AND NOT 1) n = bit a n"
      using z \<open>n < LENGTH(64)\<close> by (cases "n = 0") (auto simp only: bit_and_iff bit_or_iff bit_not_iff bit_1_iff possible_bit_word simp_thms)
  qed
qed

lemma exact_magnitude_spec:
  "limbs_ok ls \<Longrightarrow> exact_magnitude ls m =
    (let v = unat m * limb_base ^ length ls + limbs_val (rev ls)
     in if v < 18446744073709551616 then Some (of_nat v) else None)"
proof (induction ls arbitrary: m)
  case (Cons l ls)
  have l: "unat l < limb_base" using Cons.prems by simp
  have "unat (NOT 0 - ucast l :: u64) = 18446744073709551615 - unat l"
  proof -
    have "unat (NOT 0 :: u64) = 18446744073709551615"
      by (simp add: unsigned_minus_1_eq_mask mask_eq_exp_minus_1)
    moreover have "ucast l \<le> (NOT 0 :: u64)" by simp
    ultimately show ?thesis by (simp add: unat_sub_small)
  qed
  then have d: "unat ((NOT 0 - ucast l :: u64) div 1000000000) = (18446744073709551615 - unat l) div limb_base"
    by (simp add: unat_div_distrib)
  define M where "M = unat m * limb_base + unat l"
  have v: "unat m * limb_base ^ length (l # ls) + limbs_val (rev (l # ls)) = M * limb_base ^ length ls + limbs_val (rev ls)"
    by (simp add: M_def limbs_val_append algebra_simps)
  show ?case
  proof (cases "M < 18446744073709551616")
    case True
    then have "unat m \<le> (18446744073709551615 - unat l) div limb_base"
      unfolding M_def by (simp add: less_eq_div_iff_mult_less_eq)
    then have "exact_magnitude (l # ls) m = exact_magnitude ls (m * 1000000000 + ucast l)"
      using d by (simp add: Let_def word_less_nat_alt not_less)
    moreover have "unat (m * 1000000000 + ucast l) = M"
      using True by (simp add: M_def word_nat)
    ultimately show ?thesis using Cons v by (simp add: Let_def)
  next
    case False
    then have "\<not> unat m \<le> (18446744073709551615 - unat l) div limb_base"
      unfolding M_def using l by (simp add: less_eq_div_iff_mult_less_eq)
    then have "exact_magnitude (l # ls) m = None"
      using d by (simp add: Let_def word_less_nat_alt not_less)
    moreover have "M * 1 \<le> M * limb_base ^ length ls" by (intro mult_le_mono2) simp
    then have "\<not> M * limb_base ^ length ls + limbs_val (rev ls) < 18446744073709551616"
      using False by linarith
    ultimately show ?thesis unfolding v Let_def by simp
  qed
qed (simp add: Let_def unat_u64_lt of_nat_unat)

lemma bigint_exact_i64_spec:
  assumes "bi_ok b"
  shows "bigint_exact_i64 b = (if - (2 ^ 63) \<le> bi_val b \<and> bi_val b < 2 ^ 63 then Some (word_of_int (bi_val b)) else None)"
proof -
  define N where "N = limbs_val (limbs b)"
  have N: "int N = \<bar>bi_val b\<bar>" using bi_ok_abs [OF assms] by (simp add: N_def)
  have s: "sign b = sgn (bi_val b)" by (rule bi_ok_sign [OF assms])
  have e: "exact_magnitude (rev (limbs b)) 0 = (if N < 18446744073709551616 then Some (of_nat N) else None)"
    using exact_magnitude_spec [of "rev (limbs b)" 0] assms by (simp add: N_def bi_ok_def Let_def)
  have u: "unat (of_nat N :: u64) = N" if "N < 18446744073709551616" using that by (simp add: word_nat)
  have w: "(of_nat N :: u64) = word_of_int (int N)" by simp
  consider "0 \<le> bi_val b" | "bi_val b < 0" by linarith
  then show ?thesis
  proof cases
    case 1
    then have "bi_val b = int N" using N by simp
    then show ?thesis using s e u by (simp add: bigint_exact_i64_def Let_def word_less_nat_alt sgn_if)
  next
    case 2
    then have v: "bi_val b = - int N" using N by simp
    then show ?thesis using 2 s e u
      by (auto simp add: bigint_exact_i64_def Let_def word_less_nat_alt word_unat_eq_iff sgn_if)
  qed
qed

section \<open>Values of words\<close>

definition int_val :: "heap \<Rightarrow> u64 \<Rightarrow> int" where
  "int_val h w = bi_val (word_value h w)"

definition inline_range :: "int \<Rightarrow> bool" where
  "inline_range n \<longleftrightarrow> inline_min \<le> n \<and> n \<le> inline_max"

text \<open>A word is canonical: its box exists, is well-formed and holds a value that is not inline.\<close>

definition word_ok :: "heap \<Rightarrow> u64 \<Rightarrow> bool" where
  "word_ok h w \<longleftrightarrow>
     (word_boxed w \<longrightarrow> (case h (word_box w) of None \<Rightarrow> False | Some b \<Rightarrow> bi_ok b \<and> \<not> inline_range (bi_val b)))"

text \<open>What the allocator promises: a fresh address with the low bit clear, when it gives one.\<close>

definition alloc_ok :: "allocator \<Rightarrow> bool" where
  "alloc_ok alloc \<longleftrightarrow> (\<forall>h a. alloc h = Some a \<longrightarrow> h a = None \<and> a AND 1 = 0)"

text \<open>
  The contract of a result: a canonical word of the value, in a heap that only gained boxes; a value
  in the inline range needs no box, so it cannot fail; any failure is the allocator's.
\<close>

definition int_result :: "heap \<Rightarrow> int \<Rightarrow> exact_error + u64 \<times> heap \<Rightarrow> bool" where
  "int_result h n r \<longleftrightarrow>
     (case r of
        Inl e \<Rightarrow> e = Exact_Failure ''exact numeric allocation failed'' \<and> \<not> inline_range n
      | Inr (w, h') \<Rightarrow> word_ok h' w \<and> int_val h' w = n \<and> h \<subseteq>\<^sub>m h'
          \<and> (inline_range n \<longrightarrow> \<not> word_boxed w \<and> h' = h))"

lemma word_value_ok [ok_intros]: "word_ok h w \<Longrightarrow> bi_ok (word_value h w)"
  by (auto simp: word_ok_def word_value_def split: option.splits)

lemma int_val_inline: "\<not> word_boxed w \<Longrightarrow> int_val h w = sint (word_small w)"
  by (simp add: int_val_def word_value_def)

lemma inline_iff:
  assumes "word_ok h w"
  shows "word_boxed w \<longleftrightarrow> \<not> inline_range (int_val h w)"
  using assms word_small_range [of w]
  by (auto simp: word_ok_def int_val_def word_value_def inline_range_def split: option.splits)

lemma word_ok_mono:
  assumes "word_ok h w" and "h \<subseteq>\<^sub>m h'"
  shows "word_ok h' w" and "int_val h' w = int_val h w"
  using assms
  by (auto simp: word_ok_def int_val_def word_value_def map_le_def dom_def split: option.splits)

lemma inline_result:
  assumes "small_inline v"
  shows "int_result h (sint v) (Inr (small_word v, h))"
proof -
  have "int_val h (small_word v) = sint v"
    using assms by (simp add: int_val_inline small_word_not_boxed small_word_small)
  then show ?thesis by (simp add: int_result_def word_ok_def small_word_not_boxed)
qed

lemma box_result:
  assumes "alloc_ok alloc" and "bi_ok b" and "\<not> inline_range (bi_val b)"
  shows "int_result h (bi_val b) (box_word alloc h b)"
proof (cases "alloc h")
  case None
  then show ?thesis using assms by (simp add: box_word_def int_result_def)
next
  case (Some a)
  then have a: "h a = None" "a AND 1 = 0" using assms(1) by (simp_all add: alloc_ok_def)
  note bits = box_bits [OF a(2)]
  have w: "word_boxed (a OR boxed_bit)" "word_box (a OR boxed_bit) = a"
    using bits by (simp_all only: word_boxed_def word_box_def boxed_bit_def) simp
  have "h \<subseteq>\<^sub>m h(a \<mapsto> b)" using a(1) by (auto simp: map_le_def)
  then show ?thesis
    using Some w assms by (simp add: box_word_def int_result_def word_ok_def int_val_def word_value_def)
qed

lemma canonical_result:
  assumes "alloc_ok alloc" and "bi_ok b" and "n = bi_val b"
  shows "int_result h n (canonical_word alloc h b)"
proof (cases "inline_range (bi_val b)")
  case True
  define v :: u64 where "v = word_of_int (bi_val b)"
  have r: "- (2 ^ 63) \<le> bi_val b" "bi_val b < 2 ^ 63"
    using True by (simp_all add: inline_range_def inline_min_def inline_max_def)
  then have v: "sint v = bi_val b"
    by (simp add: v_def sint_sbintrunc' signed_take_bit_int_eq_self)
  then have i: "small_inline v" using True by (simp add: small_inline_def inline_range_def)
  have "canonical_word alloc h b = Inr (small_word v, h)"
    using r i by (simp add: canonical_word_def bigint_exact_i64_spec [OF assms(2)] v_def)
  then show ?thesis using inline_result [OF i, of h] v assms(3) by simp
next
  case False
  have "canonical_word alloc h b = box_word alloc h b"
    using False
    by (auto simp: canonical_word_def bigint_exact_i64_spec [OF assms(2)] small_inline_def inline_range_def
        sint_sbintrunc' signed_take_bit_int_eq_self)
  then show ?thesis using box_result [OF assms(1,2) False] assms(3) by simp
qed

lemma from_i64_result:
  assumes "alloc_ok alloc" and "n = sint v"
  shows "int_result h n (word_from_i64 alloc h v)"
  using inline_result [of v h] box_result [OF assms(1) from_i64_ok, of v h] assms(2)
  by (auto simp: word_from_i64_def small_inline_def inline_range_def)

text \<open>An allocator for evaluation: it boxes at one address, once.\<close>

definition alloc_once :: allocator where
  "alloc_once h = (if h 16 = None then Some 16 else None)"

lemma alloc_once_ok: "alloc_ok alloc_once"
  by (auto simp: alloc_ok_def alloc_once_def)

lemma small_word_ok: "word_ok h (small_word v)"
  by (simp add: word_ok_def small_word_not_boxed)

lemma small_word_val: "small_inline v \<Longrightarrow> int_val h (small_word v) = sint v"
  by (simp add: int_val_inline small_word_not_boxed small_word_small)

lemma inline_even:
  assumes "\<not> word_boxed w"
  shows "sint w = 2 * sint (word_small w)"
proof -
  have "w AND 1 = 0" using assms by (simp add: word_boxed_def boxed_bit_def)
  then have "\<not> bit w 0" by (simp only: even_word simp_thms)
  then have "\<not> bit (sint w) 0" by (simp add: bit_sint_iff)
  then show ?thesis by (simp add: sint_word_small bit_0)
qed

lemma inline_order:
  assumes "\<not> word_boxed l" and "\<not> word_boxed r"
  shows "sint l < sint r \<longleftrightarrow> int_val h l < int_val h r" and "sint r < sint l \<longleftrightarrow> int_val h r < int_val h l"
  using inline_even [OF assms(1)] inline_even [OF assms(2)] assms by (simp_all add: int_val_inline)

lemma int_compare_val:
  assumes "word_ok h l" and "word_ok h r"
  shows "quidra_int_compare h l r = sgn (int_val h l - int_val h r)"
  using word_value_ok [OF assms(1)] word_value_ok [OF assms(2)] inline_order [of l r h]
  by (auto simp: quidra_int_compare_def cmp_val int_val_def [symmetric] sgn_if)

lemma zero_word: "word_ok h 0" "int_val h 0 = 0"
  by (simp_all add: word_ok_def int_val_inline word_boxed_def boxed_bit_def word_small_def)

section \<open>Properties\<close>

text \<open>
  C5: addition, subtraction, multiplication and negation of \<open>int\<close> words compute over the integers,
  whatever the mix of inline and boxed operands: the inline fast paths never wrap, the result is a
  canonical word, and only a value outside the inline range can fail, by allocation.
\<close>

theorem int_ring_ops_correct:
  assumes "alloc_ok alloc" and "word_ok h l" and "word_ok h r"
  shows "int_result h (int_val h l + int_val h r) (quidra_int_add alloc h l r)
    \<and> int_result h (int_val h l - int_val h r) (quidra_int_sub alloc h l r)
    \<and> int_result h (int_val h l * int_val h r) (quidra_int_mul alloc h l r)
    \<and> int_result h (- int_val h l) (quidra_int_neg alloc h l)"
proof -
  note rl = word_small_range [of l, unfolded inline_min_def inline_max_def]
    and rr = word_small_range [of r, unfolded inline_min_def inline_max_def]
  note ok = word_value_ok [OF assms(2)] word_value_ok [OF assms(3)]
  note can = canonical_result [OF assms(1)] and i64 = from_i64_result [OF assms(1)]
  have "int_result h (int_val h l + int_val h r) (quidra_int_add alloc h l r)"
    using rl rr ok sint_fits(1) [of "word_small l" "word_small r"]
    by (auto simp: quidra_int_add_def int_val_inline intro!: can i64) (simp_all add: int_val_def)
  moreover have "int_result h (int_val h l - int_val h r) (quidra_int_sub alloc h l r)"
    using rl rr ok sint_fits(2) [of "word_small l" "word_small r"]
    by (auto simp: quidra_int_sub_def int_val_inline intro!: can i64) (simp_all add: int_val_def)
  moreover have "int_result h (int_val h l * int_val h r) (quidra_int_mul alloc h l r)"
  proof (cases "\<not> word_boxed l \<and> \<not> word_boxed r \<and> \<bar>sint (word_small l)\<bar> < 2 ^ 31 \<and> \<bar>sint (word_small r)\<bar> < 2 ^ 31")
    case True
    then have "\<bar>sint (word_small l) * sint (word_small r)\<bar> \<le> 2 ^ 31 * 2 ^ 31"
      unfolding abs_mult by (intro mult_mono) auto
    then have "sint (word_small l * word_small r) = sint (word_small l) * sint (word_small r)"
      by (intro sint_fits) simp_all
    then show ?thesis
      using True by (auto simp: quidra_int_mul_def Let_def int_val_inline abs_less_iff intro!: i64)
  next
    case False
    then have "quidra_int_mul alloc h l r = canonical_word alloc h (mul (word_value h l) (word_value h r))"
      by (auto simp: quidra_int_mul_def Let_def abs_less_iff)
    then show ?thesis using ok by (auto simp: int_val_def intro!: can)
  qed
  moreover have "int_result h (- int_val h l) (quidra_int_neg alloc h l)"
    using rl ok sint_fits(4) [of "word_small l"]
    by (auto simp: quidra_int_neg_def int_val_inline intro!: can i64) (simp_all add: int_val_def word_value_def)
  ultimately show ?thesis by blast
qed

theorem int_ring_ops_correct_witness:
  "int_result Map.empty (2 ^ 63 - 2) (quidra_int_add alloc_once Map.empty (small_word (2 ^ 62 - 1)) (small_word (2 ^ 62 - 1)))"
proof -
  have "int_val Map.empty (small_word (2 ^ 62 - 1)) = 2 ^ 62 - 1"
    by (simp add: small_word_val small_inline_def inline_min_def inline_max_def sint_u64)
  then show ?thesis
    using int_ring_ops_correct [OF alloc_once_ok small_word_ok small_word_ok, of Map.empty "2 ^ 62 - 1" "2 ^ 62 - 1"]
    by simp
qed

text \<open>
  C6: division and remainder of \<open>int\<close> words truncate toward zero over the integers and fail exactly
  on a zero divisor; \<open>quidra_nat_sub\<close> is the difference, failing exactly when it is negative.
\<close>

theorem int_division_correct:
  assumes "alloc_ok alloc" and "word_ok h l" and "word_ok h r"
  shows "(if int_val h r = 0
      then quidra_int_div alloc h l r = Inl Division_By_Zero \<and> quidra_int_rem alloc h l r = Inl Division_By_Zero
      else int_result h (int_val h l sdiv int_val h r) (quidra_int_div alloc h l r)
        \<and> int_result h (int_val h l smod int_val h r) (quidra_int_rem alloc h l r))
    \<and> (if int_val h l < int_val h r then quidra_nat_sub alloc h l r = Inl Nat_Negative
       else int_result h (int_val h l - int_val h r) (quidra_nat_sub alloc h l r))"
proof
  note ok = word_value_ok [OF assms(2)] word_value_ok [OF assms(3)]
  note can = canonical_result [OF assms(1)]
  show "if int_val h r = 0
      then quidra_int_div alloc h l r = Inl Division_By_Zero \<and> quidra_int_rem alloc h l r = Inl Division_By_Zero
      else int_result h (int_val h l sdiv int_val h r) (quidra_int_div alloc h l r)
        \<and> int_result h (int_val h l smod int_val h r) (quidra_int_rem alloc h l r)"
  proof (cases "sign (word_value h r) = 0")
    case True
    then show ?thesis
      using ok by (simp add: quidra_int_div_def quidra_int_rem_def divmod_def int_val_def)
  next
    case False
    obtain q m where d: "divmod (word_value h l) (word_value h r) = Inr (q, m)" "bi_ok q" "bi_ok m"
      "bi_val q = int_val h l sdiv int_val h r" "bi_val m = int_val h l smod int_val h r"
      unfolding int_val_def by (rule divmod_ok_val [OF ok False])
    have "int_val h r \<noteq> 0" using False ok by (simp add: int_val_def)
    then show ?thesis
      using d by (simp add: quidra_int_div_def quidra_int_rem_def can)
  qed
  show "if int_val h l < int_val h r then quidra_nat_sub alloc h l r = Inl Nat_Negative
       else int_result h (int_val h l - int_val h r) (quidra_nat_sub alloc h l r)"
    using ok bi_ok_sign [OF sub_ok [OF ok]]
    by (auto simp: quidra_nat_sub_def Let_def int_val_def sgn_if intro!: can)
qed

theorem int_division_correct_witness:
  "quidra_int_div alloc_once Map.empty (small_word 7) (small_word 0) = Inl Division_By_Zero"
proof -
  have "int_val Map.empty (small_word 0) = 0"
    by (simp add: small_word_val small_inline_def inline_min_def inline_max_def sint_u64)
  then show ?thesis
    using int_division_correct [OF alloc_once_ok small_word_ok small_word_ok, of Map.empty 0 7] by simp
qed

text \<open>
  C28: \<open>quidra_int_pow\<close> returns on every pair of words: it is the power for a non-negative exponent,
  fails on a negative exponent, and, unlike the boxed \<open>quidra_bigint_pow\<close>, fails on \<open>0^0\<close>.
\<close>

theorem int_pow_correct:
  assumes "alloc_ok alloc" and "word_ok h l" and "word_ok h r"
  shows "if int_val h r < 0 then quidra_int_pow alloc h l r = Inl Negative_Integer_Exponent
    else if int_val h l = 0 \<and> int_val h r = 0
      then quidra_int_pow alloc h l r = Inl Zero_Power_Zero
        \<and> (\<exists>b. quidra_bigint_pow (Some (word_value h l)) (Some (word_value h r)) = Inr b \<and> bi_val b = 1)
    else int_result h (int_val h l ^ nat (int_val h r)) (quidra_int_pow alloc h l r)"
proof -
  note ok = word_value_ok [OF assms(2)] word_value_ok [OF assms(3)]
  have sg: "sign (word_value h l) = 0 \<longleftrightarrow> int_val h l = 0" "sign (word_value h r) = 0 \<longleftrightarrow> int_val h r = 0"
    "sign (word_value h r) < 0 \<longleftrightarrow> int_val h r < 0"
    using ok bi_ok_sign [OF ok(1)] bi_ok_sign [OF ok(2)] by (simp_all add: int_val_def sgn_0_0)
  consider "int_val h r < 0" | "0 \<le> int_val h r" by linarith
  then show ?thesis
  proof cases
    case 1
    then show ?thesis by (simp add: quidra_int_pow_def sg del: bi_ok_sign_0)
  next
    case 2
    then obtain p where p: "bigint_pow_loop (from_u64 1) (word_value h l) (word_value h r) = Some p"
      "bi_ok p" "bi_val p = int_val h l ^ nat (int_val h r)"
      using bigint_pow_loop_spec [OF from_u64_ok [of 1] ok] by (auto simp: int_val_def)
    then show ?thesis
      using 2 sg canonical_result [OF assms(1) p(2)]
      by (auto simp: quidra_int_pow_def quidra_bigint_pow_def Let_def simp del: bi_ok_sign_0)
  qed
qed

theorem int_pow_correct_witness:
  "quidra_int_pow alloc_once Map.empty (small_word 0) (small_word 0) = Inl Zero_Power_Zero"
proof -
  have "int_val Map.empty (small_word 0) = 0"
    by (simp add: small_word_val small_inline_def inline_min_def inline_max_def sint_u64)
  then show ?thesis
    using int_pow_correct [OF alloc_once_ok small_word_ok small_word_ok, of Map.empty 0 0] by simp
qed

text \<open>
  comparison of words compares their values, and the words order and identify values as
  \<open>bare_integer_layout\<close> says: two words of which one is inline are equal exactly when their values
  are, and inline words order like their values.
\<close>

theorem int_compare_correct:
  assumes "word_ok h l" and "word_ok h r"
  shows "quidra_int_compare h l r = sgn (int_val h l - int_val h r)
    \<and> (\<not> word_boxed l \<longrightarrow> (l = r \<longleftrightarrow> int_val h l = int_val h r))
    \<and> (\<not> word_boxed l \<and> \<not> word_boxed r \<longrightarrow> (sint l < sint r \<longleftrightarrow> int_val h l < int_val h r))"
proof -
  note order = inline_order [of l r h]
  have "quidra_int_compare h l r = sgn (int_val h l - int_val h r)" by (rule int_compare_val [OF assms])
  moreover have "l = r" if "\<not> word_boxed l" "int_val h l = int_val h r"
  proof -
    have "\<not> word_boxed r" using that inline_iff [OF assms(1)] inline_iff [OF assms(2)] by simp
    then have "sint l = sint r" using order that by (metis linorder_neqE_linordered_idom less_irrefl)
    then show ?thesis by (rule signed_word_eqI)
  qed
  ultimately show ?thesis using order by auto
qed

theorem int_compare_correct_witness:
  "quidra_int_compare Map.empty (small_word 3) (small_word 5) = - 1"
proof -
  have "int_val Map.empty (small_word 3) = 3" "int_val Map.empty (small_word 5) = 5"
    by (simp_all add: small_word_val small_inline_def inline_min_def inline_max_def sint_u64)
  then show ?thesis using int_compare_correct [OF small_word_ok small_word_ok, of Map.empty 3 5] by simp
qed

text \<open>The fixed-width conversions and the word of an unsigned number.\<close>

lemma try_i64_val:
  assumes "word_ok h w"
  shows "quidra_int_try_i64 h w bits =
    (if 0 < bits \<and> bits \<le> 64 \<and> - (2 ^ nat (bits - 1)) \<le> int_val h w \<and> int_val h w < 2 ^ nat (bits - 1)
     then Some (int_val h w) else None)"
proof (cases "word_boxed w")
  case True
  then show ?thesis using word_value_ok [OF assms] by (simp add: quidra_int_try_i64_def word_value_def bigint_try_i64_spec int_val_def)
next
  case False
  then show ?thesis
    using sint_u64_range [of "word_small w"]
    by (cases "bits = 64") (auto simp: quidra_int_try_i64_def small_fits_signed_def int_val_inline)
qed

lemma to_u64_checked_val:
  assumes "word_ok h w"
  shows "quidra_int_to_u64_checked h w bits =
    (if 0 < bits \<and> bits \<le> 64 \<and> 0 \<le> int_val h w \<and> int_val h w < 2 ^ nat bits
     then Inr (nat (int_val h w)) else Inl Out_Of_Range)"
proof (cases "word_boxed w")
  case True
  note ok = word_value_ok [OF assms]
  have "the (h (word_box w)) = word_value h w" using True by (simp add: word_value_def)
  then show ?thesis
    using True ok bi_ok_sign [OF ok]
    by (simp add: quidra_int_to_u64_checked_def quidra_int_try_u64_def bigint_try_u64_spec int_val_def sgn_if)
next
  case False
  have u: "0 \<le> sint (word_small w) \<Longrightarrow> int (unat (word_small w)) = sint (word_small w)"
    using unat_u64_lt [of "word_small w"] by (simp add: sint_u64 split: if_splits)
  have le: "unat (word_small w) \<le> 2 ^ k - Suc 0 \<longleftrightarrow> sint (word_small w) < 2 ^ k"
    if "0 \<le> sint (word_small w)" for k
  proof -
    have "(0::nat) < 2 ^ k" by simp
    then have "unat (word_small w) \<le> 2 ^ k - Suc 0 \<longleftrightarrow> unat (word_small w) < 2 ^ k" by linarith
    also have "\<dots> \<longleftrightarrow> int (unat (word_small w)) < int (2 ^ k)" by (simp only: of_nat_less_iff)
    finally show ?thesis using u [OF that] by simp
  qed
  show ?thesis
    using False u sint_u64_range [of "word_small w"]
    by (cases "bits = 64")
      (auto simp: quidra_int_to_u64_checked_def quidra_int_try_u64_def small_fits_unsigned_def int_val_inline le)
qed

lemma from_u64_result:
  assumes "alloc_ok alloc"
  shows "int_result h (int (unat u)) (quidra_int_from_u64 alloc h u)"
proof (cases "int (unat u) \<le> inline_max")
  case True
  then have "sint u = int (unat u)" by (simp add: sint_u64 inline_max_def)
  then show ?thesis
    using True inline_result [of u h] by (simp add: quidra_int_from_u64_def small_inline_def inline_min_def)
next
  case False
  then show ?thesis
    using box_result [OF assms from_u64_ok, of u h] by (simp add: quidra_int_from_u64_def inline_range_def)
qed

text \<open>
  C29: text and conversions of \<open>int\<close> words depend on the value alone: the text is the decimal text and
  parses back to the value, a fixed-width conversion succeeds exactly on the values of that width, a
  conversion from an unsigned 64-bit value is exact, and the step check of a \<open>for\<close> header fails exactly
  on a zero or wrongly directed step, quoting the step.
\<close>

theorem int_text_and_conversions:
  assumes "alloc_ok alloc" and "word_ok h w"
  shows "quidra_int_text h w = int_text (int_val h w)
    \<and> (\<exists>r. quidra_int_parse alloc h (quidra_int_text h w) = Some r \<and> int_result h (int_val h w) r)
    \<and> quidra_int_to_i64_checked h w bits =
      (if 0 < bits \<and> bits \<le> 64 \<and> - (2 ^ nat (bits - 1)) \<le> int_val h w \<and> int_val h w < 2 ^ nat (bits - 1)
       then Inr (int_val h w) else Inl Out_Of_Range)
    \<and> quidra_int_to_u64_checked h w bits =
      (if 0 < bits \<and> bits \<le> 64 \<and> 0 \<le> int_val h w \<and> int_val h w < 2 ^ nat bits
       then Inr (nat (int_val h w)) else Inl Out_Of_Range)
    \<and> int_result h (int (unat u)) (quidra_int_from_u64 alloc h u)
    \<and> quidra_for_step_check h w descending =
      (if int_val h w = 0 then Some For_Step_Zero
       else if (int_val h w < 0) = descending then None
       else Some ((if descending then For_Step_Descending else For_Step_Ascending) (int_text (int_val h w))))"
proof (intro conjI)
  note ok = word_value_ok [OF assms(2)]
  have box: "the (h (word_box w)) = word_value h w" if "word_boxed w"
    using that by (simp add: word_value_def)
  show t: "quidra_int_text h w = int_text (int_val h w)"
    using ok by (simp add: quidra_int_text_def box int_val_inline bigint_text_val int_val_def [symmetric])
  show "\<exists>r. quidra_int_parse alloc h (quidra_int_text h w) = Some r \<and> int_result h (int_val h w) r"
  proof -
    obtain b where "bigint_parse (int_text (int_val h w)) = Some b" "bi_ok b" "bi_val b = int_val h w"
      using bigint_parse_spec [of "int_text (int_val h w)"] int_text_literal [of "int_val h w"] by auto
    then show ?thesis unfolding t quidra_int_parse_def by (simp add: canonical_result [OF assms(1)])
  qed
  show "quidra_int_to_i64_checked h w bits =
      (if 0 < bits \<and> bits \<le> 64 \<and> - (2 ^ nat (bits - 1)) \<le> int_val h w \<and> int_val h w < 2 ^ nat (bits - 1)
       then Inr (int_val h w) else Inl Out_Of_Range)"
    by (simp add: quidra_int_to_i64_checked_def try_i64_val [OF assms(2)])
  show "quidra_int_to_u64_checked h w bits =
      (if 0 < bits \<and> bits \<le> 64 \<and> 0 \<le> int_val h w \<and> int_val h w < 2 ^ nat bits
       then Inr (nat (int_val h w)) else Inl Out_Of_Range)"
    by (rule to_u64_checked_val [OF assms(2)])
  show "int_result h (int (unat u)) (quidra_int_from_u64 alloc h u)"
    by (rule from_u64_result [OF assms(1)])
  have "quidra_int_compare h w 0 = sgn (int_val h w)"
    using int_compare_val [OF assms(2) zero_word(1)] by (simp add: zero_word)
  then show "quidra_for_step_check h w descending =
      (if int_val h w = 0 then Some For_Step_Zero
       else if (int_val h w < 0) = descending then None
       else Some ((if descending then For_Step_Descending else For_Step_Ascending) (int_text (int_val h w))))"
    using ok by (auto simp: quidra_for_step_check_def Let_def bigint_text_val int_val_def [symmetric] sgn_0_0)
qed

theorem int_text_and_conversions_witness:
  "quidra_int_to_u64_checked Map.empty (small_word 255) 8 = Inr 255
    \<and> quidra_for_step_check Map.empty (small_word 255) True = Some (For_Step_Descending (int_text 255))"
proof -
  have "int_val Map.empty (small_word 255) = 255"
    by (simp add: small_word_val small_inline_def inline_min_def inline_max_def sint_u64)
  then show ?thesis
    using int_text_and_conversions [OF alloc_once_ok small_word_ok, of Map.empty 255 8 0 True] by simp
qed

end
