(* ===== verification/Utf8.thy ===== *)
theory Utf8
  imports Prelude
begin

unbundle bit_operations_syntax

text \<open>
  UTF-8 validation of source text: \<open>invalid_utf8_offset\<close> and \<open>source_position_at\<close> of
  \<open>src/lexer.cpp\<close>. Text is a list of bytes. The specification is the Unicode encoding itself
  (\<open>utf8_encode\<close> of a scalar value); the property says that the scan finds exactly the first offset
  at which no encoding of a scalar value starts.
\<close>

section \<open>The scan\<close>

text \<open>\<open>static_cast<unsigned char>\<close>, widened as the code's integer operations widen it.\<close>

definition byte :: "char \<Rightarrow> u32" where
  "byte c = of_nat (of_char c)"

text \<open>Width, first value bits and smallest value of a sequence, from its first byte.\<close>

definition lead_byte :: "u32 \<Rightarrow> (nat \<times> u32 \<times> u32) option" where
  "lead_byte first =
     (if first AND 0xe0 = 0xc0 then Some (2, first AND 0x1f, 0x80)
      else if first AND 0xf0 = 0xe0 then Some (3, first AND 0x0f, 0x800)
      else if first AND 0xf8 = 0xf0 then Some (4, first AND 0x07, 0x10000)
      else None)"

fun continuation :: "string \<Rightarrow> u32 \<Rightarrow> u32 option" where
  "continuation [] value = Some value"
| "continuation (c # cs) value =
     (if byte c AND 0xc0 \<noteq> 0x80 then None
      else continuation cs (push_bit 6 value OR (byte c AND 0x3f)))"

lemma lead_byte_width: "lead_byte first = Some (width, value, minimum) \<Longrightarrow> 1 < width"
  by (auto simp: lead_byte_def split: if_splits)

function invalid_utf8_from :: "string \<Rightarrow> nat \<Rightarrow> nat option" where
  "invalid_utf8_from t index =
     (if index < length t then
        let first = byte (t ! index)
        in if first \<le> 0x7f then invalid_utf8_from t (index + 1)
           else case lead_byte first of
                  None \<Rightarrow> Some index
                | Some (width, value, minimum) \<Rightarrow>
                    if index + width > length t then Some index
                    else case continuation (take (width - 1) (drop (index + 1) t)) value of
                           None \<Rightarrow> Some index
                         | Some v \<Rightarrow>
                             if v < minimum \<or> v > 0x10ffff \<or> (0xd800 \<le> v \<and> v \<le> 0xdfff) then Some index
                             else invalid_utf8_from t (index + width)
      else None)"
  by pat_completeness auto
termination
  by (relation "measure (\<lambda>(t, index). length t - index)") (auto dest: lead_byte_width)

declare invalid_utf8_from.simps [simp del]

text \<open>\<open>None\<close> is \<open>npos\<close>: the text is valid.\<close>

definition invalid_utf8_offset :: "string \<Rightarrow> nat option" where
  "invalid_utf8_offset t = invalid_utf8_from t 0"

record source_pos =
  pos_offset :: nat
  pos_line :: nat
  pos_column :: nat

definition start_pos :: source_pos where
  "start_pos = \<lparr>pos_offset = 0, pos_line = 1, pos_column = 1\<rparr>"

definition step_pos :: "char \<Rightarrow> source_pos \<Rightarrow> source_pos" where
  "step_pos c p =
     (if c = CHR 0x0A then \<lparr>pos_offset = pos_offset p + 1, pos_line = pos_line p + 1, pos_column = 1\<rparr>
      else \<lparr>pos_offset = pos_offset p + 1, pos_line = pos_line p, pos_column = pos_column p + 1\<rparr>)"

definition source_position_at :: "string \<Rightarrow> nat \<Rightarrow> source_pos" where
  "source_position_at t offset = foldl (\<lambda>p c. step_pos c p) start_pos (take offset t)"

section \<open>Unicode encoding\<close>

definition scalar :: "nat \<Rightarrow> bool" where
  "scalar cp \<longleftrightarrow> cp \<le> 0x10ffff \<and> \<not> (0xd800 \<le> cp \<and> cp \<le> 0xdfff)"

definition utf8_encode :: "nat \<Rightarrow> string" where
  "utf8_encode cp =
     map char_of
       (if cp < 0x80 then [cp]
        else if cp < 0x800 then [0xc0 + cp div 64, 0x80 + cp mod 64]
        else if cp < 0x10000 then [0xe0 + cp div 4096, 0x80 + cp div 64 mod 64, 0x80 + cp mod 64]
        else [0xf0 + cp div 262144, 0x80 + cp div 4096 mod 64, 0x80 + cp div 64 mod 64, 0x80 + cp mod 64])"

definition utf8_valid :: "string \<Rightarrow> bool" where
  "utf8_valid t \<longleftrightarrow> (\<exists>cps. (\<forall>cp\<in>set cps. scalar cp) \<and> t = concat (map utf8_encode cps))"

section \<open>Bytes as naturals\<close>

lemma low_bits:
  "unat (w AND 0x1f) = unat w mod 32" "unat (w AND 0x0f) = unat w mod 16" "unat (w AND 0x07) = unat w mod 8"
  "unat (w AND 0x3f) = unat w mod 64" "unat (w AND 0xff) = unat w mod 256" for w :: u32
proof -
  have m: "unat (w AND mask k) = unat w mod 2 ^ k" for k
    unfolding take_bit_eq_mask [symmetric] unsigned_take_bit_eq by (rule take_bit_eq_mod)
  show "unat (w AND 0x1f) = unat w mod 32" "unat (w AND 0x0f) = unat w mod 16" "unat (w AND 0x07) = unat w mod 8"
    "unat (w AND 0x3f) = unat w mod 64" "unat (w AND 0xff) = unat w mod 256"
    using m [of 5] m [of 4] m [of 3] m [of 6] m [of 8] by (simp_all add: mask_eq_exp_minus_1)
qed

lemma high_bits:
  fixes w x y :: u32
  assumes "unat w < 256" and "x AND y = 0" and "x OR y = 0xff"
  shows "unat (w AND x) = unat w - unat (w AND y)"
proof -
  have "w AND (x OR y) = w"
    using assms(1) low_bits(5) [of w] by (simp add: assms(3) word_unat_eq_iff)
  then have "(w AND x) OR (w AND y) = w" by (simp add: bit.conj_disj_distrib)
  moreover have "(w AND x) AND (w AND y) = 0"
    by (metis and.left_commute and.assoc assms(2) bit.conj_zero_right)
  ultimately have "w = (w AND x) + (w AND y)" by (simp add: disjunctive_add_eq_or)
  moreover have "unat (w AND x) \<le> unat w" "unat (w AND y) \<le> unat w"
    by (simp_all add: word_le_nat_alt [symmetric] word_and_le1 word_and_le2)
  then have "unat (w AND x) + unat (w AND y) < 4294967296" using assms(1) by linarith
  then have "unat ((w AND x) + (w AND y)) = unat (w AND x) + unat (w AND y)" by (rule unat_add_small_u32)
  ultimately have "unat w = unat (w AND x) + unat (w AND y)" by simp
  then show ?thesis by simp
qed

lemma byte_facts:
  fixes c defines "b \<equiv> of_char c :: nat"
  shows "byte c \<le> 0x7f \<longleftrightarrow> b < 128" "byte c AND 0xe0 = 0xc0 \<longleftrightarrow> b div 32 = 6"
    "byte c AND 0xf0 = 0xe0 \<longleftrightarrow> b div 16 = 14" "byte c AND 0xf8 = 0xf0 \<longleftrightarrow> b div 8 = 30"
    "byte c AND 0xc0 = 0x80 \<longleftrightarrow> b div 64 = 2" "unat (byte c AND 0x1f) = b mod 32"
    "unat (byte c AND 0x0f) = b mod 16" "unat (byte c AND 0x07) = b mod 8" "unat (byte c AND 0x3f) = b mod 64"
proof -
  have lt: "b < 256" by (simp add: b_def)
  then have "b < 4294967296" by linarith
  then have u: "unat (byte c) = b" using unat_of_nat_u32 [of b] by (simp add: byte_def b_def)
  have up: "b - b mod k = k * q \<longleftrightarrow> b div k = q" if "0 < k" for k q
    using that by (simp add: minus_mod_eq_mult_div)
  show "byte c \<le> 0x7f \<longleftrightarrow> b < 128" using u by (simp add: word_le_nat_alt less_Suc_eq_le [symmetric])
  show "byte c AND 0xe0 = 0xc0 \<longleftrightarrow> b div 32 = 6"
    using high_bits [of "byte c" "0xe0" "0x1f"] u lt up [of 32 6] by (simp add: low_bits word_unat_eq_iff)
  show "byte c AND 0xf0 = 0xe0 \<longleftrightarrow> b div 16 = 14"
    using high_bits [of "byte c" "0xf0" "0x0f"] u lt up [of 16 14] by (simp add: low_bits word_unat_eq_iff)
  show "byte c AND 0xf8 = 0xf0 \<longleftrightarrow> b div 8 = 30"
    using high_bits [of "byte c" "0xf8" "0x07"] u lt up [of 8 30] by (simp add: low_bits word_unat_eq_iff)
  show "byte c AND 0xc0 = 0x80 \<longleftrightarrow> b div 64 = 2"
    using high_bits [of "byte c" "0xc0" "0x3f"] u lt up [of 64 2] by (simp add: low_bits word_unat_eq_iff)
  show "unat (byte c AND 0x1f) = b mod 32" "unat (byte c AND 0x0f) = b mod 16"
    "unat (byte c AND 0x07) = b mod 8" "unat (byte c AND 0x3f) = b mod 64"
    by (simp_all add: low_bits u)
qed
lemma shift_in:
  assumes "unat v < 2 ^ 20" and "unat x < 64"
  shows "unat (push_bit 6 v OR x :: u32) = unat v * 64 + unat x"
proof -
  have p: "unat (push_bit 6 v) = unat v * 64"
    using assms(1) by (simp add: push_bit_eq_mult word_nat)
  have z: "push_bit 6 v AND x = 0"
  proof (rule bit_word_eqI)
    fix n assume "n < LENGTH(32)"
    have "\<not> bit x n" if "6 \<le> n"
    proof -
      have "x = take_bit 6 x" using assms(2) by (simp add: word_unat_eq_iff unsigned_take_bit_eq take_bit_nat_eq_self)
      then show ?thesis using that by (metis bit_take_bit_iff not_less)
    qed
    then show "bit (push_bit 6 v AND x) n = bit (0 :: u32) n"
      by (cases "6 \<le> n") (simp_all add: bit_and_iff bit_push_bit_iff)
  qed
  then have "push_bit 6 v OR x = push_bit 6 v + x" by (simp add: disjunctive_add_eq_or)
  then show ?thesis using p assms by (simp add: word_nat)
qed

lemma div_mod_parts: "q < n \<Longrightarrow> (k * n + q) div n = k \<and> (k * n + q) mod n = (q::nat)"
  by simp

lemma lead_arith:
  "q < 32 \<Longrightarrow> (192 + q) div 32 = 6 \<and> (192 + q) mod 32 = (q::nat)"
  "q < 16 \<Longrightarrow> (224 + q) div 16 = 14 \<and> (224 + q) mod 16 = (q::nat)"
  "q < 8 \<Longrightarrow> (240 + q) div 8 = 30 \<and> (240 + q) mod 8 = (q::nat)"
  "q < 64 \<Longrightarrow> (128 + q) div 64 = 2 \<and> (128 + q) mod 64 = (q::nat)"
  using div_mod_parts [of q 32 6] div_mod_parts [of q 16 14] div_mod_parts [of q 8 30] div_mod_parts [of q 64 2]
  by simp_all

lemma lead_back:
  "b div 32 = 6 \<Longrightarrow> b = 192 + b mod (32::nat)"
  "b div 16 = 14 \<Longrightarrow> b = 224 + b mod (16::nat)"
  "b div 8 = 30 \<Longrightarrow> b = 240 + b mod (8::nat)"
  "b div 64 = 2 \<Longrightarrow> b = 128 + b mod (64::nat)"
  using div_mult_mod_eq [of b 32] div_mult_mod_eq [of b 16] div_mult_mod_eq [of b 8] div_mult_mod_eq [of b 64]
  by simp_all

lemma continuation_spec:
  "(unat v + 1) * 64 ^ length cs \<le> 2 ^ 26 \<Longrightarrow>
    map_option unat (continuation cs v) =
      (if \<forall>c\<in>set cs. of_char c div 64 = (2::nat)
       then Some (foldl (\<lambda>v c. v * 64 + of_char c mod 64) (unat v) cs) else None)"
proof (induction cs arbitrary: v)
  case (Cons c cs)
  let ?v = "push_bit 6 v OR (byte c AND 0x3f)"
  have "(unat v + 1) * 64 * 1 \<le> (unat v + 1) * 64 * 64 ^ length cs" by (intro mult_le_mono2) simp
  also have "\<dots> = (unat v + 1) * 64 ^ length (c # cs)" by (simp add: algebra_simps)
  also have "\<dots> \<le> 2 ^ 26" by (rule Cons.prems)
  finally have "unat v < 2 ^ 20" by simp
  then have v: "unat ?v = unat v * 64 + of_char c mod 64"
    by (subst shift_in) (simp_all add: byte_facts)
  have "(unat ?v + 1) * 64 ^ length cs \<le> (unat v + 1) * 64 * 64 ^ length cs"
    unfolding v by (intro mult_le_mono1) (simp add: mod_less_divisor less_iff_Suc_add [symmetric] Suc_le_eq)
  also have "\<dots> \<le> 2 ^ 26" using Cons.prems by (simp add: algebra_simps)
  finally show ?case using Cons.IH [of ?v] by (cases "\<forall>c\<in>set cs. of_char c div 64 = (2::nat)") (auto simp: byte_facts v)
qed simp
text \<open>The encoding as numbers, and one step of the scan on the rest of the text.\<close>

definition utf8_bytes :: "nat \<Rightarrow> nat list" where
  "utf8_bytes cp =
     (if cp < 0x80 then [cp]
      else if cp < 0x800 then [0xc0 + cp div 64, 0x80 + cp mod 64]
      else if cp < 0x10000 then [0xe0 + cp div 4096, 0x80 + cp div 64 mod 64, 0x80 + cp mod 64]
      else [0xf0 + cp div 262144, 0x80 + cp div 4096 mod 64, 0x80 + cp div 64 mod 64, 0x80 + cp mod 64])"

definition utf8_step :: "string \<Rightarrow> nat option" where
  "utf8_step s =
     (if byte (hd s) \<le> 0x7f then Some 1
      else case lead_byte (byte (hd s)) of
             None \<Rightarrow> None
           | Some (width, value, minimum) \<Rightarrow>
               if width > length s then None
               else case continuation (take (width - 1) (tl s)) value of
                      None \<Rightarrow> None
                    | Some v \<Rightarrow>
                        if v < minimum \<or> v > 0x10ffff \<or> (0xd800 \<le> v \<and> v \<le> 0xdfff) then None
                        else Some width)"

lemma invalid_utf8_step:
  "invalid_utf8_from t index =
    (if index < length t then
       case utf8_step (drop index t) of None \<Rightarrow> Some index | Some w \<Rightarrow> invalid_utf8_from t (index + w)
     else None)"
proof (cases "index < length t")
  case True
  have h: "hd (drop index t) = t ! index" "tl (drop index t) = drop (index + 1) t"
    using True by (simp_all add: hd_drop_conv_nth drop_Suc tl_drop)
  have l: "length (drop index t) = length t - index" by simp
  have w: "width > length t - index \<longleftrightarrow> index + width > length t" for width using True by auto
  show ?thesis
    using True by (subst invalid_utf8_from.simps)
      (simp add: utf8_step_def h l w Let_def split: option.split prod.split)
next
  case False
  then show ?thesis by (subst invalid_utf8_from.simps) simp
qed

lemma utf8_bytes_less: "scalar cp \<Longrightarrow> \<forall>b\<in>set (utf8_bytes cp). b < 256"
  by (auto simp: utf8_bytes_def scalar_def less_mult_imp_div_less)

lemma utf8_encode_bytes: "utf8_encode cp = map char_of (utf8_bytes cp)"
  by (simp add: utf8_encode_def utf8_bytes_def)

lemma utf8_encode_iff:
  assumes "scalar cp"
  shows "take w s = utf8_encode cp \<longleftrightarrow> map of_char (take w s) = utf8_bytes cp"
proof
  assume "take w s = utf8_encode cp"
  then have "map of_char (take w s) = map (\<lambda>b. of_char (char_of b :: char)) (utf8_bytes cp)"
    by (simp add: utf8_encode_bytes)
  also have "\<dots> = utf8_bytes cp" using utf8_bytes_less [OF assms] by (intro map_idI) (simp add: of_char_of)
  finally show "map of_char (take w s) = utf8_bytes cp" .
next
  assume "map of_char (take w s) = utf8_bytes cp"
  then have "map char_of (map (of_char :: char \<Rightarrow> nat) (take w s)) = utf8_encode cp"
    by (simp add: utf8_encode_bytes)
  then show "take w s = utf8_encode cp" by (simp add: map_idI)
qed

lemma three_digits: "x < 16 \<Longrightarrow> y < 64 \<Longrightarrow> z < 64 \<Longrightarrow> (x * 64 + y) * 64 + z < (0x10000::nat)"
proof -
  assume "x < 16" "y < 64" "z < 64"
  moreover have "(x * 64 + y) * 64 + z = 4096 * x + 64 * y + z" by simp
  ultimately show ?thesis by linarith
qed

lemma shift_parts: "(k * 64 + b mod 64) div 64 = (k::nat)" "(k * 64 + b mod 64) mod 64 = b mod (64::nat)"
  by simp_all

lemma utf8_bytes_decode:
  "b < 128 \<Longrightarrow> utf8_bytes b = [b]"
  "b1 div 32 = 6 \<Longrightarrow> b2 div 64 = 2 \<Longrightarrow> v = b1 mod 32 * 64 + b2 mod 64 \<Longrightarrow> 0x80 \<le> v \<Longrightarrow> utf8_bytes v = [b1, b2]"
  "b1 div 16 = 14 \<Longrightarrow> b2 div 64 = 2 \<Longrightarrow> b3 div 64 = 2 \<Longrightarrow>
    v = (b1 mod 16 * 64 + b2 mod 64) * 64 + b3 mod 64 \<Longrightarrow> 0x800 \<le> v \<Longrightarrow> utf8_bytes v = [b1, b2, b3]"
  "b1 div 8 = 30 \<Longrightarrow> b2 div 64 = 2 \<Longrightarrow> b3 div 64 = 2 \<Longrightarrow> b4 div 64 = 2 \<Longrightarrow>
    v = ((b1 mod 8 * 64 + b2 mod 64) * 64 + b3 mod 64) * 64 + b4 mod 64 \<Longrightarrow> 0x10000 \<le> v \<Longrightarrow>
    utf8_bytes v = [b1, b2, b3, b4]"
proof -
  show "b < 128 \<Longrightarrow> utf8_bytes b = [b]" by (simp add: utf8_bytes_def)
next
  assume a: "b1 div 32 = 6" "b2 div 64 = 2" "v = b1 mod 32 * 64 + b2 mod 64" "0x80 \<le> v"
  have "b1 mod 32 < 32" "b2 mod 64 < 64" by simp_all
  then have "v < 0x800" using a(3) by linarith
  moreover have "v div 64 = b1 mod 32" "v mod 64 = b2 mod 64" using a(3) by simp_all
  ultimately show "utf8_bytes v = [b1, b2]"
    using a(4) lead_back(1) [OF a(1)] lead_back(4) [OF a(2)] by (simp add: utf8_bytes_def)
next
  assume a: "b1 div 16 = 14" "b2 div 64 = 2" "b3 div 64 = 2"
    "v = (b1 mod 16 * 64 + b2 mod 64) * 64 + b3 mod 64" "0x800 \<le> v"
  have "b1 mod 16 < 16" "b2 mod 64 < 64" "b3 mod 64 < 64" by simp_all
  then have "v < 0x10000" using a(4) three_digits [of "b1 mod 16" "b2 mod 64" "b3 mod 64"] by simp
  moreover have d: "v div 64 = b1 mod 16 * 64 + b2 mod 64" "v mod 64 = b3 mod 64"
    unfolding a(4) by (rule shift_parts)+
  moreover have "v div 4096 = b1 mod 16"
    using div_mult2_eq [of v 64 64] by (simp only: d shift_parts) (simp add: d shift_parts)
  ultimately show "utf8_bytes v = [b1, b2, b3]"
    using a(5) lead_back(2) [OF a(1)] lead_back(4) [OF a(2)] lead_back(4) [OF a(3)] by (simp add: utf8_bytes_def)
next
  assume a: "b1 div 8 = 30" "b2 div 64 = 2" "b3 div 64 = 2" "b4 div 64 = 2"
    "v = ((b1 mod 8 * 64 + b2 mod 64) * 64 + b3 mod 64) * 64 + b4 mod 64" "0x10000 \<le> v"
  have d: "v div 64 = (b1 mod 8 * 64 + b2 mod 64) * 64 + b3 mod 64" "v mod 64 = b4 mod 64"
    unfolding a(5) by (rule shift_parts)+
  have "v div 4096 = v div 64 div 64" using div_mult2_eq [of v 64 64] by simp
  then have e: "v div 4096 = b1 mod 8 * 64 + b2 mod 64" unfolding d shift_parts .
  moreover have "v div 262144 = b1 mod 8" using div_mult2_eq [of v 4096 64] by (simp add: e)
  moreover have "v div 64 mod 64 = b3 mod 64" "v div 4096 mod 64 = b2 mod 64"
    unfolding e unfolding d by (rule shift_parts)+
  ultimately show "utf8_bytes v = [b1, b2, b3, b4]"
    using a(6) d(2) lead_back(3) [OF a(1)] lead_back(4) [OF a(2)] lead_back(4) [OF a(3)] lead_back(4) [OF a(4)]
    by (simp add: utf8_bytes_def)
qed

lemma lead_byte_cases:
  assumes "lead_byte (byte c) = Some (width, value, minimum)"
  obtains "width = 2" "of_char c div 32 = (6::nat)" "unat value = of_char c mod 32" "unat minimum = 0x80"
  | "width = 3" "of_char c div 16 = (14::nat)" "unat value = of_char c mod 16" "unat minimum = 0x800"
  | "width = 4" "of_char c div 8 = (30::nat)" "unat value = of_char c mod 8" "unat minimum = 0x10000"
  using assms by (auto simp: lead_byte_def byte_facts split: if_splits)

lemma scalar_word:
  "\<not> (v > 0x10ffff \<or> (0xd800 \<le> v \<and> v \<le> 0xdfff)) \<longleftrightarrow> scalar (unat v)" for v :: u32
  by (auto simp: scalar_def word_le_nat_alt word_less_nat_alt not_less)

lemma utf8_step_sound:
  assumes "s \<noteq> []" and "utf8_step s = Some w"
  shows "w \<le> length s \<and> (\<exists>cp. scalar cp \<and> take w s = utf8_encode cp)"
proof -
  define c where "c = hd s"
  have s: "s = c # tl s" using assms(1) by (simp add: c_def)
  have enc: "take w s = utf8_encode cp" if "scalar cp" "map of_char (take w s) = utf8_bytes cp" for cp
    using that utf8_encode_iff by blast
  show ?thesis
  proof (cases "byte c \<le> 0x7f")
    case True
    then have b: "of_char c < (128::nat)" and "w = 1"
      using assms by (simp_all add: utf8_step_def c_def byte_facts)
    then have "map of_char (take w s) = utf8_bytes (of_char c)"
      by (subst s) (simp add: utf8_bytes_decode)
    moreover have "scalar (of_char c)" using b by (simp add: scalar_def)
    ultimately show ?thesis using enc \<open>w = 1\<close> assms(1) by (cases s) auto
  next
    case False
    then obtain v0 minimum v where l: "lead_byte (byte c) = Some (w, v0, minimum)"
      and len: "w \<le> length s" and v: "continuation (take (w - 1) (tl s)) v0 = Some v"
      and ok: "\<not> v < minimum" "scalar (unat v)"
      using assms(2) by (auto simp: utf8_step_def c_def scalar_word [symmetric] not_less split: option.splits if_splits prod.splits)
    define cs where "cs = take (w - 1) (tl s)"
    have lc: "length cs = w - 1" using len by (simp add: cs_def)
    have tw: "take w s = c # cs" using lead_byte_width [OF l] by (subst s) (simp add: cs_def take_Cons')
    have b: "(unat v0 + 1) * 64 ^ length cs \<le> 2 ^ 26"
      using l
    proof (cases rule: lead_byte_cases)
      case 1
      then have "unat v0 < 32" by simp
      then show ?thesis using 1 lc by simp
    next
      case 2
      then have "unat v0 < 16" by simp
      then show ?thesis using 2 lc by simp
    next
      case 3
      then have "unat v0 < 8" by simp
      then show ?thesis using 3 lc by simp
    qed
    have "continuation cs v0 = Some v" using v by (simp only: cs_def)
    then have cont: "\<forall>c\<in>set cs. of_char c div 64 = (2::nat)"
      "unat v = foldl (\<lambda>v c. v * 64 + of_char c mod 64) (unat v0) cs"
      using continuation_spec [OF b] by (simp_all split: if_splits)
    have m: "unat minimum \<le> unat v" using ok(1) by (simp add: word_less_nat_alt not_less)
    have "map of_char (c # cs) = utf8_bytes (unat v)"
      using l
    proof (cases rule: lead_byte_cases)
      case 1
      then have "length cs = Suc 0" using lc by simp
      then obtain c2 where cs: "cs = [c2]" by (auto simp: length_Suc_conv)
      have "utf8_bytes (unat v) = [of_char c, of_char c2]"
        using 1 cont m unfolding cs by (intro utf8_bytes_decode(2)) simp_all
      then show ?thesis by (simp add: cs)
    next
      case 2
      then have "length cs = Suc (Suc 0)" using lc by simp
      then obtain c2 c3 where cs: "cs = [c2, c3]" by (auto simp: length_Suc_conv)
      have "utf8_bytes (unat v) = [of_char c, of_char c2, of_char c3]"
        using 2 cont m unfolding cs by (intro utf8_bytes_decode(3)) simp_all
      then show ?thesis by (simp add: cs)
    next
      case 3
      then have "length cs = Suc (Suc (Suc 0))" using lc by simp
      then obtain c2 c3 c4 where cs: "cs = [c2, c3, c4]" by (auto simp: length_Suc_conv)
      have "utf8_bytes (unat v) = [of_char c, of_char c2, of_char c3, of_char c4]"
        using 3 cont m unfolding cs by (intro utf8_bytes_decode(4)) simp_all
      then show ?thesis by (simp add: cs)
    qed
    then show ?thesis using enc ok(2) tw len by auto
  qed
qed

lemma lead_byte_of:
  "of_char c div 32 = (6::nat) \<Longrightarrow> lead_byte (byte c) = Some (2, byte c AND 0x1f, 0x80) \<and> \<not> byte c \<le> 0x7f"
  "of_char c div 16 = (14::nat) \<Longrightarrow> lead_byte (byte c) = Some (3, byte c AND 0x0f, 0x800) \<and> \<not> byte c \<le> 0x7f"
  "of_char c div 8 = (30::nat) \<Longrightarrow> lead_byte (byte c) = Some (4, byte c AND 0x07, 0x10000) \<and> \<not> byte c \<le> 0x7f"
proof -
  define b :: nat where "b = of_char c"
  have d: "b div 32 = b div 16 div 2" "b div 16 = b div 8 div 2" by (simp_all flip: div_mult2_eq)
  show "of_char c div 32 = (6::nat) \<Longrightarrow> lead_byte (byte c) = Some (2, byte c AND 0x1f, 0x80) \<and> \<not> byte c \<le> 0x7f"
    using lead_back(1) [of b] by (simp add: lead_byte_def byte_facts b_def)
  show "of_char c div 16 = (14::nat) \<Longrightarrow> lead_byte (byte c) = Some (3, byte c AND 0x0f, 0x800) \<and> \<not> byte c \<le> 0x7f"
    using lead_back(2) [of b] d by (simp add: lead_byte_def byte_facts b_def)
  show "of_char c div 8 = (30::nat) \<Longrightarrow> lead_byte (byte c) = Some (4, byte c AND 0x07, 0x10000) \<and> \<not> byte c \<le> 0x7f"
    using lead_back(3) [of b] d by (simp add: lead_byte_def byte_facts b_def)
qed

lemma horner64: "cp div 64 * 64 + cp mod 64 = (cp::nat)" "cp div 4096 * 64 + cp div 64 mod 64 = cp div 64"
  "cp div 262144 * 64 + cp div 4096 mod 64 = cp div 4096"
proof -
  show "cp div 64 * 64 + cp mod 64 = cp" by simp
  show "cp div 4096 * 64 + cp div 64 mod 64 = cp div 64"
    using div_mult_mod_eq [of "cp div 64" 64] by (simp add: div_mult2_eq [symmetric])
  show "cp div 262144 * 64 + cp div 4096 mod 64 = cp div 4096"
    using div_mult_mod_eq [of "cp div 4096" 64] by (simp add: div_mult2_eq [symmetric])
qed

lemma horner_sum: "4096 * (cp div 4096) + cp div 64 mod 64 * 64 + cp mod 64 = (cp::nat)"
  "262144 * (cp div 262144) + 4096 * (cp div 4096 mod 64) + cp div 64 mod 64 * 64 + cp mod 64 = (cp::nat)"
proof -
  show "4096 * (cp div 4096) + cp div 64 mod 64 * 64 + cp mod 64 = cp"
    using horner64 (1,2) [of cp] by linarith
  then show "262144 * (cp div 262144) + 4096 * (cp div 4096 mod 64) + cp div 64 mod 64 * 64 + cp mod 64 = cp"
    using horner64 (3) [of cp] by linarith
qed

lemma utf8_step_complete:
  assumes "scalar cp" and "utf8_bytes cp = map of_char (take w s)" and "w = length (utf8_bytes cp)" and "s \<noteq> []"
  shows "utf8_step s = Some w"
proof -
  define c where "c = hd s"
  have s: "s = c # tl s" using assms(4) by (simp add: c_def)
  define cs where "cs = take (w - 1) (tl s)"
  have "0 < w" using assms(3) by (simp add: utf8_bytes_def)
  then have tw: "take w s = c # cs" by (subst s) (simp add: cs_def take_Cons')
  have eq: "utf8_bytes cp = of_char c # map of_char cs" using assms(2) tw by simp
  have len: "w \<le> length s" using assms(2,3) by (metis length_map length_take min.bounded_iff order_refl)
  have lc: "length cs = w - 1" using eq assms(3) by simp
  show ?thesis
  proof (cases "cp < 0x80")
    case True
    then have "of_char c = cp" using eq by (simp add: utf8_bytes_def)
    then have "byte c \<le> 0x7f" using True by (simp add: byte_facts)
    then show ?thesis using True assms(3) by (simp add: utf8_step_def c_def utf8_bytes_def)
  next
    case False
    have "\<exists>v0 minimum. lead_byte (byte c) = Some (w, v0, minimum) \<and> \<not> byte c \<le> 0x7f \<and> unat minimum \<le> cp
      \<and> (unat v0 + 1) * 64 ^ length cs \<le> 2 ^ 26 \<and> (\<forall>c\<in>set cs. of_char c div 64 = (2::nat))
      \<and> foldl (\<lambda>v c. v * 64 + of_char c mod 64) (unat v0) cs = cp"
    proof -
      consider "cp < 0x800" | "0x800 \<le> cp" "cp < 0x10000" | "0x10000 \<le> cp" by linarith
      then show ?thesis
      proof cases
        case 1
        then have q: "cp div 64 < 32" by (simp add: less_mult_imp_div_less)
        obtain c2 where cs: "cs = [c2]" and c: "of_char c = 192 + cp div 64" "of_char c2 = 128 + cp mod 64"
          using eq 1 False by (auto simp: utf8_bytes_def)
        have w: "w = 2" using assms(3) 1 False by (simp add: utf8_bytes_def)
        show ?thesis
          using lead_byte_of(1) [of c] lead_arith(1) [OF q] lead_arith(4) [of "cp mod 64"] False c w q
          by (auto simp: cs byte_facts)
      next
        case 2
        then have q: "cp div 4096 < 16" by (simp add: less_mult_imp_div_less)
        obtain c2 c3 where cs: "cs = [c2, c3]" and c: "of_char c = 224 + cp div 4096"
          "of_char c2 = 128 + cp div 64 mod 64" "of_char c3 = 128 + cp mod 64"
          using eq 2 False by (auto simp: utf8_bytes_def)
        have w: "w = 3" using assms(3) 2 False by (simp add: utf8_bytes_def)
        show ?thesis
          using lead_byte_of(2) [of c] lead_arith(2) [OF q] lead_arith(4) [of "cp mod 64"]
            lead_arith(4) [of "cp div 64 mod 64"] False c w 2 q
          by (auto simp: cs byte_facts horner_sum)
      next
        case 3
        then have q: "cp div 262144 < 8" using assms(1) by (simp add: scalar_def less_mult_imp_div_less)
        obtain c2 c3 c4 where cs: "cs = [c2, c3, c4]" and c: "of_char c = 240 + cp div 262144"
          "of_char c2 = 128 + cp div 4096 mod 64" "of_char c3 = 128 + cp div 64 mod 64" "of_char c4 = 128 + cp mod 64"
          using eq 3 False by (auto simp: utf8_bytes_def)
        have w: "w = 4" using assms(3) 3 False by (simp add: utf8_bytes_def)
        show ?thesis
          using lead_byte_of(3) [of c] lead_arith(3) [OF q] lead_arith(4) [of "cp mod 64"]
            lead_arith(4) [of "cp div 64 mod 64"] lead_arith(4) [of "cp div 4096 mod 64"] False c w 3 q
          by (auto simp: cs byte_facts horner_sum)
      qed
    qed
    then obtain v0 minimum where l: "lead_byte (byte c) = Some (w, v0, minimum)" "\<not> byte c \<le> 0x7f"
      and m: "unat minimum \<le> cp" and b: "(unat v0 + 1) * 64 ^ length cs \<le> 2 ^ 26"
      and cont: "\<forall>c\<in>set cs. of_char c div 64 = (2::nat)"
      and v: "foldl (\<lambda>v c. v * 64 + of_char c mod 64) (unat v0) cs = cp"
      by blast
    obtain v1 where "continuation cs v0 = Some v1" "unat v1 = cp"
      using continuation_spec [OF b] cont v by auto
    then show ?thesis
      using l m len assms(1) scalar_word [of v1]
      by (auto simp: utf8_step_def c_def cs_def word_less_nat_alt not_less)
  qed
qed
section \<open>The offset found\<close>

definition starts_scalar :: "string \<Rightarrow> bool" where
  "starts_scalar s \<longleftrightarrow> (\<exists>cp. scalar cp \<and> take (length (utf8_encode cp)) s = utf8_encode cp)"

lemma utf8_valid_Nil: "utf8_valid []"
  by (auto simp: utf8_valid_def intro: exI [of _ "[]"])

lemma utf8_valid_Cons: "scalar cp \<Longrightarrow> utf8_valid t \<Longrightarrow> utf8_valid (utf8_encode cp @ t)"
  unfolding utf8_valid_def by (metis concat.simps(2) list.simps(9) set_ConsD)

lemma utf8_encode_nonempty: "utf8_encode cp \<noteq> []"
  by (simp add: utf8_encode_def)

lemma utf8_step_iff:
  assumes "s \<noteq> []"
  shows "utf8_step s = None \<longleftrightarrow> \<not> starts_scalar s"
    and "utf8_step s = Some w \<Longrightarrow> 0 < w \<and> w \<le> length s \<and> (\<exists>cp. scalar cp \<and> take w s = utf8_encode cp)"
    and "scalar cp \<Longrightarrow> take (length (utf8_encode cp)) s = utf8_encode cp \<Longrightarrow>
      utf8_step s = Some (length (utf8_encode cp))"
proof -
  show c: "utf8_step s = Some (length (utf8_encode cp))"
    if "scalar cp" "take (length (utf8_encode cp)) s = utf8_encode cp" for cp
  proof -
    have "map of_char (take (length (utf8_encode cp)) s) = utf8_bytes cp"
      using that utf8_encode_iff by blast
    then show ?thesis
      using utf8_step_complete [OF that(1) _ _ assms, of "length (utf8_encode cp)"]
      by (simp add: utf8_encode_bytes)
  qed
  show s: "0 < w \<and> w \<le> length s \<and> (\<exists>cp. scalar cp \<and> take w s = utf8_encode cp)" if "utf8_step s = Some w" for w
    using utf8_step_sound [OF assms that] utf8_encode_nonempty [THEN not_sym] by (cases "w = 0") auto
  show "utf8_step s = None \<longleftrightarrow> \<not> starts_scalar s"
  proof (cases "utf8_step s")
    case None
    then show ?thesis using c unfolding starts_scalar_def by force
  next
    case (Some w)
    then obtain cp where "scalar cp" "take w s = utf8_encode cp" "w \<le> length s" using s by blast
    moreover from this have "length (utf8_encode cp) = w" by (metis length_take min.absorb2)
    ultimately show ?thesis using Some unfolding starts_scalar_def by auto
  qed
qed

lemma invalid_utf8_from_spec:
  "index \<le> length t \<Longrightarrow>
    (case invalid_utf8_from t index of
       None \<Rightarrow> utf8_valid (drop index t)
     | Some i \<Rightarrow> index \<le> i \<and> i < length t \<and> utf8_valid (take (i - index) (drop index t))
         \<and> \<not> starts_scalar (drop i t))"
proof (induction "length t - index" arbitrary: index rule: less_induct)
  case less
  show ?case
  proof (cases "index = length t")
    case True
    then show ?thesis by (subst invalid_utf8_step) (simp add: utf8_valid_Nil)
  next
    case False
    let ?s = "drop index t"
    have ne: "?s \<noteq> []" using False less.prems by simp
    show ?thesis
    proof (cases "utf8_step ?s")
      case None
      then have "invalid_utf8_from t index = Some index"
        using False less.prems by (subst invalid_utf8_step) simp
      then show ?thesis using None utf8_step_iff(1) [OF ne] False less.prems by (simp add: utf8_valid_Nil)
    next
      case (Some w)
      then obtain cp where w: "0 < w" "w \<le> length ?s" "scalar cp" "take w ?s = utf8_encode cp"
        using utf8_step_iff(2) [OF ne] by blast
      have eq: "invalid_utf8_from t index = invalid_utf8_from t (index + w)"
        using False less.prems Some by (subst invalid_utf8_step) simp
      have split: "?s = utf8_encode cp @ drop (index + w) t"
        using w(4) append_take_drop_id [of w ?s] by (simp add: add.commute)
      have IH: "case invalid_utf8_from t (index + w) of
          None \<Rightarrow> utf8_valid (drop (index + w) t)
        | Some i \<Rightarrow> index + w \<le> i \<and> i < length t
            \<and> utf8_valid (take (i - (index + w)) (drop (index + w) t)) \<and> \<not> starts_scalar (drop i t)"
        using w False less.prems by (intro less.hyps) simp_all
      show ?thesis
      proof (cases "invalid_utf8_from t (index + w)")
        case None
        then show ?thesis using IH eq split utf8_valid_Cons [OF w(3)] by simp
      next
        case (Some i)
        then have i: "index + w \<le> i" using IH by simp
        have "take (i - index) ?s = utf8_encode cp @ take (i - (index + w)) (drop (index + w) t)"
        proof -
          have "i - index = w + (i - (index + w))" using i by simp
          then have "take (i - index) ?s = take w ?s @ take (i - (index + w)) (drop w ?s)"
            by (simp only: take_add)
          then show ?thesis by (simp only: w(4) drop_drop add.commute)
        qed
        then show ?thesis using IH eq Some utf8_valid_Cons [OF w(3)] by simp
      qed
    qed
  qed
qed

lemma invalid_utf8_valid:
  "drop index t = concat (map utf8_encode cps) \<Longrightarrow> \<forall>cp\<in>set cps. scalar cp \<Longrightarrow> invalid_utf8_from t index = None"
proof (induction cps arbitrary: index)
  case Nil
  then show ?case by (subst invalid_utf8_step) simp
next
  case (Cons cp cps)
  have ne: "drop index t \<noteq> []" using Cons.prems(1) utf8_encode_nonempty [of cp] by auto
  have "utf8_step (drop index t) = Some (length (utf8_encode cp))"
    using Cons.prems by (intro utf8_step_iff(3) [OF ne]) simp_all
  moreover have "drop (length (utf8_encode cp)) (drop index t) = concat (map utf8_encode cps)"
    unfolding Cons.prems(1) by simp
  then have "drop (index + length (utf8_encode cp)) t = concat (map utf8_encode cps)"
    by (simp add: add.commute)
  ultimately show ?case using Cons ne by (subst invalid_utf8_step) simp
qed

text \<open>There is only one offset that is reached through encodings and at which none starts.\<close>

lemma invalid_utf8_prefix:
  "drop index t = concat (map utf8_encode cps) @ r \<Longrightarrow> \<forall>cp\<in>set cps. scalar cp \<Longrightarrow> r \<noteq> [] \<Longrightarrow>
    \<not> starts_scalar r \<Longrightarrow> invalid_utf8_from t index = Some (index + length (concat (map utf8_encode cps)))"
proof (induction cps arbitrary: index)
  case Nil
  then show ?case using utf8_step_iff(1) [of r] by (subst invalid_utf8_step) auto
next
  case (Cons cp cps)
  have ne: "drop index t \<noteq> []" using Cons.prems(1,3) by auto
  then have "index < length t" by simp
  have "utf8_step (drop index t) = Some (length (utf8_encode cp))"
    using Cons.prems by (intro utf8_step_iff(3) [OF ne]) simp_all
  moreover have "drop (length (utf8_encode cp)) (drop index t) = concat (map utf8_encode cps) @ r"
    unfolding Cons.prems(1) by simp
  then have "drop (index + length (utf8_encode cp)) t = concat (map utf8_encode cps) @ r"
    by (simp add: add.commute)
  ultimately show ?case using Cons \<open>index < length t\<close> by (subst invalid_utf8_step) simp
qed

lemma invalid_utf8_unique:
  assumes "i < length t" "utf8_valid (take i t)" "\<not> starts_scalar (drop i t)"
  shows "invalid_utf8_offset t = Some i"
proof -
  obtain cps where cps: "\<forall>cp\<in>set cps. scalar cp" "take i t = concat (map utf8_encode cps)"
    using assms(2) by (auto simp: utf8_valid_def)
  have "drop 0 t = concat (map utf8_encode cps) @ drop i t" by (simp flip: cps(2))
  moreover have "length (concat (map utf8_encode cps)) = i" using assms(1) by (simp flip: cps(2))
  ultimately show ?thesis
    using invalid_utf8_prefix [OF _ cps(1), of 0 t "drop i t"] assms by (simp add: invalid_utf8_offset_def)
qed

lemma invalid_utf8_none: "invalid_utf8_offset t = None \<Longrightarrow> utf8_valid t"
  using invalid_utf8_from_spec [of 0 t] by (simp add: invalid_utf8_offset_def)

lemma invalid_utf8_some:
  assumes "invalid_utf8_offset t = Some i"
  shows "\<not> utf8_valid t \<and> i < length t \<and> utf8_valid (take i t) \<and> \<not> starts_scalar (drop i t)"
proof
  show "\<not> utf8_valid t"
    using assms invalid_utf8_valid [of 0 t] by (auto simp: utf8_valid_def invalid_utf8_offset_def)
  show "i < length t \<and> utf8_valid (take i t) \<and> \<not> starts_scalar (drop i t)"
    using invalid_utf8_from_spec [of 0 t] assms by (simp add: invalid_utf8_offset_def)
qed

text \<open>
  C26: the scan accepts exactly the byte sequences that are a concatenation of the encodings of Unicode
  scalar values (no overlong form, no surrogate, nothing beyond U+10FFFF), and on any other text it
  returns the first offset that is reached through such encodings and at which none starts.
\<close>

theorem invalid_utf8_offset_correct:
  "case invalid_utf8_offset t of
     None \<Rightarrow> utf8_valid t
   | Some i \<Rightarrow> \<not> utf8_valid t \<and> i < length t \<and> utf8_valid (take i t) \<and> \<not> starts_scalar (drop i t)"
  using invalid_utf8_none [of t] invalid_utf8_some [of t] by (auto split: option.split)

end
