(* ===== verification/Lexer.thy ===== *)
theory Lexer
  imports Utf8
begin

text \<open>
  The lexer of \<open>src/lexer.cpp\<close> (\<open>include/quidra/token.hpp\<close>, \<open>include/quidra/lexer.hpp\<close>): the
  position-tracking cursor, the token scanners, the main loop and the layout pass that turns line
  starts into \<open>Indent\<close> and \<open>Dedent\<close>. Text is a list of bytes; the character classes are those of the
  C locale. An exception is a diagnostic in \<open>Inl\<close>. The theorems show that scanning always ends, that
  tokens tile the source, and that the layout tokens are balanced.
\<close>

section \<open>Tokens\<close>

datatype token_kind =
    Eof | Newline | Indent | Dedent | Pipe | Ampersand |
    Identifier | Integer | RealLiteral | ImaginaryLiteral | String | KwClass |
    KwEnum | KwPrivate | KwPublic | KwImport | KwConst | KwReturn |
    KwIf | KwThen | KwElif | KwElse | KwWhile | KwFor |
    KwMatch | KwTry | KwBreak | KwContinue | KwThis | KwParallel |
    KwTrue | KwFalse | KwNot | KwAnd | KwOr | KwBitNot |
    KwBitAnd | KwBitOr | KwBitXor | LParen | RParen | LBracket |
    RBracket | LBrace | RBrace | Colon | Comma | Semicolon |
    Dot | Assign | PlusAssign | MinusAssign | StarAssign | SlashAssign |
    PercentAssign | Plus | Minus | Star | Slash | Percent |
    Caret | EqEq | NotEq | Less | LessEq | Greater |
    GreaterEq | KwLocal

record source_span =
  span_start :: source_pos
  span_end :: source_pos

record token =
  kind :: token_kind
  text_of :: string
  span :: source_span

record diagnostic =
  code :: string
  message :: string
  at_span :: source_span

fun token_name :: "token_kind \<Rightarrow> string" where
  "token_name Indent = ''indent''"
| "token_name Dedent = ''dedent''"
| "token_name Pipe = ''|''"
| "token_name Ampersand = ''&''"
| "token_name Eof = ''end of file''"
| "token_name Newline = ''newline''"
| "token_name Identifier = ''identifier''"
| "token_name Integer = ''integer''"
| "token_name RealLiteral = ''real''"
| "token_name ImaginaryLiteral = ''imaginary''"
| "token_name String = ''string''"
| "token_name KwClass = ''class''"
| "token_name KwEnum = ''enum''"
| "token_name KwPrivate = ''private''"
| "token_name KwPublic = ''public''"
| "token_name KwImport = ''import''"
| "token_name KwConst = ''const''"
| "token_name KwLocal = ''local''"
| "token_name KwReturn = ''return''"
| "token_name KwIf = ''if''"
| "token_name KwThen = ''then''"
| "token_name KwElif = ''elif''"
| "token_name KwElse = ''else''"
| "token_name KwParallel = ''parallel''"
| "token_name KwWhile = ''while''"
| "token_name KwFor = ''for''"
| "token_name KwMatch = ''match''"
| "token_name KwTry = ''try''"
| "token_name KwBreak = ''break''"
| "token_name KwContinue = ''continue''"
| "token_name KwThis = ''this''"
| "token_name KwTrue = ''true''"
| "token_name KwFalse = ''false''"
| "token_name KwNot = ''not''"
| "token_name KwAnd = ''and''"
| "token_name KwOr = ''or''"
| "token_name KwBitNot = ''NOT''"
| "token_name KwBitAnd = ''AND''"
| "token_name KwBitOr = ''OR''"
| "token_name KwBitXor = ''XOR''"
| "token_name LParen = ''(''"
| "token_name RParen = '')''"
| "token_name LBracket = ''[''"
| "token_name RBracket = '']''"
| "token_name LBrace = ''{''"
| "token_name RBrace = ''}''"
| "token_name Colon = '':''"
| "token_name Comma = '',''"
| "token_name Semicolon = '';''"
| "token_name Dot = ''.''"
| "token_name Assign = ''=''"
| "token_name PlusAssign = ''+=''"
| "token_name MinusAssign = ''-=''"
| "token_name StarAssign = ''*=''"
| "token_name SlashAssign = ''/=''"
| "token_name PercentAssign = ''%=''"
| "token_name Plus = ''+''"
| "token_name Minus = ''-''"
| "token_name Star = ''*''"
| "token_name Slash = ''/''"
| "token_name Percent = ''%''"
| "token_name Caret = ''^''"
| "token_name EqEq = ''==''"
| "token_name NotEq = ''!=''"
| "token_name Less = ''<''"
| "token_name LessEq = ''<=''"
| "token_name Greater = ''>''"
| "token_name GreaterEq = ''>=''"

definition keyword_table :: "(string \<times> token_kind) list" where
  "keyword_table =
     [(''class'', KwClass), (''enum'', KwEnum), (''private'', KwPrivate), (''public'', KwPublic),
      (''import'', KwImport), (''const'', KwConst), (''local'', KwLocal), (''return'', KwReturn),
      (''if'', KwIf), (''then'', KwThen), (''elif'', KwElif), (''else'', KwElse),
      (''parallel'', KwParallel), (''while'', KwWhile), (''for'', KwFor), (''match'', KwMatch),
      (''try'', KwTry), (''break'', KwBreak), (''continue'', KwContinue), (''true'', KwTrue),
      (''false'', KwFalse), (''not'', KwNot), (''and'', KwAnd), (''or'', KwOr),
      (''NOT'', KwBitNot), (''AND'', KwBitAnd), (''OR'', KwBitOr), (''XOR'', KwBitXor)]"

text \<open>\<open>std::isalpha\<close>, \<open>std::isdigit\<close> and \<open>std::isalnum\<close> in the C locale.\<close>

definition is_alpha :: "char \<Rightarrow> bool" where
  "is_alpha c \<longleftrightarrow> (let b = of_char c :: nat in 65 \<le> b \<and> b \<le> 90 \<or> 97 \<le> b \<and> b \<le> 122)"

definition is_alnum :: "char \<Rightarrow> bool" where
  "is_alnum c \<longleftrightarrow> is_alpha c \<or> is_digit c"

section \<open>The cursor\<close>

record lexer =
  source :: string
  index :: nat
  pos :: source_pos

definition eof :: "lexer \<Rightarrow> bool" where
  "eof st \<longleftrightarrow> length (source st) \<le> index st"

definition peek_at :: "lexer \<Rightarrow> nat \<Rightarrow> char" where
  "peek_at st lookahead =
     (if index st + lookahead < length (source st) then source st ! (index st + lookahead) else CHR 0x00)"

abbreviation peek :: "lexer \<Rightarrow> char" where
  "peek st \<equiv> peek_at st 0"

definition advance :: "lexer \<Rightarrow> lexer" where
  "advance st =
     (let c = source st ! index st; p = pos st
      in st\<lparr>index := index st + 1,
            pos := (if c = CHR 0x0A
                    then \<lparr>pos_offset = index st + 1, pos_line = pos_line p + 1, pos_column = 1\<rparr>
                    else \<lparr>pos_offset = index st + 1, pos_line = pos_line p, pos_column = pos_column p + 1\<rparr>)\<rparr>)"

definition match_char :: "char \<Rightarrow> lexer \<Rightarrow> bool \<times> lexer" where
  "match_char c st = (if eof st \<or> peek st \<noteq> c then (False, st) else (True, advance st))"

definition lex_error :: "string \<Rightarrow> string \<Rightarrow> source_pos \<Rightarrow> lexer \<Rightarrow> diagnostic + 'a" where
  "lex_error c m start st =
     Inl \<lparr>code = c, message = m, at_span = \<lparr>span_start = start, span_end = pos st\<rparr>\<rparr>"

definition make :: "token_kind \<Rightarrow> nat \<Rightarrow> source_pos \<Rightarrow> string \<Rightarrow> lexer \<Rightarrow> token" where
  "make k start_index start t st =
     \<lparr>kind = k,
      text_of = (if t = [] \<and> index st > start_index
                 then take (index st - start_index) (drop start_index (source st)) else t),
      span = \<lparr>span_start = start, span_end = pos st\<rparr>\<rparr>"

text \<open>The loops \<open>while (!eof() && p(peek())) advance();\<close>\<close>

function advance_while :: "(char \<Rightarrow> bool) \<Rightarrow> lexer \<Rightarrow> lexer" where
  "advance_while p st = (if \<not> eof st \<and> p (peek st) then advance_while p (advance st) else st)"
  by pat_completeness auto
termination
  by (relation "measure (\<lambda>(p, st). length (source st) - index st)") (auto simp: eof_def advance_def Let_def)

declare advance_while.simps [simp del]

function skip_blanks :: "lexer \<Rightarrow> diagnostic + lexer" where
  "skip_blanks st =
     (if \<not> eof st \<and> (peek st = CHR '' '' \<or> peek st = CHR 0x09 \<or> peek st = CHR 0x0D) then
        (if peek st = CHR 0x09 then lex_error ''INDENTATION'' ''Tabs are prohibited.'' (pos st) st
         else skip_blanks (advance st))
      else Inr st)"
  by pat_completeness auto
termination
  by (relation "measure (\<lambda>st. length (source st) - index st)") (auto simp: eof_def advance_def Let_def)

declare skip_blanks.simps [simp del]

lemma advance_source [simp]: "source (advance st) = source st" "index (advance st) = Suc (index st)"
  by (simp_all add: advance_def Let_def)

lemma advance_while_step:
  "\<not> eof st \<Longrightarrow> p (peek st) \<Longrightarrow> advance_while p st = advance_while p (advance st)"
  "eof st \<or> \<not> p (peek st) \<Longrightarrow> advance_while p st = st"
  by (auto simp: advance_while.simps [of p st])

lemma advance_while_invariant:
  "P st \<Longrightarrow> (\<And>s. P s \<Longrightarrow> \<not> eof s \<Longrightarrow> p (peek s) \<Longrightarrow> P (advance s)) \<Longrightarrow> P (advance_while p st)"
proof (induction p st rule: advance_while.induct)
  case (1 p st)
  show ?case
  proof (cases "\<not> eof st \<and> p (peek st)")
    case True
    then have "P (advance_while p (advance st))" using 1(2,3) by (intro 1(1)) blast+
    then show ?thesis using True advance_while_step(1) by simp
  next
    case False
    then show ?thesis using 1(2) advance_while_step(2) [of st p] by auto
  qed
qed

lemma skip_blanks_step:
  "\<not> eof st \<Longrightarrow> peek st = CHR 0x09 \<Longrightarrow>
    skip_blanks st = lex_error ''INDENTATION'' ''Tabs are prohibited.'' (pos st) st"
  "\<not> eof st \<Longrightarrow> peek st = CHR '' '' \<or> peek st = CHR 0x0D \<Longrightarrow> skip_blanks st = skip_blanks (advance st)"
  "eof st \<or> \<not> (peek st = CHR '' '' \<or> peek st = CHR 0x09 \<or> peek st = CHR 0x0D) \<Longrightarrow> skip_blanks st = Inr st"
  by (auto simp: skip_blanks.simps [of st])

lemma skip_blanks_invariant:
  "skip_blanks st = Inr st' \<Longrightarrow> P st \<Longrightarrow>
    (\<And>s. P s \<Longrightarrow> \<not> eof s \<Longrightarrow> peek s = CHR '' '' \<or> peek s = CHR 0x0D \<Longrightarrow> P (advance s)) \<Longrightarrow> P st'"
proof (induction st rule: skip_blanks.induct)
  case (1 st)
  consider "\<not> eof st" "peek st = CHR 0x09" | "\<not> eof st" "peek st = CHR '' '' \<or> peek st = CHR 0x0D"
    | "eof st \<or> \<not> (peek st = CHR '' '' \<or> peek st = CHR 0x09 \<or> peek st = CHR 0x0D)" by blast
  then show ?case
  proof cases
    case 1
    then show ?thesis using "1.prems"(1) skip_blanks_step(1) [of st] by (simp add: lex_error_def)
  next
    case 2
    then have "skip_blanks (advance st) = Inr st'" using "1.prems"(1) skip_blanks_step(2) [of st] by simp
    moreover have "peek st \<noteq> CHR 0x09" using 2 by auto
    ultimately show ?thesis using 2 "1.prems"(2,3) by (intro "1.IH") auto
  next
    case 3
    then show ?thesis using "1.prems" skip_blanks_step(3) [of st] by simp
  qed
qed

lemma advance_while_bounds: "source (advance_while p st) = source st \<and> index st \<le> index (advance_while p st)"
  by (rule advance_while_invariant) auto

lemma skip_blanks_bounds: "skip_blanks st = Inr st' \<Longrightarrow> source st' = source st \<and> index st \<le> index st'"
  by (rule skip_blanks_invariant) auto

function skip_space_and_comments :: "lexer \<Rightarrow> diagnostic + lexer" where
  "skip_space_and_comments st =
     (case skip_blanks st of
        Inl e \<Rightarrow> Inl e
      | Inr st1 \<Rightarrow>
          if \<not> eof st1 \<and> peek st1 = CHR ''/'' \<and> peek_at st1 1 = CHR ''/''
          then skip_space_and_comments (advance_while (\<lambda>c. c \<noteq> CHR 0x0A) st1)
          else Inr st1)"
  by pat_completeness auto

termination
proof (relation "measure (\<lambda>st. length (source st) - index st)")
  fix st st1 assume st1: "skip_blanks st = Inr st1"
    and c: "\<not> eof st1 \<and> peek st1 = CHR ''/'' \<and> peek_at st1 1 = CHR ''/''"
  have "advance_while (\<lambda>c. c \<noteq> CHR 0x0A) st1 = advance_while (\<lambda>c. c \<noteq> CHR 0x0A) (advance st1)"
    using c by (intro advance_while_step(1)) auto
  then have "source (advance_while (\<lambda>c. c \<noteq> CHR 0x0A) st1) = source st \<and> index st < index (advance_while (\<lambda>c. c \<noteq> CHR 0x0A) st1)"
    using advance_while_bounds [of "\<lambda>c. c \<noteq> CHR 0x0A" "advance st1"] skip_blanks_bounds [OF st1] by auto
  moreover have "index st < length (source st)" using c skip_blanks_bounds [OF st1] by (auto simp: eof_def)
  ultimately show "(advance_while (\<lambda>c. c \<noteq> CHR 0x0A) st1, st) \<in> measure (\<lambda>st. length (source st) - index st)"
    by auto
qed auto

declare skip_space_and_comments.simps [simp del]

section \<open>Token scanners\<close>

text \<open>Every scanner returns its token and the cursor behind it.\<close>

definition identifier_token :: "lexer \<Rightarrow> token \<times> lexer" where
  "identifier_token st0 =
     (let st = advance_while (\<lambda>c. is_alnum c \<or> c = CHR ''_'') (advance st0);
          t = take (index st - index st0) (drop (index st0) (source st))
      in (case map_of keyword_table t of
            Some k \<Rightarrow> make k (index st0) (pos st0) t st
          | None \<Rightarrow> make Identifier (index st0) (pos st0) t st, st))"

definition number_fraction :: "lexer \<Rightarrow> bool \<times> lexer" where
  "number_fraction st =
     (if \<not> eof st \<and> peek st = CHR ''.'' \<and> is_digit (peek_at st 1)
      then (True, advance_while is_digit (advance st)) else (False, st))"

definition number_exponent :: "source_pos \<Rightarrow> bool \<Rightarrow> lexer \<Rightarrow> diagnostic + lexer" where
  "number_exponent start has_decimal_point st =
     (if \<not> eof st \<and> (peek st = CHR ''e'' \<or> peek st = CHR ''E'') then
        if \<not> has_decimal_point
        then lex_error ''LEX_ERROR'' ''Exponent notation requires an explicit decimal point, for example 1.0e8.'' start st
        else let st1 = advance st;
                 st2 = (if \<not> eof st1 \<and> (peek st1 = CHR ''+'' \<or> peek st1 = CHR ''-'') then advance st1 else st1)
             in if eof st2 \<or> \<not> is_digit (peek st2)
                then lex_error ''LEX_ERROR'' ''Malformed real literal exponent.'' start st2
                else Inr (advance_while is_digit st2)
      else Inr st)"

definition number_token :: "lexer \<Rightarrow> diagnostic + token \<times> lexer" where
  "number_token st0 =
     (let st1 = advance_while is_digit st0
      in if index st1 = index st0 + 1 \<and> source st0 ! index st0 = CHR ''0''
              \<and> peek st1 \<in> {CHR ''x'', CHR ''X'', CHR ''b'', CHR ''B'', CHR ''o'', CHR ''O''}
         then lex_error ''LEX_ERROR''
                ''Base-prefixed numeric literals are not supported; integer literals use decimal notation.'' (pos st0) st1
         else let (floating, st2) = number_fraction st1
              in bind_r (number_exponent (pos st0) floating st2) (\<lambda>st3.
                   if \<not> eof st3 \<and> peek st3 = CHR ''i'' \<and> \<not> (is_alnum (peek_at st3 1) \<or> peek_at st3 1 = CHR ''_'')
                   then let st4 = advance st3
                        in Inr (make ImaginaryLiteral (index st0) (pos st0) [] st4, st4)
                   else Inr (make (if floating then RealLiteral else Integer) (index st0) (pos st0) [] st3, st3)))"

text \<open>
  The body of a string literal: the text read so far, the interpolation depth, and whether a nested
  string of an interpolation is open.
\<close>

function string_loop :: "source_pos \<Rightarrow> string \<Rightarrow> int \<Rightarrow> bool \<Rightarrow> lexer \<Rightarrow> diagnostic + token \<times> lexer" where
  "string_loop start acc depth nested st =
     (if eof st then lex_error ''LEX_ERROR'' ''Unterminated string literal.'' start st
      else let c = peek st; push = (\<lambda>depth nested. string_loop start (acc @ [c]) depth nested (advance st))
        in if c = CHR 0x00 then lex_error ''LEX_ERROR'' ''NUL is not allowed in source strings.'' start st
           else if c = CHR 0x0D \<and> peek_at st 1 = CHR 0x0A
             then string_loop start (acc @ [CHR 0x0A]) depth nested (advance (advance st))
           else if depth = 0 \<and> c = CHR 0x22
             then let st' = advance st
                  in Inr (\<lparr>kind = String, text_of = acc, span = \<lparr>span_start = start, span_end = pos st'\<rparr>\<rparr>, st')
           else if depth = 0 \<and> c = CHR ''{'' \<and> peek_at st 1 = CHR ''{''
             then string_loop start (acc @ [c, CHR ''{'']) depth nested (advance (advance st))
           else if depth = 0 \<and> c = CHR ''{'' then push (depth + 1) nested
           else if depth > 0 \<and> nested then push depth (if c = CHR 0x22 then False else nested)
           else if depth > 0 \<and> c = CHR 0x22 then push depth True
           else if depth > 0 \<and> c = CHR ''{'' then push (depth + 1) nested
           else if depth > 0 \<and> c = CHR ''}'' then push (depth - 1) nested
           else push depth nested)"
  by pat_completeness auto
termination
  by (relation "measure (\<lambda>(start, acc, depth, nested, st). length (source st) - index st)") (auto simp: eof_def)

declare string_loop.simps [simp del]

definition string_token :: "lexer \<Rightarrow> diagnostic + token \<times> lexer" where
  "string_token st = string_loop (pos st) [] 0 False (advance st)"

definition single_symbol :: "char \<Rightarrow> token_kind option" where
  "single_symbol c =
     map_of [(CHR ''|'', Pipe), (CHR ''&'', Ampersand), (CHR ''('', LParen), (CHR '')'', RParen),
       (CHR ''['', LBracket), (CHR '']'', RBracket), (CHR ''{'', LBrace), (CHR ''}'', RBrace),
       (CHR '':'', Colon), (CHR '','', Comma), (CHR '';'', Semicolon), (CHR ''.'', Dot), (CHR ''^'', Caret)] c"

definition assign_symbol :: "char \<Rightarrow> (token_kind \<times> token_kind) option" where
  "assign_symbol c =
     map_of [(CHR ''+'', PlusAssign, Plus), (CHR ''-'', MinusAssign, Minus), (CHR ''*'', StarAssign, Star),
       (CHR ''/'', SlashAssign, Slash), (CHR ''%'', PercentAssign, Percent), (CHR ''='', EqEq, Assign),
       (CHR ''<'', LessEq, Less), (CHR ''>'', GreaterEq, Greater)] c"

definition symbol :: "lexer \<Rightarrow> diagnostic + token \<times> lexer" where
  "symbol st0 =
     (let c = peek st0; st = advance st0; mk = (\<lambda>k st'. Inr (make k (index st0) (pos st0) [] st', st'))
      in case single_symbol c of
           Some k \<Rightarrow> mk k st
         | None \<Rightarrow>
             case assign_symbol c of
               Some (with_eq, without) \<Rightarrow>
                 let (m, st') = match_char (CHR ''='') st in mk (if m then with_eq else without) st'
             | None \<Rightarrow>
                 if c = CHR ''!'' then
                   let (m, st') = match_char (CHR ''='') st
                   in if \<not> m then lex_error ''LEX_ERROR'' ''Expected  after  .'' (pos st0) st'
                      else mk NotEq st'
                 else lex_error ''LEX_ERROR'' ''Unexpected character in source.'' (pos st0) st)"

text \<open>One turn of the main loop, from a position that is not blank.\<close>

definition scan_token :: "lexer \<Rightarrow> diagnostic + token \<times> lexer" where
  "scan_token st =
     (let c = peek st
      in if c = CHR 0x00 then lex_error ''LEX_ERROR'' ''NUL bytes are not allowed in Quidra source.'' (pos st) st
         else if c = CHR 0x0A then
           let st' = advance st in Inr (make Newline (index st) (pos st) [CHR 0x0A] st', st')
         else if is_alpha c \<or> c = CHR ''_'' then Inr (identifier_token st)
         else if is_digit c then number_token st
         else if c = CHR 0x22 then string_token st
         else symbol st)"

section \<open>Progress of the scanners\<close>

text \<open>
  Every scanner moves by \<open>advance\<close> alone, and only before the end: what \<open>advance\<close> keeps holds behind
  the token if it holds behind its first character.
\<close>

definition kept :: "(lexer \<Rightarrow> bool) \<Rightarrow> bool" where
  "kept P \<longleftrightarrow> (\<forall>s. P s \<longrightarrow> \<not> eof s \<longrightarrow> P (advance s))"

lemma keptD: "kept P \<Longrightarrow> P s \<Longrightarrow> \<not> eof s \<Longrightarrow> P (advance s)"
  by (simp add: kept_def)

lemma kept_while: "kept P \<Longrightarrow> P st \<Longrightarrow> P (advance_while p st)"
  by (erule advance_while_invariant) (simp add: kept_def)

lemma kept_while_first:
  "kept P \<Longrightarrow> \<not> eof st \<Longrightarrow> p (peek st) \<Longrightarrow> P (advance st) \<Longrightarrow> P (advance_while p st)"
  by (simp add: advance_while_step(1) kept_while)

lemma kept_match: "kept P \<Longrightarrow> P st \<Longrightarrow> match_char c st = (m, st') \<Longrightarrow> P st'"
  by (auto simp: match_char_def keptD split: if_splits)

lemma peek_not_nul: "peek_at st k \<noteq> CHR 0x00 \<Longrightarrow> index st + k < length (source st)"
  by (auto simp: peek_at_def split: if_splits)

lemma peek_next_eof: "peek_at st 1 = c \<Longrightarrow> c \<noteq> CHR 0x00 \<Longrightarrow> \<not> eof (advance st)"
  using peek_not_nul [of st 1] by (simp add: eof_def)

text \<open>One turn of the string loop: it closes the literal, or goes on one or two characters further.\<close>

lemma string_loop_turn:
  assumes "string_loop start acc depth nested st = Inr (t, st')"
  shows "\<not> eof st \<and>
    (st' = advance st \<and> t = \<lparr>kind = String, text_of = acc, span = \<lparr>span_start = start, span_end = pos st'\<rparr>\<rparr>
     \<or> (\<exists>acc depth nested. string_loop start acc depth nested (advance st) = Inr (t, st'))
     \<or> \<not> eof (advance st) \<and> (\<exists>acc depth nested. string_loop start acc depth nested (advance (advance st)) = Inr (t, st')))"
proof -
  note nl = peek_next_eof [of st "CHR 0x0A"] and br = peek_next_eof [of st "CHR ''{''"]
  show ?thesis
    using assms nl br unfolding string_loop.simps [of start acc depth nested st] Let_def lex_error_def
    by (simp split: if_splits) blast+
qed

lemma kept_string_loop:
  "string_loop start acc depth nested st = Inr (t, st') \<Longrightarrow> kept P \<Longrightarrow> P st \<Longrightarrow> P st'"
proof (induction "length (source st) - index st" arbitrary: acc depth nested st rule: less_induct)
  case less
  note turn = string_loop_turn [OF less.prems(1)]
  then have ne: "\<not> eof st" by blast
  have P1: "P (advance st)" using less.prems ne keptD by blast
  have P2: "P (advance (advance st))" if "\<not> eof (advance st)" using less.prems(2) P1 that keptD by blast
  have m: "length (source (advance st)) - index (advance st) < length (source st) - index st"
    "length (source (advance (advance st))) - index (advance (advance st)) < length (source st) - index st"
    using ne by (auto simp: eof_def)
  consider "st' = advance st" | acc depth nested where "string_loop start acc depth nested (advance st) = Inr (t, st')"
    | acc depth nested where "\<not> eof (advance st)" "string_loop start acc depth nested (advance (advance st)) = Inr (t, st')"
    using turn by blast
  then show ?case
  proof cases
    case 1
    then show ?thesis using P1 by blast
  next
    case 2
    then show ?thesis using less.hyps m(1) less.prems(2) P1 by blast
  next
    case 3
    then show ?thesis using less.hyps m(2) less.prems(2) P2 by blast
  qed
qed

lemma kept_exponent:
  assumes "number_exponent start f st = Inr st'" and "kept P" and "P st"
  shows "P st'"
proof (cases "\<not> eof st \<and> (peek st = CHR ''e'' \<or> peek st = CHR ''E'')")
  case False
  then have "st' = st" using assms(1) unfolding number_exponent_def by (simp split: if_split_asm)
  then show ?thesis using assms(3) by simp
next
  case True
  define st1 where "st1 = advance st"
  define st2 where "st2 = (if \<not> eof st1 \<and> (peek st1 = CHR ''+'' \<or> peek st1 = CHR ''-'') then advance st1 else st1)"
  have P1: "P st1" unfolding st1_def using True assms(2,3) keptD by blast
  have "P st2"
  proof (cases "\<not> eof st1 \<and> (peek st1 = CHR ''+'' \<or> peek st1 = CHR ''-'')")
    case True
    then have "st2 = advance st1" unfolding st2_def by (rule if_P)
    then show ?thesis using P1 True assms(2) keptD by blast
  next
    case False
    then have "st2 = st1" unfolding st2_def by (rule if_not_P)
    then show ?thesis using P1 by blast
  qed
  moreover have "st' = advance_while is_digit st2"
    using assms(1) unfolding number_exponent_def Let_def lex_error_def if_P [OF True]
      st1_def [symmetric] st2_def [symmetric] by (simp split: if_split_asm)
  ultimately show ?thesis using assms(2) kept_while by blast
qed

lemma kept_fraction:
  assumes "number_fraction st = (f, st')" and "kept P" and "P st"
  shows "P st'"
proof (cases "\<not> eof st \<and> peek st = CHR ''.'' \<and> is_digit (peek_at st 1)")
  case True
  then have "st' = advance_while is_digit (advance st)"
    using assms(1) unfolding number_fraction_def if_P [OF True] by blast
  then show ?thesis using True assms(2,3) keptD kept_while by blast
next
  case False
  then have "st' = st" using assms(1) unfolding number_fraction_def if_not_P [OF False] by blast
  then show ?thesis using assms(3) by simp
qed

text \<open>The kinds of identifiers, literals and symbols other than string literals.\<close>

definition plain :: "token_kind \<Rightarrow> bool" where
  "plain k \<longleftrightarrow> k \<noteq> String \<and> k \<noteq> Newline \<and> k \<noteq> Indent \<and> k \<noteq> Dedent \<and> k \<noteq> Eof"

lemma number_token_parts:
  assumes "number_token st = Inr (t, st')"
  obtains f st2 st3 where "number_fraction (advance_while is_digit st) = (f, st2)"
    and "number_exponent (pos st) f st2 = Inr st3"
    and "st' = st3 \<or> \<not> eof st3 \<and> st' = advance st3"
    and "\<exists>k. t = make k (index st) (pos st) [] st' \<and> plain k"
proof -
  obtain f st2 where f: "number_fraction (advance_while is_digit st) = (f, st2)"
    by (cases "number_fraction (advance_while is_digit st)")
  define rest where "rest = (\<lambda>st3. if \<not> eof st3 \<and> peek st3 = CHR ''i'' \<and> \<not> (is_alnum (peek_at st3 1) \<or> peek_at st3 1 = CHR ''_'')
      then Inr (make ImaginaryLiteral (index st) (pos st) [] (advance st3), advance st3)
      else Inr (make (if f then RealLiteral else Integer) (index st) (pos st) [] st3, st3) :: diagnostic + token \<times> lexer)"
  have "bind_r (number_exponent (pos st) f st2) rest = Inr (t, st')"
    using assms unfolding number_token_def Let_def f prod.case lex_error_def rest_def by (simp split: if_split_asm)
  then obtain st3 where e: "number_exponent (pos st) f st2 = Inr st3" and r: "rest st3 = Inr (t, st')"
    by (auto simp: bind_r_eq_Inr)
  define i where "i \<longleftrightarrow> \<not> eof st3 \<and> peek st3 = CHR ''i'' \<and> \<not> (is_alnum (peek_at st3 1) \<or> peek_at st3 1 = CHR ''_'')"
  show ?thesis
  proof (cases i)
    case True
    then have "st' = advance st3" "t = make ImaginaryLiteral (index st) (pos st) [] st'"
      using r unfolding rest_def i_def [symmetric] by auto
    moreover have "\<not> eof st3" using True unfolding i_def by blast
    moreover have "plain ImaginaryLiteral" by (simp add: plain_def)
    ultimately show ?thesis by (intro that [OF f e]) blast+
  next
    case False
    then have "st' = st3" "t = make (if f then RealLiteral else Integer) (index st) (pos st) [] st'"
      using r unfolding rest_def i_def [symmetric] by auto
    moreover have "plain (if f then RealLiteral else Integer)" by (simp add: plain_def)
    ultimately show ?thesis by (intro that [OF f e]) blast+
  qed
qed

lemma kept_number:
  assumes "number_token st = Inr (t, st')" and "\<not> eof st" and "is_digit (peek st)" and "kept P" and "P (advance st)"
  shows "P st'"
proof -
  obtain f st2 st3 where n: "number_fraction (advance_while is_digit st) = (f, st2)"
    "number_exponent (pos st) f st2 = Inr st3" "st' = st3 \<or> \<not> eof st3 \<and> st' = advance st3"
    by (rule number_token_parts [OF assms(1)])
  have "P (advance_while is_digit st)" by (rule kept_while_first [of P st is_digit, OF assms(4,2,3,5)])
  with n(1) assms(4) have "P st2" by (rule kept_fraction)
  with n(2) assms(4) have "P st3" by (rule kept_exponent)
  then show ?thesis using n(3) assms(4) keptD by blast
qed

lemma symbol_kinds:
  "single_symbol c = Some k \<Longrightarrow> plain k"
  "assign_symbol c = Some (k1, k2) \<Longrightarrow> plain k1 \<and> plain k2"
  by (auto simp: single_symbol_def assign_symbol_def plain_def split: if_split_asm)

lemma symbol_parts:
  assumes "symbol st = Inr (t, st')"
  shows "(st' = advance st \<or> st' = snd (match_char (CHR ''='') (advance st)))
    \<and> (\<exists>k. t = make k (index st) (pos st) [] st' \<and> plain k)"
proof (cases "single_symbol (peek st)")
  case (Some k)
  then have "st' = advance st" "t = make k (index st) (pos st) [] st'"
    using assms unfolding symbol_def Let_def by auto
  then show ?thesis using symbol_kinds(1) [OF Some] by blast
next
  case None
  obtain m st2 where m: "match_char (CHR ''='') (advance st) = (m, st2)"
    by (cases "match_char (CHR ''='') (advance st)")
  show ?thesis
  proof (cases "assign_symbol (peek st)")
    case (Some kk)
    obtain k1 k2 where kk: "kk = (k1, k2)" by (cases kk)
    have "st' = st2" "t = make (if m then k1 else k2) (index st) (pos st) [] st'"
      using assms None Some kk m unfolding symbol_def Let_def by auto
    then show ?thesis using symbol_kinds(2) [OF Some [unfolded kk]] m by (metis snd_conv)
  next
    case none: None
    then have "st' = st2" "t = make NotEq (index st) (pos st) [] st'"
      using assms None m unfolding symbol_def Let_def lex_error_def by (auto split: if_split_asm)
    moreover have "plain NotEq" by (simp add: plain_def)
    ultimately show ?thesis using m by (metis snd_conv)
  qed
qed

lemma kept_symbol:
  assumes "symbol st = Inr (t, st')" and "kept P" and "P (advance st)"
  shows "P st'"
  using symbol_parts [OF assms(1)] assms(3) kept_match [OF assms(2,3)] by (metis prod.collapse)

lemma scan_token_cases:
  assumes "scan_token st = Inr (t, st')"
  obtains "peek st = CHR 0x0A" "st' = advance st" "t = make Newline (index st) (pos st) [CHR 0x0A] st'"
  | "identifier_token st = (t, st')"
  | "is_digit (peek st)" "number_token st = Inr (t, st')"
  | "string_token st = Inr (t, st')"
  | "symbol st = Inr (t, st')"
  using assms by (auto simp: scan_token_def Let_def lex_error_def split: if_split_asm)

lemma kept_scan_token:
  assumes "scan_token st = Inr (t, st')" and "\<not> eof st" and "kept P" and "P (advance st)"
  shows "P st'"
  using assms(1)
proof (cases rule: scan_token_cases)
  case 2
  then show ?thesis using assms(3,4) by (auto simp: identifier_token_def Let_def intro: kept_while)
next
  case 3
  then show ?thesis using kept_number assms by blast
next
  case 4
  then show ?thesis using kept_string_loop assms(3,4) unfolding string_token_def by blast
next
  case 5
  then show ?thesis using kept_symbol assms(3,4) by blast
qed (use assms in auto)

lemma scan_token_bounds:
  assumes "scan_token st = Inr (t, st')" and "\<not> eof st"
  shows "source st' = source st \<and> index st < index st'"
  by (rule kept_scan_token [OF assms]) (auto simp: kept_def)

lemma kept_skip_space:
  "skip_space_and_comments st = Inr st' \<Longrightarrow> kept P \<Longrightarrow> P st \<Longrightarrow> P st'"
proof (induction st rule: skip_space_and_comments.induct)
  case (1 st)
  obtain st1 where st1: "skip_blanks st = Inr st1"
    using "1.prems"(1) by (cases "skip_blanks st") (auto simp: skip_space_and_comments.simps [of st])
  have P1: "P st1" using st1 "1.prems"(3) by (rule skip_blanks_invariant) (use "1.prems"(2) in \<open>auto simp: kept_def\<close>)
  then have P2: "P (advance_while (\<lambda>c. c \<noteq> CHR 0x0A) st1)" using "1.prems"(2) kept_while by blast
  show ?case
    using "1.prems" P1 "1.IH" [OF st1 _ _ _ P2] st1
    by (simp add: skip_space_and_comments.simps [of st] split: if_splits)
qed

lemma skip_space_bounds:
  "skip_space_and_comments st = Inr st' \<Longrightarrow> source st' = source st \<and> index st \<le> index st'"
  by (erule kept_skip_space) (auto simp: kept_def)

section \<open>The main loop\<close>

function scan_loop :: "lexer \<Rightarrow> diagnostic + token list \<times> lexer" where
  "scan_loop st =
     (if eof st then Inr ([], st)
      else case skip_space_and_comments st of
             Inl e \<Rightarrow> Inl e
           | Inr st1 \<Rightarrow>
               if eof st1 then Inr ([], st1)
               else case scan_token st1 of
                      Inl e \<Rightarrow> Inl e
                    | Inr tst \<Rightarrow> bind_r (scan_loop (snd tst)) (\<lambda>r. Inr (fst tst # fst r, snd r)))"
  by pat_completeness auto
termination
proof (relation "measure (\<lambda>st. length (source st) - index st)")
  fix st st1 tst
  assume a: "\<not> eof st" "skip_space_and_comments st = Inr st1" "\<not> eof st1" "scan_token st1 = Inr tst"
  then have "source (snd tst) = source st \<and> index st < index (snd tst)"
    using skip_space_bounds [OF a(2)] scan_token_bounds [of st1 "fst tst" "snd tst"] by simp
  then show "(snd tst, st) \<in> measure (\<lambda>st. length (source st) - index st)"
    using a(1) by (auto simp: eof_def)
qed auto

declare scan_loop.simps [simp del]

section \<open>The layout pass\<close>

definition layout_token :: "token_kind \<Rightarrow> token \<Rightarrow> token" where
  "layout_token k t = \<lparr>kind = k, text_of = [], span = span t\<rparr>"

text \<open>\<open>indents\<close> is the stack of open indentations, the innermost first; the code's \<open>back\<close> is the head.\<close>

fun pop_indents :: "nat \<Rightarrow> token \<Rightarrow> nat list \<Rightarrow> token list \<times> nat list" where
  "pop_indents indent t [] = ([], [])"
| "pop_indents indent t (i # is) =
     (if indent < i then (let (ds, is') = pop_indents indent t is in (layout_token Dedent t # ds, is'))
      else ([], i # is))"

text \<open>The handling of the first token of a logical line outside brackets.\<close>

definition line_layout :: "token \<Rightarrow> nat list \<Rightarrow> lexer \<Rightarrow> diagnostic + token list \<times> nat list" where
  "line_layout t indents st =
     (let indent = pos_column (span_start (span t)) - 1
      in if indent mod 4 \<noteq> 0 then
           lex_error ''INDENTATION'' ''Indentation must use four spaces per level.'' (span_start (span t)) st
         else if indent > hd indents then
           if indent \<noteq> hd indents + 4
           then lex_error ''INDENTATION'' ''Indentation cannot skip a level.'' (span_start (span t)) st
           else Inr ([layout_token Indent t], indent # indents)
         else Inr (pop_indents indent t indents))"

definition opens :: "token_kind \<Rightarrow> bool" where
  "opens k \<longleftrightarrow> k = LParen \<or> k = LBracket \<or> k = LBrace"

definition closes :: "token_kind \<Rightarrow> bool" where
  "closes k \<longleftrightarrow> k = RParen \<or> k = RBracket \<or> k = RBrace"

fun layout :: "token list \<Rightarrow> nat list \<Rightarrow> int \<Rightarrow> bool \<Rightarrow> lexer \<Rightarrow> diagnostic + token list" where
  "layout [] indents nesting line_start st = Inr []"
| "layout (t # ts) indents nesting line_start st =
     (if kind t = Newline then
        if nesting = 0 \<and> \<not> line_start
        then bind_r (layout ts indents nesting True st) (\<lambda>r. Inr (t # r))
        else layout ts indents nesting line_start st
      else if kind t = Eof then
        Inr ((if \<not> line_start then [layout_token Newline t] else [])
             @ replicate (length indents - 1) (layout_token Dedent t) @ [t])
      else
        bind_r (if line_start \<and> nesting = 0 then line_layout t indents st else Inr ([], indents)) (\<lambda>(ds, indents').
          let line_start' = (if line_start \<and> nesting = 0 then False else line_start);
              nesting1 = (if opens (kind t) then nesting + 1 else nesting);
              nesting2 = (if closes (kind t) then nesting1 - 1 else nesting1)
          in bind_r (layout ts indents' nesting2 line_start' st) (\<lambda>r. Inr (ds @ t # r))))"

definition lexer_start :: "string \<Rightarrow> lexer" where
  "lexer_start src = \<lparr>source = src, index = 0, pos = start_pos\<rparr>"

text \<open>The tokens of the main loop, the end of file included.\<close>

definition raw_tokens :: "string \<Rightarrow> diagnostic + token list \<times> lexer" where
  "raw_tokens src =
     bind_r (scan_loop (lexer_start src)) (\<lambda>(ts, st).
       Inr (ts @ [\<lparr>kind = Eof, text_of = [], span = \<lparr>span_start = pos st, span_end = pos st\<rparr>\<rparr>], st))"

definition scan :: "string \<Rightarrow> diagnostic + token list" where
  "scan src =
     (case invalid_utf8_offset src of
        Some invalid \<Rightarrow>
          let start = source_position_at src invalid
          in Inl \<lparr>code = ''INVALID_UTF8'', message = ''Quidra source must be valid UTF-8.'',
                  at_span = \<lparr>span_start = start,
                    span_end = \<lparr>pos_offset = pos_offset start + 1, pos_line = pos_line start,
                                pos_column = pos_column start + 1\<rparr>\<rparr>\<rparr>
      | None \<Rightarrow> bind_r (raw_tokens src) (\<lambda>(ts, st). layout ts [0] 0 True st))"

section \<open>Positions\<close>

definition lex_ok :: "lexer \<Rightarrow> bool" where
  "lex_ok st \<longleftrightarrow> index st \<le> length (source st) \<and> pos st = source_position_at (source st) (index st)"

lemma position_offset: "n \<le> length t \<Longrightarrow> pos_offset (source_position_at t n) = n"
proof (induction n)
  case (Suc n)
  then show ?case
    by (simp add: source_position_at_def take_Suc_conv_app_nth step_pos_def)
qed (simp add: source_position_at_def start_pos_def)

lemma position_Suc: "n < length t \<Longrightarrow> source_position_at t (Suc n) = step_pos (t ! n) (source_position_at t n)"
  by (simp add: source_position_at_def take_Suc_conv_app_nth)

lemma lex_ok_advance: "lex_ok st \<Longrightarrow> \<not> eof st \<Longrightarrow> lex_ok (advance st)"
  by (auto simp: lex_ok_def eof_def advance_def Let_def position_Suc step_pos_def position_offset)

text \<open>A state reached from another one inside the same text.\<close>

definition later :: "lexer \<Rightarrow> lexer \<Rightarrow> bool" where
  "later st st' \<longleftrightarrow> source st' = source st \<and> index st \<le> index st' \<and> lex_ok st'"

lemma kept_later: "kept (later st)"
  by (auto simp: kept_def later_def lex_ok_advance)

lemma later_refl: "lex_ok st \<Longrightarrow> later st st"
  by (simp add: later_def)

text \<open>The text between two states.\<close>

definition between :: "lexer \<Rightarrow> lexer \<Rightarrow> string" where
  "between st st' = take (index st' - index st) (drop (index st) (source st))"

lemma make_text:
  "later st st' \<Longrightarrow> index st < index st' \<Longrightarrow> text_of (make k (index st) p [] st') = between st st'"
  by (simp add: make_def between_def later_def)

lemma scan_token_later:
  assumes "scan_token st = Inr (t, st')" and "\<not> eof st" and "lex_ok st"
  shows "later st st'" and "index st < index st'"
proof -
  have "later (advance st) st'"
    using assms(1,2) kept_later by (rule kept_scan_token) (simp add: later_refl lex_ok_advance assms)
  then show "later st st'" and "index st < index st'" by (auto simp: later_def)
qed

lemma string_loop_span:
  "string_loop start acc depth nested st = Inr (t, st') \<Longrightarrow>
    kind t = String \<and> span t = \<lparr>span_start = start, span_end = pos st'\<rparr>"
proof (induction "length (source st) - index st" arbitrary: acc depth nested st rule: less_induct)
  case less
  note turn = string_loop_turn [OF less.prems]
  have m: "length (source (advance st)) - index (advance st) < length (source st) - index st"
    "length (source (advance (advance st))) - index (advance (advance st)) < length (source st) - index st"
    using turn by (auto simp: eof_def)
  show ?case using turn less.hyps [OF m(1)] less.hyps [OF m(2)] by auto
qed

lemma scan_token_span:
  assumes "scan_token st = Inr (t, st')"
  shows "span t = \<lparr>span_start = pos st, span_end = pos st'\<rparr>"
  using assms
proof (cases rule: scan_token_cases)
  case 2
  then show ?thesis by (auto simp: identifier_token_def Let_def make_def split: option.splits)
next
  case 3
  then show ?thesis by (elim number_token_parts) (auto simp: make_def)
next
  case 4
  then show ?thesis using string_loop_span unfolding string_token_def by blast
next
  case 5
  then obtain k where "t = make k (index st) (pos st) [] st'" using symbol_parts by blast
  then show ?thesis by (simp add: make_def)
qed (simp add: make_def)

lemma scan_token_text:
  assumes "scan_token st = Inr (t, st')" and "\<not> eof st" and "lex_ok st"
  shows "kind t = String \<or> text_of t = between st st'"
proof -
  note l = scan_token_later [OF assms]
  show ?thesis
    using assms(1)
  proof (cases rule: scan_token_cases)
    case 1
    have "between st st' = [CHR 0x0A]"
      using 1 assms(2) by (simp add: between_def eof_def peek_at_def take_Suc_conv_app_nth)
    then show ?thesis using 1 by (simp add: make_def)
  next
    case 2
    then have "text_of t = between st st'"
      using l by (auto simp: identifier_token_def Let_def make_def between_def later_def advance_while_bounds split: option.splits)
    then show ?thesis by blast
  next
    case 3
    then show ?thesis using make_text [OF l] by (elim number_token_parts) auto
  next
    case 4
    then show ?thesis using string_loop_span unfolding string_token_def by blast
  next
    case 5
    then show ?thesis using symbol_parts make_text [OF l] by blast
  qed
qed

section \<open>Blank text\<close>

definition blanks :: "string \<Rightarrow> bool" where
  "blanks g \<longleftrightarrow> (\<forall>c\<in>set g. c = CHR '' '' \<or> c = CHR 0x0D)"

definition comment :: "string \<Rightarrow> bool" where
  "comment g \<longleftrightarrow> take 2 g = [CHR ''/'', CHR ''/''] \<and> CHR 0x0A \<notin> set g"

text \<open>The text between two tokens: spaces and carriage returns, then at most one comment.\<close>

definition gap :: "string \<Rightarrow> bool" where
  "gap g \<longleftrightarrow> (\<exists>b c. g = b @ c \<and> blanks b \<and> (c = [] \<or> comment c))"

lemma between_trans: "later st s \<Longrightarrow> later s s' \<Longrightarrow> between st s' = between st s @ between s s'"
proof -
  assume a: "later st s" "later s s'"
  then have n: "index s' - index st = (index s - index st) + (index s' - index s)" by (simp add: later_def)
  have src: "source s = source st" using a by (simp add: later_def)
  have d: "drop (index s - index st) (drop (index st) (source st)) = drop (index s) (source st)"
    using a by (simp add: later_def)
  show ?thesis unfolding between_def src n take_add d ..
qed

lemma between_advance:
  assumes "later st s" and "\<not> eof s"
  shows "between st (advance s) = between st s @ [peek s]"
proof -
  have l: "later s (advance s)" using assms by (simp add: later_def lex_ok_advance)
  have "between s (advance s) = [peek s]"
    using assms(2) by (simp add: between_def eof_def peek_at_def take_Suc_conv_app_nth)
  then show ?thesis using between_trans [OF assms(1) l] by simp
qed

lemma skip_blanks_gap:
  assumes "skip_blanks st = Inr st'" and "lex_ok st"
  shows "later st st' \<and> blanks (between st st')"
  using assms(1)
proof (rule skip_blanks_invariant)
  show "later st st \<and> blanks (between st st)" using assms(2) by (simp add: later_refl blanks_def between_def)
  fix s assume s: "later st s \<and> blanks (between st s)" "\<not> eof s" "peek s = CHR '' '' \<or> peek s = CHR 0x0D"
  then have "later st (advance s)" using kept_later keptD by blast
  then show "later st (advance s) \<and> blanks (between st (advance s))"
    using s by (auto simp: blanks_def between_advance)
qed

lemma skip_comment_gap:
  fixes st defines "st' \<equiv> advance_while (\<lambda>c. c \<noteq> CHR 0x0A) st"
  assumes "lex_ok st"
  shows "later st st' \<and> CHR 0x0A \<notin> set (between st st')"
  unfolding st'_def
proof (rule advance_while_invariant)
  show "later st st \<and> CHR 0x0A \<notin> set (between st st)" using assms(2) by (simp add: later_refl between_def)
  fix s assume s: "later st s \<and> CHR 0x0A \<notin> set (between st s)" "\<not> eof s" "peek s \<noteq> CHR 0x0A"
  then have "later st (advance s)" using kept_later keptD by blast
  then show "later st (advance s) \<and> CHR 0x0A \<notin> set (between st (advance s))"
    using s by (auto simp: between_advance)
qed

lemma advance_while_end: "eof (advance_while p st) \<or> \<not> p (peek (advance_while p st))"
proof (induction p st rule: advance_while.induct)
  case (1 p st)
  show ?case
  proof (cases "\<not> eof st \<and> p (peek st)")
    case True
    then show ?thesis using 1 advance_while_step(1) by simp
  next
    case False
    then show ?thesis using advance_while_step(2) [of st p] by auto
  qed
qed

lemma skip_space_gap:
  assumes "skip_space_and_comments st = Inr st'" and "lex_ok st"
  shows "later st st' \<and> gap (between st st')"
proof -
  obtain st1 where st1: "skip_blanks st = Inr st1"
    using assms(1) by (cases "skip_blanks st") (auto simp: skip_space_and_comments.simps [of st])
  note b = skip_blanks_gap [OF st1 assms(2)]
  define slash where "slash \<longleftrightarrow> \<not> eof st1 \<and> peek st1 = CHR ''/'' \<and> peek_at st1 1 = CHR ''/''"
  show ?thesis
  proof (cases slash)
    case False
    then have "st' = st1" using assms(1) st1 by (auto simp: skip_space_and_comments.simps [of st] slash_def)
    then show ?thesis using b by (auto simp: gap_def)
  next
    case True
    define st2 where "st2 = advance_while (\<lambda>c. c \<noteq> CHR 0x0A) st1"
    have eq: "skip_space_and_comments st2 = Inr st'"
      using assms(1) st1 True by (simp add: skip_space_and_comments.simps [of st] slash_def st2_def)
    have ok1: "lex_ok st1" using b by (simp add: later_def)
    have c: "later st1 st2" "CHR 0x0A \<notin> set (between st1 st2)" using skip_comment_gap [OF ok1] by (simp_all add: st2_def)
    have stop: "eof st2 \<or> peek st2 = CHR 0x0A"
      using advance_while_end [of "\<lambda>c. c \<noteq> CHR 0x0A" st1] by (simp add: st2_def)
    then have "skip_blanks st2 = Inr st2" by (intro skip_blanks_step(3)) auto
    moreover have "\<not> (\<not> eof st2 \<and> peek st2 = CHR ''/'')" using stop by auto
    ultimately have "st' = st2" using eq by (auto simp: skip_space_and_comments.simps [of st2])
    have ne1: "\<not> eof st1" "peek st1 = CHR ''/''" "peek_at st1 1 = CHR ''/''" using True by (simp_all add: slash_def)
    then have ne2: "\<not> eof (advance st1)" by (intro peek_next_eof) auto
    then have p2: "peek (advance st1) = CHR ''/''" using ne1(3) by (simp add: peek_at_def eof_def)
    have "st2 = advance_while (\<lambda>c. c \<noteq> CHR 0x0A) (advance st1)"
      unfolding st2_def using ne1 by (intro advance_while_step(1)) auto
    also have "\<dots> = advance_while (\<lambda>c. c \<noteq> CHR 0x0A) (advance (advance st1))"
      using ne2 p2 by (intro advance_while_step(1)) auto
    finally have st2: "st2 = advance_while (\<lambda>c. c \<noteq> CHR 0x0A) (advance (advance st1))" .
    have l1: "later st1 (advance st1)" "later st1 (advance (advance st1))"
      using ok1 ne1(1) ne2 by (simp_all add: later_def lex_ok_advance)
    have l2: "later (advance (advance st1)) st2"
      using skip_comment_gap [of "advance (advance st1)"] l1(2) by (simp add: st2 later_def)
    have "between st1 (advance (advance st1)) = [CHR ''/'', CHR ''/'']"
      using between_advance [OF l1(1) ne2] between_advance [OF later_refl [OF ok1] ne1(1)] ne1 p2
      by (simp add: between_def)
    then have "take 2 (between st1 st2) = [CHR ''/'', CHR ''/'']"
      using between_trans [OF l1(2) l2] by simp
    then have "comment (between st1 st2)" using c(2) by (simp add: comment_def)
    moreover have "between st st2 = between st st1 @ between st1 st2" using b c(1) between_trans by blast
    moreover have "later st st2" using b c(1) by (auto simp: later_def)
    ultimately show ?thesis unfolding \<open>st' = st2\<close> gap_def using b by blast
  qed
qed

text \<open>The tokens of a text from an offset on: what each covers, and what lies between them.\<close>

fun tiles :: "string \<Rightarrow> nat \<Rightarrow> token list \<Rightarrow> bool" where
  "tiles src i [] \<longleftrightarrow> i \<le> length src \<and> gap (drop i src)"
| "tiles src i (t # ts) \<longleftrightarrow>
     (let a = pos_offset (span_start (span t)); b = pos_offset (span_end (span t))
      in i \<le> a \<and> a < b \<and> b \<le> length src \<and> gap (take (a - i) (drop i src))
         \<and> span_start (span t) = source_position_at src a \<and> span_end (span t) = source_position_at src b
         \<and> (kind t = String \<or> text_of t = take (b - a) (drop a src))
         \<and> tiles src b ts)"

lemma scan_loop_tiles:
  "scan_loop st = Inr (ts, st') \<Longrightarrow> lex_ok st \<Longrightarrow>
    tiles (source st) (index st) ts \<and> st' = st\<lparr>index := length (source st), pos := source_position_at (source st) (length (source st))\<rparr>"
proof (induction st arbitrary: ts rule: scan_loop.induct)
  case (1 st)
  have fin: "s = st\<lparr>index := length (source st), pos := source_position_at (source st) (length (source st))\<rparr>"
    if "later st s" "eof s" for s
    using that by (auto simp: later_def lex_ok_def eof_def intro: lexer.equality)
  show ?case
  proof (cases "eof st")
    case True
    then have "ts = []" "st' = st" using "1.prems"(1) by (simp_all add: scan_loop.simps [of st])
    then show ?thesis
      using True fin [of st] "1.prems"(2) later_refl [of st]
      by (auto simp: eof_def gap_def blanks_def lex_ok_def)
  next
    case False
    then obtain st1 where st1: "skip_space_and_comments st = Inr st1"
      using "1.prems"(1) by (cases "skip_space_and_comments st") (auto simp: scan_loop.simps [of st])
    note g = skip_space_gap [OF st1 "1.prems"(2)]
    then have ok1: "lex_ok st1" and src1: "source st1 = source st" by (simp_all add: later_def)
    show ?thesis
    proof (cases "eof st1")
      case True
      then have "ts = []" "st' = st1" using "1.prems"(1) False st1 by (simp_all add: scan_loop.simps [of st])
      moreover have "between st st1 = drop (index st) (source st)"
        using True g by (simp add: between_def eof_def later_def lex_ok_def)
      ultimately show ?thesis using fin [of st1] g True "1.prems"(2) by (auto simp: lex_ok_def)
    next
      case ne: False
      then obtain t st2 where tst: "scan_token st1 = Inr (t, st2)"
        using "1.prems"(1) False st1 by (cases "scan_token st1") (auto simp: scan_loop.simps [of st])
      obtain r where r: "scan_loop st2 = Inr (r, st')" "ts = t # r"
        using "1.prems"(1) False st1 ne tst by (auto simp: scan_loop.simps [of st] bind_r_eq_Inr)
      note l = scan_token_later [OF tst ne ok1] and sp = scan_token_span [OF tst] and tx = scan_token_text [OF tst ne ok1]
      have ok2: "lex_ok st2" and src2: "source st2 = source st" using l(1) src1 by (simp_all add: later_def)
      have IH: "tiles (source st2) (index st2) r
          \<and> st' = st2\<lparr>index := length (source st2), pos := source_position_at (source st2) (length (source st2))\<rparr>"
        using "1.IH" [OF False st1 ne tst] r(1) ok2 by simp
      have p: "pos st1 = source_position_at (source st) (index st1)" "pos st2 = source_position_at (source st) (index st2)"
        "index st1 \<le> length (source st)" "index st2 \<le> length (source st)"
        using ok1 ok2 src1 src2 by (simp_all add: lex_ok_def)
      have "index st \<le> index st1" using g by (simp add: later_def)
      then show ?thesis
        using IH g tx l(2) p src1 src2 unfolding r(2)
        by (simp add: sp position_offset between_def)
    qed
  qed
qed

text \<open>
  C22: scanning never diverges, and the tokens it gives tile the source: they follow one another with
  only spaces, carriage returns and comments between them, each one's span starts and ends at its true
  offset, line and column, every token but a string literal has exactly the text of its span, and the
  end of file stands at the end of the source.
\<close>

theorem raw_tokens_tile:
  "case raw_tokens src of
     Inl e \<Rightarrow> True
   | Inr (ts, st) \<Rightarrow> tiles src 0 (butlast ts) \<and> kind (last ts) = Eof
       \<and> span (last ts) = \<lparr>span_start = source_position_at src (length src),
                          span_end = source_position_at src (length src)\<rparr>"
proof (cases "scan_loop (lexer_start src)")
  case (Inl e)
  then show ?thesis by (simp add: raw_tokens_def)
next
  case (Inr r)
  obtain ts st where r: "r = (ts, st)" by (cases r)
  have "lex_ok (lexer_start src)" by (simp add: lex_ok_def lexer_start_def source_position_at_def)
  then show ?thesis
    using scan_loop_tiles [of "lexer_start src" ts st] Inr r
    by (simp add: raw_tokens_def lexer_start_def)
qed

section \<open>Balanced layout\<close>

text \<open>The depth of indentation after a list of tokens, \<open>None\<close> when a \<open>Dedent\<close> closes nothing.\<close>

fun depth_after :: "nat \<Rightarrow> token list \<Rightarrow> nat option" where
  "depth_after d [] = Some d"
| "depth_after d (t # ts) =
     (if kind t = Indent then depth_after (d + 1) ts
      else if kind t = Dedent then (if d = 0 then None else depth_after (d - 1) ts)
      else depth_after d ts)"

text \<open>The stack of indentations is always \<open>4 * d, \<dots>, 8, 4, 0\<close>.\<close>

definition indents_ok :: "nat list \<Rightarrow> bool" where
  "indents_ok is \<longleftrightarrow> (\<exists>d. is = map (\<lambda>k. 4 * k) (rev [0..<Suc d]))"

definition layout_free :: "token list \<Rightarrow> bool" where
  "layout_free ts \<longleftrightarrow> (\<forall>t\<in>set ts. kind t \<noteq> Indent \<and> kind t \<noteq> Dedent)"

definition dedents :: "token \<Rightarrow> nat \<Rightarrow> token list" where
  "dedents t n = replicate n (layout_token Dedent t)"

abbreviation levels :: "nat \<Rightarrow> nat list" where
  "levels d \<equiv> map (\<lambda>k. 4 * k) (rev [0..<Suc d])"

lemma pop_levels:
  "e \<le> d \<Longrightarrow> pop_indents (4 * e) t (levels d) = (dedents t (d - e), levels e)"
proof (induction d)
  case (Suc d)
  show ?case
  proof (cases "e = Suc d")
    case False
    then have "e \<le> d" using Suc.prems by simp
    then show ?thesis
      using Suc.IH by (simp add: dedents_def Suc_diff_le)
  qed (simp add: dedents_def)
qed (simp add: dedents_def)

lemma depth_append:
  "depth_after d (xs @ ys) = (case depth_after d xs of None \<Rightarrow> None | Some e \<Rightarrow> depth_after e ys)"
  by (induction d xs rule: depth_after.induct) auto

lemma depth_dedents: "depth_after (d + n) (dedents t n) = Some d"
  by (induction n) (simp_all add: dedents_def layout_token_def)

text \<open>The first token of a line: the layout tokens before it lead from the current level to its own.\<close>

lemma line_layout_levels:
  assumes "line_layout t (levels d) st = Inr (ds, is)"
  obtains e where "is = levels e" and "pos_column (span_start (span t)) - 1 = 4 * e"
    and "depth_after d ds = Some e" and "\<forall>x\<in>set ds. kind x = Indent \<or> kind x = Dedent"
proof -
  define n where "n = pos_column (span_start (span t)) - 1"
  have "n mod 4 = 0" using assms by (auto simp: line_layout_def Let_def n_def lex_error_def split: if_split_asm)
  then obtain e where e: "n = 4 * e" by (metis dvd_eq_mod_eq_0 dvdE)
  have hd: "hd (levels d) = 4 * d" by simp
  show ?thesis
  proof (cases "e \<le> d")
    case True
    then have "ds = dedents t (d - e)" "is = levels e"
      using assms pop_levels [OF True, of t] hd unfolding line_layout_def Let_def n_def [symmetric] e lex_error_def
      by auto
    moreover have "depth_after d (dedents t (d - e)) = Some e"
      using depth_dedents [of e "d - e" t] True by simp
    ultimately show ?thesis
      using e by (intro that [of e]) (auto simp: n_def dedents_def layout_token_def)
  next
    case False
    then have "e = d + 1" "ds = [layout_token Indent t]" "is = n # levels d"
      using assms hd unfolding line_layout_def Let_def n_def [symmetric] e lex_error_def
      by (auto split: if_split_asm)
    then show ?thesis
      using e by (intro that [of e]) (auto simp: n_def layout_token_def)
  qed
qed

definition layout_kind :: "token_kind \<Rightarrow> bool" where
  "layout_kind k \<longleftrightarrow> k = Newline \<or> k = Indent \<or> k = Dedent"

definition significant :: "token list \<Rightarrow> token list" where
  "significant ts = filter (\<lambda>t. \<not> layout_kind (kind t)) ts"

text \<open>
  What the parser relies on: the layout tokens of a token list, at indentation depth \<open>d\<close>, bracket
  nesting \<open>n\<close>, and at the start of a line or not.
\<close>

fun laid_out :: "nat \<Rightarrow> int \<Rightarrow> bool \<Rightarrow> token list \<Rightarrow> bool" where
  "laid_out d n at_start [] \<longleftrightarrow> False"
| "laid_out d n at_start (t # ts) \<longleftrightarrow>
     (if kind t = Eof then ts = [] \<and> d = 0
      else if kind t = Newline then
        \<not> at_start \<and> (n = 0 \<or> (\<forall>x\<in>set ts. kind x = Dedent \<or> kind x = Eof)) \<and> laid_out d n True ts
      else if kind t = Indent then at_start \<and> laid_out (d + 1) n at_start ts
      else if kind t = Dedent then at_start \<and> 0 < d \<and> laid_out (d - 1) n at_start ts
      else (at_start \<longrightarrow> n = 0 \<and> pos_column (span_start (span t)) - 1 = 4 * d)
        \<and> laid_out d (if opens (kind t) then n + 1 else if closes (kind t) then n - 1 else n) False ts)"

lemma laid_out_layout:
  "depth_after d ds = Some e \<Longrightarrow> \<forall>x\<in>set ds. kind x = Indent \<or> kind x = Dedent \<Longrightarrow> laid_out e n True ts \<Longrightarrow>
    laid_out d n True (ds @ ts)"
  by (induction d ds rule: depth_after.induct) (auto split: if_splits)

lemma significant_simps [simp]:
  "significant [] = []" "significant (xs @ ys) = significant xs @ significant ys"
  "significant (t # ts) = (if layout_kind (kind t) then significant ts else t # significant ts)"
  by (simp_all add: significant_def)

lemma significant_layout: "\<forall>x\<in>set ds. kind x = Indent \<or> kind x = Dedent \<Longrightarrow> significant ds = []"
  by (auto simp: significant_def layout_kind_def filter_empty_conv)

lemma dedents_kind: "\<forall>x\<in>set (dedents t n). kind x = Indent \<or> kind x = Dedent"
  by (simp add: dedents_def layout_token_def)

lemma opens_closes: "opens k \<Longrightarrow> \<not> closes k" "opens k \<Longrightarrow> \<not> layout_kind k" "closes k \<Longrightarrow> \<not> layout_kind k"
  by (auto simp: opens_def closes_def layout_kind_def)

text \<open>The raw tokens: no layout tokens but line ends, and the end of file last.\<close>

fun raw_ok :: "token list \<Rightarrow> bool" where
  "raw_ok [] \<longleftrightarrow> False"
| "raw_ok (t # ts) \<longleftrightarrow> (if kind t = Eof then ts = [] else kind t \<noteq> Indent \<and> kind t \<noteq> Dedent \<and> raw_ok ts)"

lemma layout_laid_out:
  "layout ts (levels d) n at_start st = Inr out \<Longrightarrow> raw_ok ts \<Longrightarrow> (at_start \<longrightarrow> n = 0) \<Longrightarrow>
    laid_out d n at_start out \<and> significant out = significant ts"
proof (induction ts arbitrary: d n at_start out)
  case Nil
  then show ?case by simp
next
  case (Cons t ts)
  consider (newline) "kind t = Newline" | (eof) "kind t = Eof" | (other) "kind t \<noteq> Newline" "kind t \<noteq> Eof"
    by blast
  then show ?case
  proof cases
    case newline
    show ?thesis
    proof (cases "n = 0 \<and> \<not> at_start")
      case True
      then obtain r where r: "layout ts (levels d) n True st = Inr r" "out = t # r"
        using Cons.prems(1) newline by (auto simp: bind_r_eq_Inr)
      have "laid_out d n True r \<and> significant r = significant ts"
        using Cons.IH [OF r(1)] Cons.prems(2) newline True by simp
      then show ?thesis using True newline r(2) by (simp add: layout_kind_def)
    next
      case False
      then have "layout ts (levels d) n at_start st = Inr out" using Cons.prems(1) newline by auto
      then show ?thesis using Cons.IH [of d n at_start out] Cons.prems(2,3) newline by (simp add: layout_kind_def)
    qed
  next
    case eof
    have "length (levels d) - 1 = d" by simp
    then have out: "out = (if \<not> at_start then [layout_token Newline t] else []) @ dedents t d @ [t]"
      using Cons.prems(1) eof by (auto simp: dedents_def)
    have ts: "ts = []" using Cons.prems(2) eof by simp
    have "laid_out d n True (dedents t d @ [t])"
      using depth_dedents [of 0 d t] dedents_kind eof by (intro laid_out_layout) auto
    moreover have "\<forall>x\<in>set (dedents t d @ [t]). kind x = Dedent \<or> kind x = Eof"
      using eof by (simp add: dedents_def layout_token_def)
    ultimately show ?thesis
      using significant_layout [OF dedents_kind] eof ts
      by (cases at_start) (simp_all add: out layout_token_def layout_kind_def)
  next
    case other
    obtain ds "is" where ds: "(if at_start \<and> n = 0 then line_layout t (levels d) st else Inr ([], levels d)) = Inr (ds, is)"
    proof (cases "if at_start \<and> n = 0 then line_layout t (levels d) st else Inr ([], levels d)")
      case (Inl e)
      then show thesis
        using Cons.prems(1) unfolding layout.simps if_not_P [OF other(1)] if_not_P [OF other(2)] Inl by simp
    next
      case (Inr di)
      then show thesis by (cases di) (auto intro: that)
    qed
    define m where "m = (if opens (kind t) then n + 1 else if closes (kind t) then n - 1 else n)"
    have start: "(if at_start \<and> n = 0 then False else at_start) = False" using Cons.prems(3) by auto
    have m: "(if closes (kind t) then (if opens (kind t) then n + 1 else n) - 1 else if opens (kind t) then n + 1 else n) = m"
      using opens_closes(1) by (auto simp: m_def)
    have "bind_r (layout ts is m False st) (\<lambda>r. Inr (ds @ t # r)) = Inr out"
      using Cons.prems(1)
      unfolding layout.simps if_not_P [OF other(1)] if_not_P [OF other(2)] ds bind_r.simps prod.case Let_def start m .
    then obtain r where r: "layout ts is m False st = Inr r" "out = ds @ t # r"
      by (auto simp: bind_r_eq_Inr)
    obtain e where e: "is = levels e" "depth_after d ds = Some e" "\<forall>x\<in>set ds. kind x = Indent \<or> kind x = Dedent"
      and col: "at_start \<longrightarrow> pos_column (span_start (span t)) - 1 = 4 * e" "\<not> at_start \<longrightarrow> ds = []"
    proof (cases at_start)
      case True
      then have "line_layout t (levels d) st = Inr (ds, is)" using ds Cons.prems(3) by simp
      then show thesis using True that by (elim line_layout_levels) blast
    next
      case False
      then show thesis using ds by (intro that [of d]) auto
    qed
    have raw: "raw_ok ts" "kind t \<noteq> Indent" "kind t \<noteq> Dedent" using Cons.prems(2) other by auto
    have IH: "laid_out e m False r \<and> significant r = significant ts"
      using Cons.IH [OF r(1) [unfolded e(1)]] raw by simp
    have sig: "\<not> layout_kind (kind t)" using raw other by (simp add: layout_kind_def)
    have here: "laid_out e n at_start (t # r)"
      using IH raw other col Cons.prems(3) by (simp add: m_def)
    have "laid_out d n at_start (ds @ t # r)"
    proof (cases at_start)
      case True
      then show ?thesis using laid_out_layout [OF e(2,3)] here by simp
    next
      case False
      then show ?thesis using here col e(2) by simp
    qed
    then show ?thesis using IH sig significant_layout [OF e(3)] by (simp add: r(2))
  qed
qed

lemma scan_token_kind:
  assumes "scan_token st = Inr (t, st')"
  shows "kind t \<noteq> Indent \<and> kind t \<noteq> Dedent \<and> kind t \<noteq> Eof"
  using assms
proof (cases rule: scan_token_cases)
  case 1
  then show ?thesis by (simp add: make_def)
next
  case 2
  have "\<forall>k\<in>snd ` set keyword_table. plain k" by (simp add: keyword_table_def plain_def)
  then have "plain k" if "map_of keyword_table w = Some k" for w k
    using map_of_SomeD [OF that] by force
  then show ?thesis using 2 by (auto simp: identifier_token_def Let_def make_def plain_def split: option.splits)
next
  case 3
  then show ?thesis by (elim number_token_parts) (auto simp: make_def plain_def)
next
  case 4
  then show ?thesis using string_loop_span unfolding string_token_def by fastforce
next
  case 5
  then obtain k where "t = make k (index st) (pos st) [] st'" "plain k" using symbol_parts by blast
  then show ?thesis by (simp add: make_def plain_def)
qed

lemma raw_ok_Eof: "raw_ok (ts @ [t]) \<longleftrightarrow> kind t = Eof \<and> (\<forall>x\<in>set ts. kind x \<noteq> Eof \<and> kind x \<noteq> Indent \<and> kind x \<noteq> Dedent)"
  by (induction ts) auto

lemma scan_loop_kinds:
  "scan_loop st = Inr (ts, st') \<Longrightarrow> \<forall>t\<in>set ts. kind t \<noteq> Eof \<and> kind t \<noteq> Indent \<and> kind t \<noteq> Dedent"
proof (induction st arbitrary: ts rule: scan_loop.induct)
  case (1 st)
  show ?case
  proof (cases "ts = []")
    case False
    then have ne: "\<not> eof st" using "1.prems" by (auto simp: scan_loop.simps [of st])
    obtain st1 where st1: "skip_space_and_comments st = Inr st1" "\<not> eof st1"
      using "1.prems" ne False
      by (cases "skip_space_and_comments st") (auto simp: scan_loop.simps [of st] split: if_splits)
    obtain tst where tst: "scan_token st1 = Inr tst"
      using "1.prems" ne st1 by (cases "scan_token st1") (auto simp: scan_loop.simps [of st])
    obtain r where r: "scan_loop (snd tst) = Inr (r, st')" "ts = fst tst # r"
      using "1.prems" ne st1 tst by (auto simp: scan_loop.simps [of st] bind_r_eq_Inr)
    have "scan_token st1 = Inr (fst tst, snd tst)" using tst by simp
    note scan_token_kind [OF this]
    then show ?thesis using "1.IH" [OF ne st1 tst r(1)] r(2) by auto
  qed simp
qed

text \<open>
  C23: the layout of a scanned program is balanced: at every point as many \<open>Indent\<close>s as \<open>Dedent\<close>s or
  more, none open at the end of file, which comes last and once; the first token of a logical line
  stands at the column of its depth, four per level; there is no empty logical line and no line end
  inside brackets before the end; and without the layout tokens the program is the tokens of the
  source in their order.
\<close>

theorem scan_laid_out:
  "case scan src of
     Inl e \<Rightarrow> True
   | Inr ts \<Rightarrow> laid_out 0 0 True ts
       \<and> map_sum id (significant \<circ> fst) (raw_tokens src) = (Inr (significant ts) :: diagnostic + token list)"
proof (cases "scan src")
  case (Inr ts)
  then obtain raw st where raw: "raw_tokens src = Inr (raw, st)" "layout raw [0] 0 True st = Inr ts"
    by (auto simp: scan_def Let_def bind_r_eq_Inr split: option.splits)
  obtain us where us: "scan_loop (lexer_start src) = Inr (us, st)"
    "raw = us @ [\<lparr>kind = Eof, text_of = [], span = \<lparr>span_start = pos st, span_end = pos st\<rparr>\<rparr>]"
    using raw(1) by (auto simp: raw_tokens_def bind_r_eq_Inr)
  have "raw_ok raw" using scan_loop_kinds [OF us(1)] by (simp add: us(2) raw_ok_Eof)
  then show ?thesis
    using layout_laid_out [of raw 0 0 True st ts] raw Inr by simp
qed simp

text \<open>
  C34: an invalid source is rejected with the error \<open>INVALID_UTF8\<close>, nothing of it is tokenized, and the
  error covers the first bad byte: the only offset such that the bytes before it are a concatenation
  of encodings of scalar values and no encoding of a scalar value starts at it.
\<close>

theorem scan_rejects_invalid_utf8:
  assumes "\<not> utf8_valid src"
  shows "\<exists>e i. scan src = Inl e \<and> code e = ''INVALID_UTF8''
    \<and> (\<forall>j. j < length src \<and> utf8_valid (take j src) \<and> \<not> starts_scalar (drop j src) \<longleftrightarrow> j = i)
    \<and> span_start (at_span e) = source_position_at src i \<and> pos_offset (span_end (at_span e)) = i + 1"
proof -
  obtain i where i: "invalid_utf8_offset src = Some i"
    using assms invalid_utf8_none by (cases "invalid_utf8_offset src") auto
  have "j < length src \<and> utf8_valid (take j src) \<and> \<not> starts_scalar (drop j src) \<longleftrightarrow> j = i" for j
    using invalid_utf8_some [OF i] invalid_utf8_unique [of j src] i by auto
  moreover have "pos_offset (source_position_at src i) = i"
    using invalid_utf8_some [OF i] by (simp add: position_offset)
  ultimately show ?thesis using i by (simp add: scan_def Let_def)
qed

text \<open>The third byte of the second line starts no encoding.\<close>

theorem scan_rejects_invalid_utf8_witness:
  "\<exists>e. scan (''a'' @ [CHR 0x0A, char_of (0xc3 :: nat), char_of (0xa9 :: nat), char_of (0xff :: nat)]) = Inl e \<and> code e = ''INVALID_UTF8''
    \<and> span_start (at_span e) = \<lparr>pos_offset = 4, pos_line = 2, pos_column = 3\<rparr>"
proof -
  let ?s = "''a'' @ [CHR 0x0A, char_of (0xc3 :: nat), char_of (0xa9 :: nat), char_of (0xff :: nat)]"
  have o: "invalid_utf8_offset ?s = Some 4" and p: "source_position_at ?s 4 = \<lparr>pos_offset = 4, pos_line = 2, pos_column = 3\<rparr>"
    by code_simp+
  from invalid_utf8_some [OF o] have "\<not> utf8_valid ?s" and four: "4 < length ?s \<and> utf8_valid (take 4 ?s) \<and> \<not> starts_scalar (drop 4 ?s)"
    by blast+
  from scan_rejects_invalid_utf8 [OF this(1)] obtain e i where e: "scan ?s = Inl e" "code e = ''INVALID_UTF8''"
      "\<forall>j. j < length ?s \<and> utf8_valid (take j ?s) \<and> \<not> starts_scalar (drop j ?s) \<longleftrightarrow> j = i"
      "span_start (at_span e) = source_position_at ?s i" by blast
  have "i = 4" by (rule sym, rule iffD1 [OF spec [OF e(3)] four])
  show ?thesis
  proof (intro exI [of _ e] conjI e(1,2))
    show "span_start (at_span e) = \<lparr>pos_offset = 4, pos_line = 2, pos_column = 3\<rparr>"
      unfolding e(4) \<open>i = 4\<close> by (rule p)
  qed
qed

end
