(* ===== verification/Tensor_View.thy ===== *)
theory Tensor_View
  imports Prelude
begin

text \<open>
  Addressing of tensor views, \<open>src/tensor_view_bounds.hpp\<close>: a view is an offset, a shape and strides over
  a storage. \<open>storage_index\<close> computes where a logical element lives in arithmetic modulo \<open>2 ^ 64\<close>;
  \<open>within_storage\<close> and \<open>dense_run\<close> are the proofs of the runtime that let it skip its per-element
  checks. The lemmas show that both proofs are sound: no accepted view reaches outside its storage,
  and an accepted dense view is one contiguous run. A \<open>std::size_t\<close> is an \<open>int\<close> below \<open>2 ^ 64\<close>, its
  wrapping operations written out; the axis loops that run from the last axis take reversed lists.
\<close>

section \<open>Addressing\<close>

definition size_limit :: int where "size_limit = 18446744073709551615"

fun storage_index_loop :: "int list \<Rightarrow> int list \<Rightarrow> int \<Rightarrow> int \<Rightarrow> int" where
  "storage_index_loop (extent # shape) (stride # strides) logical index =
     (let dimension = wrap_u64 extent;
          coordinate = (if dimension = 0 then 0 else logical mod dimension);
          logical = (if dimension \<noteq> 0 then logical div dimension else logical)
      in storage_index_loop shape strides logical (wrap_u64 (index + wrap_u64 (coordinate * wrap_u64 stride))))"
| "storage_index_loop _ _ logical index = index"

definition storage_index :: "int \<Rightarrow> int list \<Rightarrow> int list \<Rightarrow> int \<Rightarrow> int" where
  "storage_index offset shape strides logical =
     (if shape = [] then offset else storage_index_loop (rev shape) (rev strides) logical offset)"

text \<open>\<open>None\<close> where the code returns false; otherwise the last index and whether an extent is zero.\<close>

fun within_loop :: "int list \<Rightarrow> int list \<Rightarrow> int \<Rightarrow> bool \<Rightarrow> (int \<times> bool) option" where
  "within_loop (extent # shape) (stride # strides) last' is_empty =
     (if extent < 0 \<or> stride < 0 then None
      else if extent > size_limit \<or> stride > size_limit then None
      else if extent = 0 then within_loop shape strides last' True
      else let span = extent - 1; step = stride
        in if step \<noteq> 0 \<and> span > size_limit div step then None
           else let delta = wrap_u64 (span * step)
             in if delta > size_limit - last' then None
                else within_loop shape strides (wrap_u64 (last' + delta)) is_empty)"
| "within_loop _ _ last' is_empty = Some (last', is_empty)"

definition within_storage :: "int \<Rightarrow> int list \<Rightarrow> int list \<Rightarrow> int \<Rightarrow> bool" where
  "within_storage offset shape strides storage_count =
     (if length strides \<noteq> length shape then False
      else case within_loop shape strides offset False of
        None \<Rightarrow> False
      | Some (last', is_empty) \<Rightarrow> is_empty \<or> last' < storage_count)"

fun dense_loop :: "int list \<Rightarrow> int list \<Rightarrow> int \<Rightarrow> bool" where
  "dense_loop (extent # shape) (stride # strides) expected =
     (if extent = 1 then dense_loop shape strides expected
      else if extent > size_limit then False
      else if stride < 0 \<or> stride \<noteq> expected then False
      else if expected > size_limit div extent then False
      else dense_loop shape strides (wrap_u64 (expected * extent)))"
| "dense_loop _ _ expected = True"

definition dense_run :: "int list \<Rightarrow> int list \<Rightarrow> bool" where
  "dense_run shape strides =
     (if length strides \<noteq> length shape then False
      else if \<exists>extent\<in>set shape. extent < 0 then False
      else if \<exists>extent\<in>set shape. extent = 0 then True
      else dense_loop (rev shape) (rev strides) 1)"

section \<open>Row-major coordinates\<close>

text \<open>The exact index of a logical element, the coordinates taken from the last axis.\<close>

fun exact_index :: "int list \<Rightarrow> int list \<Rightarrow> int \<Rightarrow> int" where
  "exact_index (extent # shape) (stride # strides) logical =
     logical mod extent * stride + exact_index shape strides (logical div extent)"
| "exact_index _ _ logical = 0"

fun reach :: "int list \<Rightarrow> int list \<Rightarrow> int" where
  "reach (extent # shape) (stride # strides) = (extent - 1) * stride + reach shape strides"
| "reach _ _ = 0"

lemma exact_index_bounds:
  "length strides = length shape \<Longrightarrow> \<forall>x\<in>set shape. 0 < x \<Longrightarrow> \<forall>x\<in>set strides. 0 \<le> x \<Longrightarrow>
    0 \<le> exact_index shape strides l \<and> exact_index shape strides l \<le> reach shape strides"
proof (induction shape strides l rule: exact_index.induct)
  case (1 extent shape stride strides l)
  have e: "0 \<le> l mod extent" "l mod extent \<le> extent - 1" "0 \<le> stride"
    using 1 pos_mod_bound [of extent l] pos_mod_sign [of extent l] by auto
  then have "0 \<le> l mod extent * stride" "l mod extent * stride \<le> (extent - 1) * stride"
    by (auto intro: mult_right_mono)
  moreover have "0 \<le> exact_index shape strides (l div extent)
      \<and> exact_index shape strides (l div extent) \<le> reach shape strides"
    using 1 by simp
  ultimately show ?case by auto
qed simp_all

lemma storage_index_exact:
  "length strides = length shape \<Longrightarrow> \<forall>x\<in>set shape. 0 < x \<and> x \<le> size_limit \<Longrightarrow> 0 \<le> l \<Longrightarrow>
    wrap_u64 (storage_index_loop shape strides l i) = wrap_u64 (i + exact_index shape strides l)"
proof (induction shape strides l i rule: storage_index_loop.induct)
  case (1 extent shape stride strides l i)
  have e: "wrap_u64 extent = extent" "0 < extent" using 1 by (auto simp: size_limit_def intro: wrap_u64_id)
  have "0 \<le> l div extent" using e 1 by (simp add: pos_imp_zdiv_nonneg_iff)
  then show ?case using 1 e by (simp add: Let_def add.assoc)
qed simp_all

lemma storage_index_loop_wrapped: "wrap_u64 i = i \<Longrightarrow> wrap_u64 (storage_index_loop shape strides l i) = storage_index_loop shape strides l i"
  by (induction shape strides l i rule: storage_index_loop.induct) (simp_all add: Let_def)

lemma reach_append:
  "length strides = length shape \<Longrightarrow> reach (shape @ [e]) (strides @ [s]) = reach shape strides + (e - 1) * s"
  by (induction shape strides rule: reach.induct) auto

lemma reach_rev: "length strides = length shape \<Longrightarrow> reach (rev shape) (rev strides) = reach shape strides"
  by (induction shape strides rule: reach.induct) (auto simp: reach_append)

section \<open>Soundness of the storage proof\<close>

lemma within_loop_sound:
  "within_loop shape strides a e = Some (b, is_empty) \<Longrightarrow> length strides = length shape \<Longrightarrow> 0 \<le> a \<Longrightarrow> a \<le> size_limit \<Longrightarrow>
    (\<forall>x\<in>set shape. 0 \<le> x \<and> x \<le> size_limit) \<and> (\<forall>x\<in>set strides. 0 \<le> x)
      \<and> is_empty = (e \<or> 0 \<in> set shape) \<and> b \<le> size_limit
      \<and> (0 \<notin> set shape \<longrightarrow> b = a + reach shape strides)"
proof (induction shape strides a e rule: within_loop.induct)
  case (1 extent shape stride strides a e)
  have "\<not> (extent < 0 \<or> stride < 0)" "\<not> (extent > size_limit \<or> stride > size_limit)"
    using 1(3) by (simp_all only: within_loop.simps split: if_splits) auto
  note top = this
  then have ext: "0 \<le> extent" "extent \<le> size_limit" "0 \<le> stride" by auto
  show ?case
  proof (cases "extent = 0")
    case True
    have "within_loop shape strides a True = Some (b, is_empty)"
      using 1(3) top True by (simp only: within_loop.simps if_False if_True refl)
    then show ?thesis using 1(1) [OF top True] 1(4-6) ext True by simp
  next
    case False
    define delta where "delta = (extent - 1) * stride"
    have ok: "stride = 0 \<or> extent - 1 \<le> size_limit div stride"
      using 1(3) False ext by (auto simp: Let_def split: if_splits)
    have d: "0 \<le> delta" "delta \<le> size_limit"
      using ok ext False le_div_mult [of stride "extent - 1" size_limit]
      by (cases "stride = 0"; simp add: delta_def size_limit_def)+
    then have w: "wrap_u64 delta = delta" by (simp add: wrap_u64_id size_limit_def)
    have le: "delta \<le> size_limit - a" and rec: "within_loop shape strides (wrap_u64 (a + delta)) e = Some (b, is_empty)"
      using 1(3) False ext ok w by (auto simp: Let_def delta_def [symmetric] split: if_splits)
    have w2: "wrap_u64 (a + delta) = a + delta"
      using le d 1(5) by (simp add: wrap_u64_id size_limit_def)
    have guards: "\<not> (extent < 0 \<or> stride < 0)" "\<not> (extent > size_limit \<or> stride > size_limit)"
      "\<not> (stride \<noteq> 0 \<and> size_limit div stride < extent - 1)" "\<not> size_limit - a < delta"
      using 1(3) ok le by (auto split: if_splits)
    have "(\<forall>x\<in>set shape. 0 \<le> x \<and> x \<le> size_limit) \<and> (\<forall>x\<in>set strides. 0 \<le> x)
      \<and> is_empty = (e \<or> 0 \<in> set shape) \<and> b \<le> size_limit
      \<and> (0 \<notin> set shape \<longrightarrow> b = wrap_u64 (a + delta) + reach shape strides)"
      using 1(2) [OF guards(1,2) False refl refl guards(3) refl] guards(4) rec 1(4,5) d(1) le
      unfolding delta_def [symmetric] w w2 by simp
    then have "(\<forall>x\<in>set shape. 0 \<le> x \<and> x \<le> size_limit) \<and> (\<forall>x\<in>set strides. 0 \<le> x)
      \<and> is_empty = (e \<or> 0 \<in> set shape) \<and> b \<le> size_limit
      \<and> (0 \<notin> set shape \<longrightarrow> b = a + delta + reach shape strides)" unfolding w2 .
    then show ?thesis using ext False by (auto simp: delta_def)
  qed
qed simp_all

lemma reach_nonneg: "\<forall>x\<in>set shape. 0 < x \<Longrightarrow> \<forall>x\<in>set strides. 0 \<le> x \<Longrightarrow> 0 \<le> reach shape strides"
  by (induction shape strides rule: reach.induct) auto

lemma within_loop_complete:
  "length strides = length shape \<Longrightarrow> \<forall>x\<in>set shape. 0 < x \<and> x \<le> size_limit \<Longrightarrow> \<forall>x\<in>set strides. 0 \<le> x \<and> x \<le> size_limit \<Longrightarrow>
    0 \<le> a \<Longrightarrow> a + reach shape strides \<le> size_limit \<Longrightarrow> within_loop shape strides a e = Some (a + reach shape strides, e)"
proof (induction shape strides a e rule: within_loop.induct)
  case (1 extent shape stride strides a e)
  define delta where "delta = (extent - 1) * stride"
  have r: "0 \<le> reach shape strides" using 1 by (intro reach_nonneg) auto
  have d: "0 \<le> delta" "a + delta + reach shape strides \<le> size_limit" using 1 by (auto simp: delta_def)
  then have span: "stride \<noteq> 0 \<Longrightarrow> extent - 1 \<le> size_limit div stride"
    using le_div_mult [of stride "extent - 1" size_limit] 1(5,6) r by (auto simp: delta_def)
  have w: "wrap_u64 delta = delta" "wrap_u64 (a + delta) = a + delta"
    using d r 1(6) by (auto simp: size_limit_def intro: wrap_u64_id)
  have "within_loop (extent # shape) (stride # strides) a e = within_loop shape strides (a + delta) e"
    using 1 d r w span by (auto simp: Let_def delta_def [symmetric])
  moreover have "within_loop shape strides (wrap_u64 (a + delta)) e = Some (a + delta + reach shape strides, e)"
  proof -
    have "\<not> (extent < 0 \<or> stride < 0)" "\<not> (size_limit < extent \<or> size_limit < stride)" "extent \<noteq> 0"
      "\<not> (stride \<noteq> 0 \<and> size_limit div stride < extent - 1)" "\<not> size_limit - a < delta"
      using 1(4,5) span d r by (auto simp: not_less)
    then show ?thesis
      using 1(2) [OF _ _ _ refl refl _ refl] 1(3-6) d w by (simp add: delta_def [symmetric])
  qed
  ultimately show ?case using w by (simp add: delta_def add.assoc)
qed simp_all

text \<open>C8: The storage proof of a view is sound and, where there are elements and no axis runs backwards,
  exact: if \<open>within_storage\<close> accepts a view, every element's wrapped index is inside the storage and
  equals its exact row-major index; and a view of non-negative strides without a zero extent is
  accepted exactly when its last element is inside the storage.\<close>

theorem within_storage_sound:
  assumes "0 \<le> offset" "offset \<le> size_limit" "storage_count \<le> size_limit" "length strides = length shape"
    and "\<forall>x\<in>set shape. i64_range x" "\<forall>x\<in>set strides. i64_range x"
  shows "(within_storage offset shape strides storage_count \<longrightarrow>
      (\<forall>l. 0 \<le> l \<and> l < prod_list shape \<longrightarrow>
        storage_index offset shape strides l = offset + exact_index (rev shape) (rev strides) l
        \<and> 0 \<le> storage_index offset shape strides l \<and> storage_index offset shape strides l < storage_count))
    \<and> ((\<forall>x\<in>set shape. 0 < x) \<and> (\<forall>x\<in>set strides. 0 \<le> x) \<longrightarrow>
      within_storage offset shape strides storage_count = (offset + reach shape strides < storage_count))"
proof (intro conjI impI allI)
  fix l assume w: "within_storage offset shape strides storage_count" and l: "0 \<le> l \<and> l < prod_list shape"
  then obtain b is_empty where b: "within_loop shape strides offset False = Some (b, is_empty)" "is_empty \<or> b < storage_count"
    using assms(4) by (auto simp: within_storage_def split: option.splits)
  note s = within_loop_sound [OF b(1) assms(4,1,2)]
  have nz: "0 \<notin> set shape" using l by (metis less_le_trans not_less prod_list_zero_iff)
  then have b': "b = offset + reach shape strides" "offset + reach shape strides < storage_count"
    "\<forall>x\<in>set shape. 0 < x \<and> x \<le> size_limit" "\<forall>x\<in>set strides. 0 \<le> x"
    using s b(2) by (auto simp: order_less_le)
  have e: "0 \<le> exact_index (rev shape) (rev strides) l" "exact_index (rev shape) (rev strides) l \<le> reach shape strides"
    using exact_index_bounds [of "rev strides" "rev shape" l] b'(3,4) assms(4) reach_rev [OF assms(4)] by auto
  have "wrap_u64 (storage_index_loop (rev shape) (rev strides) l offset) = wrap_u64 (offset + exact_index (rev shape) (rev strides) l)"
    using storage_index_exact [of "rev strides" "rev shape" l offset] assms(4) b'(3) l by simp
  moreover have "wrap_u64 (storage_index_loop (rev shape) (rev strides) l offset) = storage_index_loop (rev shape) (rev strides) l offset"
    using assms(1,2) by (intro storage_index_loop_wrapped wrap_u64_id) (auto simp: size_limit_def)
  moreover have "wrap_u64 (offset + exact_index (rev shape) (rev strides) l) = offset + exact_index (rev shape) (rev strides) l"
    using e b'(2) assms(1,3) by (intro wrap_u64_id) (auto simp: size_limit_def)
  ultimately have i: "storage_index offset shape strides l = offset + exact_index (rev shape) (rev strides) l"
    by (cases "shape = []") (auto simp: storage_index_def)
  show "storage_index offset shape strides l = offset + exact_index (rev shape) (rev strides) l" by (rule i)
  show "0 \<le> storage_index offset shape strides l" "storage_index offset shape strides l < storage_count"
    unfolding i using e b'(2) assms(1) by linarith+
next
  assume p: "(\<forall>x\<in>set shape. 0 < x) \<and> (\<forall>x\<in>set strides. 0 \<le> x)"
  show "within_storage offset shape strides storage_count = (offset + reach shape strides < storage_count)"
  proof (cases "offset + reach shape strides \<le> size_limit")
    case True
    have "within_loop shape strides offset False = Some (offset + reach shape strides, False)"
      using p assms True by (intro within_loop_complete) (auto simp: size_limit_def)
    then show ?thesis using assms(4) by (simp add: within_storage_def)
  next
    case False
    have "\<not> within_storage offset shape strides storage_count"
      using within_loop_sound [OF _ assms(4,1,2), of False] p False assms(3,4)
      by (fastforce simp: within_storage_def split: option.splits)
    then show ?thesis using False assms(3) by simp
  qed
qed

theorem within_storage_sound_witness:
  "within_storage 2 [2, 3] [5, 1] 10 \<and> storage_index 2 [2, 3] [5, 1] 5 < 10"
proof -
  have "0 \<le> (2 :: int)" "(2 :: int) \<le> size_limit" "(10 :: int) \<le> size_limit" "length [5, 1 :: int] = length [2, 3 :: int]"
    "\<forall>x\<in>set [2, 3 :: int]. i64_range x" "\<forall>x\<in>set [5, 1 :: int]. i64_range x"
    by (simp_all add: size_limit_def)
  note t = within_storage_sound [OF this]
  then have w: "within_storage 2 [2, 3] [5, 1] 10" by simp
  then show ?thesis using t by simp
qed

section \<open>Dense views\<close>

lemma dense_loop_exact:
  "dense_loop shape strides expected \<Longrightarrow> length strides = length shape \<Longrightarrow> \<forall>x\<in>set shape. 0 < x \<Longrightarrow>
    0 < expected \<Longrightarrow> expected \<le> size_limit \<Longrightarrow> 0 \<le> l \<Longrightarrow> l < prod_list shape \<Longrightarrow> exact_index shape strides l = l * expected"
proof (induction shape strides expected arbitrary: l rule: dense_loop.induct)
  case (1 extent shape stride strides expected)
  show ?case
  proof (cases "extent = 1")
    case True
    then show ?thesis using 1 by simp
  next
    case False
    have d: "extent \<le> size_limit" "stride = expected" "expected \<le> size_limit div extent"
      "dense_loop shape strides (wrap_u64 (expected * extent))"
      using 1(3) False by (auto split: if_splits)
    have e: "0 < extent" "expected * extent \<le> size_limit" using 1(5) d(3) le_div_mult [of extent expected size_limit] by auto
    then have w: "wrap_u64 (expected * extent) = expected * extent" using 1(6) by (intro wrap_u64_id) (auto simp: size_limit_def)
    have q: "0 \<le> l div extent" "l div extent < prod_list shape"
      using 1(8,9) e(1) le_div_mult [of extent "prod_list shape" l]
      by (auto simp: pos_imp_zdiv_nonneg_iff not_le [symmetric] mult.commute)
    have "exact_index shape strides (l div extent) = l div extent * (expected * extent)"
      using 1(2) [of "l div extent"] False d e w q 1(3-6) by (simp split: if_splits)
    moreover define q r where "q = l div extent" and "r = l mod extent"
    ultimately have "exact_index (extent # shape) (stride # strides) l = r * expected + q * (expected * extent)"
      by (simp add: d(2))
    also have "\<dots> = (q * extent + r) * expected" by (simp add: algebra_simps)
    also have "q * extent + r = l" by (simp add: q_def r_def)
    finally show ?thesis .
  qed
qed simp_all

text \<open>C27: A dense view is one run: if \<open>dense_run\<close> accepts the shape and strides, the logical element \<open>l\<close> of
  the view lives at \<open>offset + l\<close>, so the elements are contiguous in row-major order.\<close>

theorem dense_run_contiguous:
  assumes "dense_run shape strides" "0 \<le> l" "l < prod_list shape" "0 \<le> offset" "offset + l \<le> size_limit"
    and "\<forall>x\<in>set shape. i64_range x"
  shows "storage_index offset shape strides l = offset + l"
proof -
  have len: "length strides = length shape" and pos: "\<forall>x\<in>set shape. 0 \<le> x"
    using assms(1) by (auto simp: dense_run_def not_less split: if_splits)
  have nz: "0 \<notin> set shape" using assms(2,3) by (metis less_le_trans not_less prod_list_zero_iff)
  then have p: "\<forall>x\<in>set shape. 0 < x" using pos by (auto simp: order_less_le)
  have "dense_loop (rev shape) (rev strides) 1" using assms(1) nz by (auto simp: dense_run_def split: if_splits)
  then have "exact_index (rev shape) (rev strides) l = l"
    using dense_loop_exact [of "rev shape" "rev strides" 1 l] len p assms(2,3) by (simp add: size_limit_def prod_list.rev)
  moreover have "\<forall>x\<in>set shape. 0 < x \<and> x \<le> size_limit" using p assms(6) by (force simp: size_limit_def)
  ultimately have "wrap_u64 (storage_index_loop (rev shape) (rev strides) l offset) = wrap_u64 (offset + l)"
    using storage_index_exact [of "rev strides" "rev shape" l offset] len assms(2) by simp
  moreover have "wrap_u64 (storage_index_loop (rev shape) (rev strides) l offset) = storage_index_loop (rev shape) (rev strides) l offset"
    using assms(2,4,5) by (intro storage_index_loop_wrapped wrap_u64_id) (auto simp: size_limit_def)
  ultimately show ?thesis
    using assms(2-5) by (cases "shape = []") (auto simp: storage_index_def wrap_u64_id size_limit_def)
qed

theorem dense_run_contiguous_witness:
  "storage_index 7 [2, 1, 3] [3, - 9, 1] 4 = 11"
proof -
  have "dense_run [2, 1, 3] [3, - 9, 1]" by code_simp
  then show ?thesis using dense_run_contiguous [of "[2, 1, 3]" "[3, - 9, 1]" 4 7] by (simp add: size_limit_def)
qed

end
