(* ===== verification/Numeric_Types.thy ===== *)
theory Numeric_Types
  imports Prelude
begin

text \<open>
  The numeric kinds of the language: the kinds of a type (\<open>include/quidra/type_kind.hpp\<close>), the dtypes
  and sort kinds of \<open>abi/dtype.hpp\<close>, and the table \<open>numeric_kinds\<close> of \<open>numeric_types.hpp\<close> with its
  look-ups. The property at the end is the consistency of the table on which the numeric predicates of
  the checker, the tensor dtypes and the runtime's messages rely.
\<close>

section \<open>Kinds, dtypes and sort kinds\<close>

datatype type_kind =
  Int64_K | Int8_K | Int16_K | Int32_K | Nat8_K | Nat16_K | Nat32_K | Nat64_K | Int_K
  | Real64_K | Real32_K | Real_K | Bool_K | String_K | Bin_K | Void_K | Never_K | Error_K | None_K
  | Array_K | Tensor_K | Union_K | Class_K | Address_K | Function_K | Auto_K | Range_K | Invalid_K
  | Nat_K | Real16_K | Real16b_K | Com16_K | Com16b_K | Com32_K | Com64_K | Com_K | Tuple_K | Traversal_K

datatype dtype =
  Int64_D | Int8_D | Int16_D | Int32_D | UInt8_D | UInt16_D | UInt32_D | UInt64_D | Float64_D | Float32_D
  | Boolean_D | Float16_D | BFloat16_D | Complex16_D | Complex16b_D | Complex32_D | Complex64_D

fun dtype_code :: "dtype \<Rightarrow> int" where
  "dtype_code Int64_D = 1"
| "dtype_code Int8_D = 2"
| "dtype_code Int16_D = 3"
| "dtype_code Int32_D = 4"
| "dtype_code UInt8_D = 5"
| "dtype_code UInt16_D = 6"
| "dtype_code UInt32_D = 7"
| "dtype_code UInt64_D = 8"
| "dtype_code Float64_D = 9"
| "dtype_code Float32_D = 10"
| "dtype_code Boolean_D = 11"
| "dtype_code Float16_D = 12"
| "dtype_code BFloat16_D = 13"
| "dtype_code Complex16_D = 14"
| "dtype_code Complex16b_D = 15"
| "dtype_code Complex32_D = 16"
| "dtype_code Complex64_D = 17"

record dtype_entry =
  entry_dtype :: dtype
  bytes :: int
  quidra_name :: string

definition dtype_infos :: "dtype_entry list" where
  "dtype_infos = map (\<lambda>(d, b, n). \<lparr>entry_dtype = d, bytes = b, quidra_name = n\<rparr>)
     [(Int64_D, 8, ''int64''), (Int8_D, 1, ''int8''), (Int16_D, 2, ''int16''), (Int32_D, 4, ''int32''),
      (UInt8_D, 1, ''nat8''), (UInt16_D, 2, ''nat16''), (UInt32_D, 4, ''nat32''), (UInt64_D, 8, ''nat64''),
      (Float64_D, 8, ''real64''), (Float32_D, 4, ''real32''), (Boolean_D, 1, ''bool''),
      (Float16_D, 2, ''real16''), (BFloat16_D, 2, ''real16b''), (Complex16_D, 4, ''com16''),
      (Complex16b_D, 4, ''com16b''), (Complex32_D, 8, ''com32''), (Complex64_D, 16, ''com64'')]"

definition canonical_tensor_dtype_name :: "string \<Rightarrow> bool" where
  "canonical_tensor_dtype_name name = list_ex (\<lambda>info. quidra_name info = name) dtype_infos"

definition numeric_dtype_code :: "int \<Rightarrow> bool" where
  "numeric_dtype_code c \<longleftrightarrow> dtype_code Int64_D \<le> c \<and> c \<le> dtype_code Float32_D \<or> c = dtype_code Float16_D \<or> c = dtype_code BFloat16_D"

definition real_dtype_code :: "int \<Rightarrow> bool" where
  "real_dtype_code c \<longleftrightarrow> c = dtype_code Float64_D \<or> c = dtype_code Float32_D \<or> c = dtype_code Float16_D \<or> c = dtype_code BFloat16_D"

definition complex_dtype_code :: "int \<Rightarrow> bool" where
  "complex_dtype_code c \<longleftrightarrow> dtype_code Complex16_D \<le> c \<and> c \<le> dtype_code Complex64_D"

definition complex_part_dtype_code :: "int \<Rightarrow> int" where
  "complex_part_dtype_code c =
     (if c = dtype_code Complex16_D then dtype_code Float16_D
      else if c = dtype_code Complex16b_D then dtype_code BFloat16_D
      else if c = dtype_code Complex32_D then dtype_code Float32_D
      else if c = dtype_code Complex64_D then dtype_code Float64_D
      else c)"

definition dtype_info :: "int \<Rightarrow> dtype_entry" where
  "dtype_info c = dtype_infos ! nat (c - dtype_code Int64_D)"

datatype sort_element_kind =
  Int64_S | Int8_S | Int16_S | Int32_S | UInt8_S | UInt16_S | UInt32_S | UInt64_S | Float64_S | Float32_S
  | Boolean_S | String_S | Bare_Integer_S | Real16_S | Real16b_S

section \<open>The table\<close>

datatype numeric_family = Natural | Integer | Real_Family | Complex_Family

datatype ieee_format = No_Format | Binary16 | Bfloat16 | Binary32 | Binary64

datatype c_abi_scalar = Int8_C | Int16_C | Int32_C | Int64_C | UInt8_C | UInt16_C | UInt32_C | UInt64_C | Float_C | Double_C

record numeric_kind =
  nk_kind :: type_kind
  spelling :: string
  family :: numeric_family
  width :: int
  is_signed :: bool
  format :: ieee_format
  dtype_of :: "dtype option"
  sort_kind :: "sort_element_kind option"
  c_abi :: "c_abi_scalar option"
  bitwise :: bool
  tensor_element :: bool
  autograd_tracked :: bool

definition row :: "type_kind \<Rightarrow> string \<Rightarrow> numeric_family \<Rightarrow> int \<Rightarrow> bool \<Rightarrow> ieee_format \<Rightarrow> dtype option
    \<Rightarrow> sort_element_kind option \<Rightarrow> c_abi_scalar option \<Rightarrow> bool \<Rightarrow> bool \<Rightarrow> bool \<Rightarrow> numeric_kind" where
  "row k s f w sg ieee d sk c b te df =
     \<lparr>nk_kind = k, spelling = s, family = f, width = w, is_signed = sg, format = ieee, dtype_of = d, sort_kind = sk,
      c_abi = c, bitwise = b, tensor_element = te, autograd_tracked = df\<rparr>"

definition numeric_kinds :: "numeric_kind list" where
  "numeric_kinds =
     [row Int64_K ''int64'' Integer 64 True No_Format (Some Int64_D) (Some Int64_S) (Some Int64_C) True True False,
      row Int8_K ''int8'' Integer 8 True No_Format (Some Int8_D) (Some Int8_S) (Some Int8_C) True True False,
      row Int16_K ''int16'' Integer 16 True No_Format (Some Int16_D) (Some Int16_S) (Some Int16_C) True True False,
      row Int32_K ''int32'' Integer 32 True No_Format (Some Int32_D) (Some Int32_S) (Some Int32_C) True True False,
      row Nat8_K ''nat8'' Natural 8 False No_Format (Some UInt8_D) (Some UInt8_S) (Some UInt8_C) True True False,
      row Nat16_K ''nat16'' Natural 16 False No_Format (Some UInt16_D) (Some UInt16_S) (Some UInt16_C) True True False,
      row Nat32_K ''nat32'' Natural 32 False No_Format (Some UInt32_D) (Some UInt32_S) (Some UInt32_C) True True False,
      row Nat64_K ''nat64'' Natural 64 False No_Format (Some UInt64_D) (Some UInt64_S) (Some UInt64_C) True True False,
      row Int_K ''int'' Integer 0 True No_Format None (Some Bare_Integer_S) None False False False,
      row Nat_K ''nat'' Natural 0 False No_Format None (Some Bare_Integer_S) None False False False,
      row Real64_K ''real64'' Real_Family 64 True Binary64 (Some Float64_D) (Some Float64_S) (Some Double_C) False True True,
      row Real32_K ''real32'' Real_Family 32 True Binary32 (Some Float32_D) (Some Float32_S) (Some Float_C) False True True,
      row Real_K ''real'' Real_Family 0 True No_Format None None None False False False,
      row Real16_K ''real16'' Real_Family 16 True Binary16 (Some Float16_D) (Some Real16_S) None False True True,
      row Real16b_K ''real16b'' Real_Family 16 True Bfloat16 (Some BFloat16_D) (Some Real16b_S) None False True True,
      row Com16_K ''com16'' Complex_Family 32 True No_Format (Some Complex16_D) None None False True False,
      row Com16b_K ''com16b'' Complex_Family 32 True No_Format (Some Complex16b_D) None None False True False,
      row Com32_K ''com32'' Complex_Family 64 True No_Format (Some Complex32_D) None None False True False,
      row Com64_K ''com64'' Complex_Family 128 True No_Format (Some Complex64_D) None None False True False,
      row Com_K ''com'' Complex_Family 0 True No_Format None None None False False False]"

definition numeric_kind_info :: "type_kind \<Rightarrow> numeric_kind option" where
  "numeric_kind_info k = find (\<lambda>info. nk_kind info = k) numeric_kinds"

definition numeric_kind_of_spelling :: "string \<Rightarrow> numeric_kind option" where
  "numeric_kind_of_spelling s = find (\<lambda>info. spelling info = s) numeric_kinds"

fun complex_part_kind :: "type_kind \<Rightarrow> type_kind" where
  "complex_part_kind Com16_K = Real16_K"
| "complex_part_kind Com16b_K = Real16b_K"
| "complex_part_kind Com32_K = Real32_K"
| "complex_part_kind Com64_K = Real64_K"
| "complex_part_kind Com_K = Real_K"
| "complex_part_kind _ = Invalid_K"

fun ieee_max_exponent :: "ieee_format \<Rightarrow> nat" where
  "ieee_max_exponent Binary16 = 15"
| "ieee_max_exponent Bfloat16 = 127"
| "ieee_max_exponent Binary32 = 127"
| "ieee_max_exponent Binary64 = 1023"
| "ieee_max_exponent No_Format = 0"

fun ieee_precision_bits :: "ieee_format \<Rightarrow> nat" where
  "ieee_precision_bits Binary16 = 11"
| "ieee_precision_bits Bfloat16 = 8"
| "ieee_precision_bits Binary32 = 24"
| "ieee_precision_bits Binary64 = 53"
| "ieee_precision_bits No_Format = 0"

section \<open>Conversion type names of the runtime\<close>

definition conversion_type_integer :: int where "conversion_type_integer = 256"
definition conversion_type_real :: int where "conversion_type_real = 257"
definition conversion_type_natural :: int where "conversion_type_natural = 258"
definition conversion_type_complex :: int where "conversion_type_complex = 259"

definition conversion_type_name :: "int \<Rightarrow> string" where
  "conversion_type_name type =
     (if type = conversion_type_integer then ''int''
      else if type = conversion_type_real then ''real''
      else if type = conversion_type_natural then ''nat''
      else if type = conversion_type_complex then ''com''
      else if numeric_dtype_code type \<or> complex_dtype_code type then quidra_name (dtype_info type)
      else ''number'')"

definition integer_conversion_type :: "int \<Rightarrow> bool \<Rightarrow> int" where
  "integer_conversion_type bits sg =
     (if bits = 8 then (if sg then dtype_code Int8_D else dtype_code UInt8_D)
      else if bits = 16 then (if sg then dtype_code Int16_D else dtype_code UInt16_D)
      else if bits = 32 then (if sg then dtype_code Int32_D else dtype_code UInt32_D)
      else (if sg then dtype_code Int64_D else dtype_code UInt64_D))"

section \<open>Consistency\<close>

definition row_consistent :: "numeric_kind \<Rightarrow> bool" where
  "row_consistent info \<longleftrightarrow>
     (let fixed = width info \<noteq> 0; rl = family info = Real_Family; cx = family info = Complex_Family
      in numeric_kind_info (nk_kind info) = Some info \<and> numeric_kind_of_spelling (spelling info) = Some info
         \<and> (format info \<noteq> No_Format) = (fixed \<and> rl)
         \<and> (dtype_of info \<noteq> None) = tensor_element info \<and> (\<not> tensor_element info \<or> fixed)
         \<and> (\<not> bitwise info \<or> fixed \<and> \<not> rl) \<and> (\<not> autograd_tracked info \<or> fixed \<and> rl)
         \<and> \<not> (family info = Natural \<and> is_signed info)
         \<and> cx = (complex_part_kind (nk_kind info) \<noteq> Invalid_K)
         \<and> \<not> (cx \<and> (sort_kind info \<noteq> None \<or> c_abi info \<noteq> None \<or> autograd_tracked info))
         \<and> (case dtype_of info of None \<Rightarrow> True | Some d \<Rightarrow>
              bytes (dtype_info (dtype_code d)) * 8 = width info
              \<and> entry_dtype (dtype_info (dtype_code d)) = d
              \<and> quidra_name (dtype_info (dtype_code d)) = spelling info
              \<and> conversion_type_name (dtype_code d) = spelling info
              \<and> (family info = Integer \<or> family info = Natural) = (integer_conversion_type (width info) (is_signed info) = dtype_code d)
              \<and> real_dtype_code (dtype_code d) = rl \<and> complex_dtype_code (dtype_code d) = cx
              \<and> numeric_dtype_code (dtype_code d) = (\<not> cx)
              \<and> (\<not> cx \<or> map_option (dtype_code \<circ> the \<circ> dtype_of) (numeric_kind_info (complex_part_kind (nk_kind info)))
                   = Some (complex_part_dtype_code (dtype_code d)))))"

lemma numeric_kinds_rows: "list_all row_consistent numeric_kinds"
  by code_simp

text \<open>The numeric tables agree with one another: looking a kind up, by kind or by spelling, gives a
  row that is consistent (format, dtype, bit width, signedness, parts of the complex kinds), whose
  dtype has the row's width in bytes and is spelled by the runtime as the compiler spells the type;
  no other kind has a row; and the arbitrary-precision kinds have the spellings the runtime prints.\<close>

theorem numeric_kind_info_consistent:
  "(case numeric_kind_info k of
      Some info \<Rightarrow> nk_kind info = k \<and> row_consistent info
    | None \<Rightarrow> k \<notin> nk_kind ` set numeric_kinds)
   \<and> (case numeric_kind_of_spelling s of
      Some info \<Rightarrow> spelling info = s \<and> row_consistent info
    | None \<Rightarrow> s \<notin> spelling ` set numeric_kinds)
   \<and> map_option spelling (numeric_kind_info Int_K) = Some (conversion_type_name conversion_type_integer)
   \<and> map_option spelling (numeric_kind_info Nat_K) = Some (conversion_type_name conversion_type_natural)
   \<and> map_option spelling (numeric_kind_info Real_K) = Some (conversion_type_name conversion_type_real)
   \<and> map_option spelling (numeric_kind_info Com_K) = Some (conversion_type_name conversion_type_complex)"
proof -
  have rows: "info \<in> set numeric_kinds \<Longrightarrow> row_consistent info" for info
    using numeric_kinds_rows by (simp add: list_all_iff)
  have found: "find P xs = Some x \<Longrightarrow> x \<in> set xs \<and> P x" for P and xs :: "numeric_kind list" and x
    by (auto simp: find_Some_iff)
  have four: "map_option spelling (numeric_kind_info Int_K) = Some (conversion_type_name conversion_type_integer)"
    "map_option spelling (numeric_kind_info Nat_K) = Some (conversion_type_name conversion_type_natural)"
    "map_option spelling (numeric_kind_info Real_K) = Some (conversion_type_name conversion_type_real)"
    "map_option spelling (numeric_kind_info Com_K) = Some (conversion_type_name conversion_type_complex)"
    by code_simp+
  show ?thesis
    using rows found four
    by (auto simp: numeric_kind_info_def numeric_kind_of_spelling_def find_None_iff split: option.split)
qed

end
