(* ===== verification/Exact_Ring.thy ===== *)
theory Exact_Ring
  imports Prelude
begin

text \<open>
  The interface of an exact signed integer type, as the code's clients use one: a representation, its
  addition, multiplication and negation, and the promise that they keep the representation
  well-formed and compute the integer operation. The runtime's \<open>BigInt\<close> and the compiler's
  \<open>ShapeCoefficient\<close> both provide it; what rests on the laws alone is proved here once.
\<close>

locale exact_ring =
  fixes ok :: "'a \<Rightarrow> bool" and val :: "'a \<Rightarrow> int"
    and plus_r :: "'a \<Rightarrow> 'a \<Rightarrow> 'a" and times_r :: "'a \<Rightarrow> 'a \<Rightarrow> 'a" and uminus_r :: "'a \<Rightarrow> 'a"
  assumes plus_ok: "ok a \<Longrightarrow> ok b \<Longrightarrow> ok (plus_r a b)"
    and times_ok: "ok a \<Longrightarrow> ok b \<Longrightarrow> ok (times_r a b)"
    and uminus_ok: "ok a \<Longrightarrow> ok (uminus_r a)"
    and plus_val: "ok a \<Longrightarrow> ok b \<Longrightarrow> val (plus_r a b) = val a + val b"
    and times_val: "ok a \<Longrightarrow> ok b \<Longrightarrow> val (times_r a b) = val a * val b"
    and uminus_val: "ok a \<Longrightarrow> val (uminus_r a) = - val a"
    and val_inj: "ok a \<Longrightarrow> ok b \<Longrightarrow> val a = val b \<Longrightarrow> a = b"
begin

lemma plus_commute: "ok a \<Longrightarrow> ok b \<Longrightarrow> plus_r a b = plus_r b a"
  by (simp add: val_inj plus_ok plus_val)

lemma plus_assoc: "ok a \<Longrightarrow> ok b \<Longrightarrow> ok c \<Longrightarrow> plus_r (plus_r a b) c = plus_r a (plus_r b c)"
  by (simp add: val_inj plus_ok plus_val)

lemma times_commute: "ok a \<Longrightarrow> ok b \<Longrightarrow> times_r a b = times_r b a"
  by (simp add: val_inj times_ok times_val)

lemma times_assoc: "ok a \<Longrightarrow> ok b \<Longrightarrow> ok c \<Longrightarrow> times_r (times_r a b) c = times_r a (times_r b c)"
  by (simp add: val_inj times_ok times_val)

lemma distrib: "ok a \<Longrightarrow> ok b \<Longrightarrow> ok c \<Longrightarrow> times_r a (plus_r b c) = plus_r (times_r a b) (times_r a c)"
  by (simp add: val_inj plus_ok times_ok plus_val times_val algebra_simps)

lemma uminus_uminus: "ok a \<Longrightarrow> uminus_r (uminus_r a) = a"
  by (simp add: val_inj uminus_ok uminus_val)

lemmas ring_ok = plus_ok times_ok uminus_ok

lemmas ring_val = plus_val times_val uminus_val

text \<open>Cross products compare fractions, whatever the representation.\<close>

lemma cross_products:
  assumes "ok n" "ok d" "ok m" "ok e" "0 < val d" "0 < val e"
  shows "of_int (val n) / of_int (val d) + of_int (val m) / of_int (val e)
      = (of_int (val (plus_r (times_r n e) (times_r m d))) / of_int (val (times_r d e)) :: rat)"
    and "of_int (val n) / of_int (val d) * (of_int (val m) / of_int (val e))
      = (of_int (val (times_r n m)) / of_int (val (times_r d e)) :: rat)"
    and "val (times_r n e) \<le> val (times_r m d)
      \<longleftrightarrow> of_int (val n) / of_int (val d) \<le> (of_int (val m) / of_int (val e) :: rat)"
proof -
  have nz: "(of_int (val d) :: rat) > 0" "(of_int (val e) :: rat) > 0" using assms(5,6) by simp_all
  show "of_int (val n) / of_int (val d) + of_int (val m) / of_int (val e)
      = (of_int (val (plus_r (times_r n e) (times_r m d))) / of_int (val (times_r d e)) :: rat)"
    using assms nz by (simp add: plus_val times_val times_ok add_frac_eq)
  show "of_int (val n) / of_int (val d) * (of_int (val m) / of_int (val e))
      = (of_int (val (times_r n m)) / of_int (val (times_r d e)) :: rat)"
    using assms by (simp add: times_val)
  have "val (times_r n e) \<le> val (times_r m d)
      \<longleftrightarrow> (of_int (val n * val e) :: rat) \<le> of_int (val m * val d)"
    using assms by (simp only: times_val of_int_le_iff)
  also have "\<dots> \<longleftrightarrow> of_int (val n) / of_int (val d) \<le> (of_int (val m) / of_int (val e) :: rat)"
    using nz by (simp add: divide_le_eq le_divide_eq mult.commute)
  finally show "val (times_r n e) \<le> val (times_r m d)
      \<longleftrightarrow> of_int (val n) / of_int (val d) \<le> (of_int (val m) / of_int (val e) :: rat)" .
qed

end

end
