(* ===== verification/Shape_Coefficient.thy ===== *)
theory Shape_Coefficient
  imports Exact_Ring Big_Integer_Text
begin

text \<open>
  The exact signed coefficients of shape polynomials, \<open>class ShapeCoefficient\<close> of
  \<open>include/quidra/shape_coefficient.hpp\<close>: decimal text with schoolbook arithmetic. The digit loops
  run from the last character, so they are given the digits reversed. The lemmas show that every
  operation computes over the integers and keeps the text canonical.
\<close>

section \<open>Digit arithmetic\<close>

function add_digits :: "string \<Rightarrow> string \<Rightarrow> nat \<Rightarrow> string" where
  "add_digits a b carry =
     (if a \<noteq> [] \<or> b \<noteq> [] \<or> carry \<noteq> 0 then
        let sum = carry + (case a of [] \<Rightarrow> 0 | c # _ \<Rightarrow> digit_val c) + (case b of [] \<Rightarrow> 0 | c # _ \<Rightarrow> digit_val c)
        in digit_char (sum mod 10) # add_digits (tl a) (tl b) (sum div 10)
      else [])"
  by pat_completeness auto
termination
proof (relation "measures [\<lambda>(a, b, carry). length a + length b, \<lambda>(a, b, carry). carry]", goal_cases)
  case (2 a b carry sum)
  then show ?case by (cases a; cases b) auto
qed simp

declare add_digits.simps [simp del]

fun subtract_digits :: "string \<Rightarrow> string \<Rightarrow> int \<Rightarrow> string" where
  "subtract_digits [] b borrow = []"
| "subtract_digits (c # a) b borrow =
     (let difference = int (digit_val c) - borrow - (case b of [] \<Rightarrow> 0 | e # _ \<Rightarrow> int (digit_val e));
          borrow' = (if difference < 0 then 1 else 0)
      in digit_char (nat (if borrow' = 1 then difference + 10 else difference)) # subtract_digits a (tl b) borrow')"

definition add_text :: "string \<Rightarrow> string \<Rightarrow> string" where
  "add_text a b = rev (add_digits (rev a) (rev b) 0)"

definition subtract_text :: "string \<Rightarrow> string \<Rightarrow> string" where
  "subtract_text a b = rev (subtract_digits (rev a) (rev b) 0)"

fun times_row :: "char \<Rightarrow> string \<Rightarrow> string \<Rightarrow> nat \<Rightarrow> string" where
  "times_row x [] (p # out) carry = char_of (of_char p + carry) # out"
| "times_row x (y # ys) (p # out) carry =
     (let sum = digit_val p + digit_val x * digit_val y + carry
      in digit_char (sum mod 10) # times_row x ys out (sum div 10))"
| "times_row x ys [] carry = []"

fun times_rows :: "string \<Rightarrow> string \<Rightarrow> string \<Rightarrow> string" where
  "times_rows [] ys out = out"
| "times_rows (x # xs) ys out =
     (case times_row x ys out 0 of
        [] \<Rightarrow> []
      | p # out' \<Rightarrow> p # times_rows xs ys out')"

section \<open>Coefficients\<close>

type_synonym coefficient = string

definition coeff_negative :: "coefficient \<Rightarrow> bool" where
  "coeff_negative t \<longleftrightarrow> hd t = CHR ''-''"

definition coeff_magnitude :: "coefficient \<Rightarrow> string" where
  "coeff_magnitude t = (if coeff_negative t then tl t else t)"

definition coeff_normalize :: "string \<Rightarrow> coefficient" where
  "coeff_normalize t =
     (let sg = (t \<noteq> [] \<and> hd t = CHR ''-'');
          rest = dropWhile (\<lambda>c. c = CHR ''0'') (if sg then tl t else t)
      in if rest = [] then ''0'' else (if sg then ''-'' else []) @ rest)"

definition coeff_of_int :: "int \<Rightarrow> coefficient" where
  "coeff_of_int v = int_text v"

definition coeff_zero :: "coefficient \<Rightarrow> bool" where "coeff_zero t \<longleftrightarrow> t = ''0''"

definition coeff_one :: "coefficient \<Rightarrow> bool" where "coeff_one t \<longleftrightarrow> t = ''1''"

definition coeff_uminus :: "coefficient \<Rightarrow> coefficient" where
  "coeff_uminus t =
     (if coeff_zero t then t else coeff_normalize (if coeff_negative t then tl t else CHR ''-'' # t))"

text \<open>\<open>operator>=\<close> of \<open>std::string_view\<close>: lexicographic on bytes.\<close>

fun text_ge :: "string \<Rightarrow> string \<Rightarrow> bool" where
  "text_ge x [] \<longleftrightarrow> True"
| "text_ge [] (d # ds) \<longleftrightarrow> False"
| "text_ge (c # cs) (d # ds) \<longleftrightarrow>
     (if c = d then text_ge cs ds else (of_char d :: nat) < of_char c)"

definition coeff_plus :: "coefficient \<Rightarrow> coefficient \<Rightarrow> coefficient" where
  "coeff_plus a b =
     (let x = coeff_magnitude a; y = coeff_magnitude b
      in if coeff_negative a = coeff_negative b
         then coeff_normalize ((if coeff_negative a then ''-'' else []) @ add_text x y)
         else let greater = (if length x \<noteq> length y then length x > length y else text_ge x y)
           in coeff_normalize ((if (if greater then coeff_negative a else coeff_negative b) then ''-'' else [])
                @ (if greater then subtract_text x y else subtract_text y x)))"

definition coeff_times :: "coefficient \<Rightarrow> coefficient \<Rightarrow> coefficient" where
  "coeff_times a b =
     (let x = coeff_magnitude a; y = coeff_magnitude b;
          out = rev (times_rows (rev x) (rev y) (replicate (length x + length y) (CHR ''0'')))
      in coeff_normalize ((if coeff_negative a \<noteq> coeff_negative b then ''-'' else []) @ out))"

text \<open>The word is bounded before every step, so the code's 64-bit product does not wrap.\<close>

fun word_of_digits :: "string \<Rightarrow> nat \<Rightarrow> nat option" where
  "word_of_digits [] v = Some v"
| "word_of_digits (c # cs) v =
     (if v > (2 ^ 63 - 1 - digit_val c) div 10 then None else word_of_digits cs (v * 10 + digit_val c))"

definition coeff_nonnegative_word :: "coefficient \<Rightarrow> nat option" where
  "coeff_nonnegative_word t = (if coeff_negative t then None else word_of_digits t 0)"

section \<open>Correctness\<close>

fun le_val :: "string \<Rightarrow> nat" where
  "le_val [] = 0"
| "le_val (c # cs) = digit_val c + 10 * le_val cs"

abbreviation all_digits :: "string \<Rightarrow> bool" where
  "all_digits ds \<equiv> (\<forall>c\<in>set ds. is_digit c)"

lemma le_val_rev: "le_val (rev ds) = digits_val ds"
proof -
  have "le_val (xs @ [c]) = le_val xs + 10 ^ length xs * digit_val c" for xs c
    by (induction xs) (simp_all add: algebra_simps)
  then show ?thesis by (induction ds) (simp_all add: digits_val_Cons algebra_simps)
qed

lemma add_digits_spec:
  "all_digits a \<Longrightarrow> all_digits b \<Longrightarrow>
    le_val (add_digits a b carry) = le_val a + le_val b + carry \<and> all_digits (add_digits a b carry)"
proof (induction a b carry rule: add_digits.induct)
  case (1 a b carry)
  show ?case
  proof (cases "a \<noteq> [] \<or> b \<noteq> [] \<or> carry \<noteq> 0")
    case False
    then show ?thesis by (subst (1 2) add_digits.simps) simp
  next
    case True
    define sum where "sum = carry + (case a of [] \<Rightarrow> 0 | c # _ \<Rightarrow> digit_val c) + (case b of [] \<Rightarrow> 0 | c # _ \<Rightarrow> digit_val c)"
    have eq: "add_digits a b carry = digit_char (sum mod 10) # add_digits (tl a) (tl b) (sum div 10)"
      using True by (subst add_digits.simps) (simp add: sum_def Let_def)
    have tl: "all_digits (tl ds)" if "all_digits ds" for ds using that by (cases ds) auto
    have "all_digits (tl a)" "all_digits (tl b)" using tl "1.prems" by blast+
    then have IH: "le_val (add_digits (tl a) (tl b) (sum div 10)) = le_val (tl a) + le_val (tl b) + sum div 10"
      "all_digits (add_digits (tl a) (tl b) (sum div 10))"
      using "1.IH" [OF True sum_def] by auto
    have "le_val a + le_val b + carry = sum + 10 * (le_val (tl a) + le_val (tl b))"
      unfolding sum_def by (cases a; cases b) simp_all
    moreover have "sum = sum mod 10 + 10 * (sum div 10)" by simp
    ultimately show ?thesis using IH by (simp add: eq)
  qed
qed

lemma subtract_digits_spec:
  "all_digits a \<Longrightarrow> all_digits b \<Longrightarrow> borrow = 0 \<or> borrow = 1 \<Longrightarrow> int (le_val b) + borrow \<le> int (le_val a) \<Longrightarrow>
    int (le_val (subtract_digits a b borrow)) = int (le_val a) - int (le_val b) - borrow
      \<and> all_digits (subtract_digits a b borrow)"
proof (induction a b borrow rule: subtract_digits.induct)
  case (1 b borrow)
  then show ?case by auto
next
  case (2 c a b borrow)
  define e where "e = (case b of [] \<Rightarrow> 0 | e # _ \<Rightarrow> int (digit_val e))"
  define difference where "difference = int (digit_val c) - borrow - e"
  define borrow' :: int where "borrow' = (if difference < 0 then 1 else 0)"
  define r where "r = nat (if borrow' = 1 then difference + 10 else difference)"
  have eq: "subtract_digits (c # a) b borrow = digit_char r # subtract_digits a (tl b) borrow'"
    by (simp add: difference_def borrow'_def r_def e_def Let_def)
  have ce: "digit_val c < 10" "0 \<le> e" "e < 10" "le_val b = nat e + 10 * le_val (tl b)"
    using "2.prems"(1,2) digit_val_less by (auto simp: e_def split: list.splits)
  have r: "int r = difference + 10 * borrow'" "r < 10"
    using ce "2.prems"(3) by (auto simp: r_def borrow'_def difference_def)
  have le: "int (le_val (tl b)) + borrow' \<le> int (le_val a)"
  proof -
    have "int (le_val (c # a)) = int (digit_val c) + 10 * int (le_val a)" by simp
    moreover have "int (le_val b) = e + 10 * int (le_val (tl b))" using ce by simp
    ultimately have "10 * (int (le_val (tl b)) + borrow') \<le> 10 * int (le_val a) + int r"
      using "2.prems"(4) r(1) unfolding difference_def by presburger
    moreover have "int r < 10" using r(2) by simp
    ultimately show ?thesis by presburger
  qed
  have "all_digits (tl b)" using "2.prems"(2) by (cases b) auto
  then have "int (le_val (subtract_digits a (tl b) borrow')) = int (le_val a) - int (le_val (tl b)) - borrow'
      \<and> all_digits (subtract_digits a (tl b) borrow')"
    using "2.IH" [OF difference_def [unfolded e_def] borrow'_def _ _ _ le] "2.prems"(1) by (auto simp: borrow'_def)
  then show ?case unfolding eq using r ce by (simp add: difference_def)
qed

lemma digit_char_add: "is_digit p \<Longrightarrow> digit_val p = 0 \<Longrightarrow> c < 10 \<Longrightarrow> char_of (of_char p + c) = digit_char c"
  by (auto simp: digit_val_def digit_char_def is_digit_range add.commute)

lemma times_row_spec:
  "is_digit x \<Longrightarrow> all_digits ys \<Longrightarrow> all_digits out \<Longrightarrow> length ys < length out \<Longrightarrow>
    out ! length ys = CHR ''0'' \<Longrightarrow> carry < 10 \<Longrightarrow>
    le_val (times_row x ys out carry) = le_val out + digit_val x * le_val ys + carry
      \<and> all_digits (times_row x ys out carry) \<and> length (times_row x ys out carry) = length out
      \<and> drop (Suc (length ys)) (times_row x ys out carry) = drop (Suc (length ys)) out"
proof (induction x ys out carry rule: times_row.induct)
  case (1 x p out carry)
  then have "digit_val p = 0" "is_digit p" by (simp_all add: digit_val_def)
  then have "times_row x [] (p # out) carry = digit_char carry # out" using 1 digit_char_add [of p carry] by simp
  then show ?case using 1 \<open>digit_val p = 0\<close> by (simp del: times_row.simps)
next
  case (2 x y ys p out carry)
  define sum where "sum = digit_val p + digit_val x * digit_val y + carry"
  have "digit_val x * digit_val y \<le> 9 * 9"
    using 2 digit_val_less [of x] digit_val_less [of y] by (intro mult_le_mono) auto
  then have sum: "sum div 10 < 10" using 2 digit_val_less [of p] by (simp add: sum_def)
  have IH: "le_val (times_row x ys out (sum div 10)) = le_val out + digit_val x * le_val ys + sum div 10
      \<and> all_digits (times_row x ys out (sum div 10)) \<and> length (times_row x ys out (sum div 10)) = length out
      \<and> drop (Suc (length ys)) (times_row x ys out (sum div 10)) = drop (Suc (length ys)) out"
    using 2 sum by (simp add: sum_def [symmetric])
  have eq: "times_row x (y # ys) (p # out) carry = digit_char (sum mod 10) # times_row x ys out (sum div 10)"
    by (simp add: sum_def Let_def)
  have "sum = sum mod 10 + 10 * (sum div 10)" by simp
  then show ?case unfolding eq using IH by (simp add: sum_def [symmetric] algebra_simps) (simp add: sum_def)
qed simp

lemma le_val_zeros: "le_val (replicate n (CHR ''0'')) = 0"
  by (induction n) (simp_all add: digit_val_def)

lemma times_rows_spec:
  "all_digits xs \<Longrightarrow> all_digits ys \<Longrightarrow> all_digits out \<Longrightarrow> length out = length xs + length ys \<Longrightarrow>
    drop (length ys) out = replicate (length xs) (CHR ''0'') \<Longrightarrow>
    le_val (times_rows xs ys out) = le_val out + le_val xs * le_val ys \<and> all_digits (times_rows xs ys out)"
proof (induction xs ys out rule: times_rows.induct)
  case (2 x xs ys out)
  let ?row = "times_row x ys out 0"
  have zero: "out ! length ys = CHR ''0''" using 2(6) by (simp add: nth_via_drop)
  have "le_val ?row = le_val out + digit_val x * le_val ys + 0 \<and> all_digits ?row
      \<and> length ?row = length out \<and> drop (Suc (length ys)) ?row = drop (Suc (length ys)) out"
    using 2 zero by (intro times_row_spec) auto
  moreover have "drop (Suc (length ys)) out = tl (drop (length ys) out)" by (simp add: drop_Suc tl_drop)
  ultimately have row: "le_val ?row = le_val out + digit_val x * le_val ys" "all_digits ?row"
    "length ?row = Suc (length xs + length ys)" "drop (Suc (length ys)) ?row = replicate (length xs) (CHR ''0'')"
    using 2 by auto
  then obtain p out' where r: "?row = p # out'" by (cases ?row) auto
  have "all_digits out'" "length out' = length xs + length ys" "drop (length ys) out' = replicate (length xs) (CHR ''0'')"
    using row(2-4) unfolding r by simp_all
  moreover have "all_digits xs" using "2.prems"(1) by simp
  ultimately have "le_val (times_rows xs ys out') = le_val out' + le_val xs * le_val ys \<and> all_digits (times_rows xs ys out')"
    by (intro "2.IH" [OF r] "2.prems"(2))
  then show ?case using row(1,2) unfolding r by (simp add: r algebra_simps)
qed simp

lemma add_text_val:
  assumes "all_digits a" "all_digits b"
  shows "digits_val (add_text a b) = digits_val a + digits_val b \<and> all_digits (add_text a b)"
  using add_digits_spec [of "rev a" "rev b" 0] assms le_val_rev [of a] le_val_rev [of b]
    le_val_rev [of "add_text a b"]
  by (simp add: add_text_def)

lemma subtract_text_val:
  assumes "all_digits a" "all_digits b" "digits_val b \<le> digits_val a"
  shows "digits_val (subtract_text a b) = digits_val a - digits_val b \<and> all_digits (subtract_text a b)"
  using subtract_digits_spec [of "rev a" "rev b" 0] assms le_val_rev [of a] le_val_rev [of b]
    le_val_rev [of "subtract_text a b"]
  by (auto simp: subtract_text_def)

lemma is_digit_not_minus: "all_digits ds \<Longrightarrow> ds \<noteq> [] \<Longrightarrow> hd ds \<noteq> CHR ''-''"
  by (cases ds) (auto simp: is_digit_range)

lemma normalize_val:
  assumes "all_digits ds"
  shows "coeff_normalize ((if s then ''-'' else []) @ ds) = int_text ((if s then - 1 else 1) * int (digits_val ds))"
proof -
  define rest where "rest = dropWhile (\<lambda>c. c = CHR ''0'') ds"
  have n: "coeff_normalize ((if s then ''-'' else []) @ ds) = (if rest = [] then ''0'' else (if s then ''-'' else []) @ rest)"
    using is_digit_not_minus [OF assms] by (auto simp: coeff_normalize_def rest_def Let_def)
  have v: "digits_val rest = digits_val ds" by (simp add: rest_def digits_val_strip)
  show ?thesis
  proof (cases "rest = []")
    case True
    then show ?thesis using v n by (simp add: int_text_def)
  next
    case False
    have d: "all_digits rest" using assms set_dropWhileD unfolding rest_def by fastforce
    have h: "hd rest \<noteq> CHR ''0''" using False hd_dropWhile [of "\<lambda>c. c = CHR ''0''" ds] by (simp add: rest_def)
    have pos: "0 < digits_val ds" using digits_lead [OF False d h] v zero_less_power [of "10 :: nat" "length rest - 1"] by linarith
    have "rest = nat_text (digits_val ds)"
      by (rule digits_canonical [OF False d h])
        (use hd_nat_text [OF pos] nat_text_digits v in auto)
    then show ?thesis using False n pos by (simp add: int_text_def)
  qed
qed

lemma text_ge_val:
  "length xs = length ys \<Longrightarrow> all_digits xs \<Longrightarrow> all_digits ys \<Longrightarrow> text_ge xs ys \<longleftrightarrow> digits_val ys \<le> digits_val xs"
proof (induction xs ys rule: list_induct2)
  case (Cons x xs y ys)
  define p :: nat where "p = 10 ^ length xs"
  have lt: "digits_val xs < p" "digits_val ys < p"
    using Cons digits_val_less [of xs] digits_val_less [of ys] by (simp_all add: p_def)
  have e: "digits_val (x # xs) = digit_val x * p + digits_val xs" "digits_val (y # ys) = digit_val y * p + digits_val ys"
    using Cons by (simp_all add: digits_val_Cons p_def)
  have c: "of_char x = digit_val x + 48" "of_char y = digit_val y + (48 :: nat)"
    using Cons.prems by (auto simp: digit_val_def is_digit_range)
  consider "x = y" | "digit_val x < digit_val y" | "digit_val y < digit_val x"
    using c by (metis linorder_less_linear of_char_eq_iff)
  then show ?case
  proof cases
    case 1
    then show ?thesis using Cons by (simp add: digits_val_Cons)
  next
    case 2
    then have "(digit_val x + 1) * p \<le> digit_val y * p" by (intro mult_le_mono1) simp
    then show ?thesis using 2 lt c unfolding e by auto
  next
    case 3
    then have "(digit_val y + 1) * p \<le> digit_val x * p" by (intro mult_le_mono1) simp
    then show ?thesis using 3 lt c unfolding e by auto
  qed
qed simp

lemma nat_text_longer: "length (nat_text b) < length (nat_text a) \<Longrightarrow> b < a"
proof -
  assume l: "length (nat_text b) < length (nat_text a)"
  have "0 < length (nat_text b)" by simp
  then have "length (nat_text a) \<noteq> 1" using l by linarith
  then have "a \<noteq> 0" by (intro notI) simp
  then have "10 ^ (length (nat_text a) - 1) \<le> a"
    using digits_lead [of "nat_text a"] hd_nat_text [of a] nat_text_digits by simp
  moreover have "b < 10 ^ length (nat_text b)" using digits_val_less [of "nat_text b"] nat_text_digits by simp
  moreover have "(10 :: nat) ^ length (nat_text b) \<le> 10 ^ (length (nat_text a) - 1)"
    using l by (intro power_increasing) auto
  ultimately show "b < a" by linarith
qed

lemma coeff_parts [simp]:
  "coeff_negative (int_text m) \<longleftrightarrow> m < 0" "coeff_magnitude (int_text m) = nat_text (nat \<bar>m\<bar>)"
  by (auto simp: coeff_negative_def coeff_magnitude_def int_text_def)

lemma all_digits_nat_text [simp]: "all_digits (nat_text n)"
  using nat_text_digits by blast

lemma int_text_eq [simp]: "int_text m = int_text n \<longleftrightarrow> m = n"
  using int_text_literal by metis

lemma coeff_zero_one [simp]: "coeff_zero (int_text m) \<longleftrightarrow> m = 0" "coeff_one (int_text m) \<longleftrightarrow> m = 1"
proof -
  have "char_of (of_char (CHR ''1'') :: nat) = CHR ''1''" by (rule char_of_char)
  then have "''0'' = int_text 0" "''1'' = int_text 1" by (simp_all add: int_text_def nat_text_small digit_char_def)
  then show "coeff_zero (int_text m) \<longleftrightarrow> m = 0" "coeff_one (int_text m) \<longleftrightarrow> m = 1"
    unfolding coeff_zero_def coeff_one_def by (simp_all only: int_text_eq)
qed

lemma coeff_uminus_val [simp]: "coeff_uminus (int_text m) = int_text (- m)"
proof (cases m "0 :: int" rule: linorder_cases)
  case less
  then show ?thesis using normalize_val [of "nat_text (nat (- m))" False]
    by (simp add: coeff_uminus_def) (simp add: int_text_def)
next
  case equal
  then show ?thesis by (simp add: coeff_uminus_def)
next
  case greater
  then show ?thesis using normalize_val [of "nat_text (nat m)" True]
    by (simp add: coeff_uminus_def) (simp add: int_text_def)
qed

lemma coeff_plus_val [simp]: "coeff_plus (int_text m) (int_text n) = int_text (m + n)"
proof (cases "(m < 0) = (n < 0)")
  case True
  then show ?thesis
    using add_text_val [of "nat_text (nat \<bar>m\<bar>)" "nat_text (nat \<bar>n\<bar>)"]
      normalize_val [of "add_text (nat_text (nat \<bar>m\<bar>)) (nat_text (nat \<bar>n\<bar>))" "m < 0"]
    by (auto simp: coeff_plus_def Let_def)
next
  case False
  define x y where "x = nat_text (nat \<bar>m\<bar>)" and "y = nat_text (nat \<bar>n\<bar>)"
  define g where "g = (if length x \<noteq> length y then length x > length y else text_ge x y)"
  have v: "digits_val x = nat \<bar>m\<bar>" "digits_val y = nat \<bar>n\<bar>" "all_digits x" "all_digits y"
    by (simp_all add: x_def y_def)
  have g: "if g then \<bar>n\<bar> \<le> \<bar>m\<bar> else \<bar>m\<bar> \<le> \<bar>n\<bar>"
    using text_ge_val [of x y] nat_text_longer [of "nat \<bar>n\<bar>" "nat \<bar>m\<bar>"] nat_text_longer [of "nat \<bar>m\<bar>" "nat \<bar>n\<bar>"] v
    by (simp add: g_def x_def [symmetric] y_def [symmetric] split: if_splits) linarith+
  have eq: "coeff_plus (int_text m) (int_text n)
      = coeff_normalize ((if (if g then m < 0 else n < 0) then ''-'' else [])
          @ (if g then subtract_text x y else subtract_text y x))"
    using False by (simp add: coeff_plus_def g_def x_def y_def Let_def)
  define s where "s = (if g then m < 0 else n < 0)"
  define ds where "ds = (if g then subtract_text x y else subtract_text y x)"
  have "digits_val ds = (if g then nat \<bar>m\<bar> - nat \<bar>n\<bar> else nat \<bar>n\<bar> - nat \<bar>m\<bar>) \<and> all_digits ds"
  proof (cases g)
    case True
    then have "digits_val y \<le> digits_val x" using g v(1,2) nat_mono by presburger
    then show ?thesis using subtract_text_val [OF v(3,4)] v(1,2) True unfolding ds_def by simp
  next
    case False
    then have "digits_val x \<le> digits_val y" using g v(1,2) nat_mono by presburger
    then show ?thesis using subtract_text_val [OF v(4,3)] v(1,2) False unfolding ds_def by simp
  qed
  then have d: "int (digits_val ds) = \<bar>\<bar>m\<bar> - \<bar>n\<bar>\<bar>" "all_digits ds" using g by (auto split: if_splits)
  have "coeff_plus (int_text m) (int_text n) = int_text ((if s then - 1 else 1) * int (digits_val ds))"
    unfolding eq s_def [symmetric] ds_def [symmetric] by (rule normalize_val [OF d(2)])
  also have "(if s then - 1 else 1) * int (digits_val ds) = m + n"
    unfolding d(1) s_def using False g by (auto split: if_splits)
  finally show ?thesis .
qed

lemma coeff_times_val [simp]: "coeff_times (int_text m) (int_text n) = int_text (m * n)"
proof -
  define x y where "x = nat_text (nat \<bar>m\<bar>)" and "y = nat_text (nat \<bar>n\<bar>)"
  define out where "out = times_rows (rev x) (rev y) (replicate (length x + length y) (CHR ''0''))"
  have "le_val out = 0 + le_val (rev x) * le_val (rev y) \<and> all_digits out"
    unfolding out_def le_val_zeros [of "length x + length y", symmetric]
    by (rule times_rows_spec) (auto simp: x_def y_def is_digit_range dest: nat_text_digits [rule_format])
  moreover have "digits_val (rev out) = le_val out" using le_val_rev [of "rev out"] by (simp only: rev_rev_ident)
  ultimately have "digits_val (rev out) = digits_val x * digits_val y" and d: "all_digits (rev out)"
    unfolding le_val_rev by simp_all
  then have "digits_val (rev out) = nat \<bar>m\<bar> * nat \<bar>n\<bar>" by (simp add: x_def y_def)
  then have v: "int (digits_val (rev out)) = \<bar>m * n\<bar>" by (simp add: abs_mult)
  have "coeff_times (int_text m) (int_text n)
      = coeff_normalize ((if (m < 0) \<noteq> (n < 0) then ''-'' else []) @ rev out)"
    by (simp add: coeff_times_def out_def x_def y_def Let_def)
  also have "\<dots> = int_text ((if (m < 0) \<noteq> (n < 0) then - 1 else 1) * int (digits_val (rev out)))"
    using normalize_val [OF d] by blast
  also have "\<dots> = int_text (m * n)"
    unfolding v by (auto simp: abs_if mult_less_0_iff zero_less_mult_iff not_less)
  finally show ?thesis .
qed

lemma word_of_digits_val:
  "all_digits ds \<Longrightarrow> v < 2 ^ 63 \<Longrightarrow>
    word_of_digits ds v = (if v * 10 ^ length ds + digits_val ds < 2 ^ 63 then Some (v * 10 ^ length ds + digits_val ds) else None)"
proof (induction ds arbitrary: v)
  case (Cons c ds)
  have c: "digit_val c < 10" using Cons.prems digit_val_less by simp
  have step: "v > (2 ^ 63 - 1 - digit_val c) div 10 \<longleftrightarrow> 2 ^ 63 \<le> v * 10 + digit_val c" using c by simp linarith
  have e: "v * 10 ^ length (c # ds) + digits_val (c # ds) = (v * 10 + digit_val c) * 10 ^ length ds + digits_val ds"
    by (simp add: digits_val_Cons algebra_simps)
  show ?case
  proof (cases "2 ^ 63 \<le> v * 10 + digit_val c")
    case True
    define w where "w = v * 10 + digit_val c"
    have "w * 1 \<le> w * 10 ^ length ds" by (intro mult_le_mono2) simp
    then have "\<not> w * 10 ^ length ds + digits_val ds < 2 ^ 63" using True w_def by linarith
    then have "\<not> (v * 10 + digit_val c) * 10 ^ length ds + digits_val ds < 2 ^ 63" unfolding w_def .
    then show ?thesis unfolding e using True step by simp
  next
    case False
    then show ?thesis unfolding e using Cons step by simp
  qed
qed simp

lemma coeff_nonnegative_word_val:
  "coeff_nonnegative_word (int_text m) = (if 0 \<le> m \<and> m < 2 ^ 63 then Some (nat m) else None)"
proof (cases "m < 0")
  case False
  then have t: "int_text m = nat_text (nat m)" by (simp add: int_text_def)
  then have "\<not> coeff_negative (nat_text (nat m))" using coeff_parts(1) [of m] False by metis
  then show ?thesis using False t word_of_digits_val [of "nat_text (nat m)" 0]
    by (auto simp: coeff_nonnegative_word_def)
qed (simp add: coeff_nonnegative_word_def)

section \<open>The exact ring of coefficients\<close>

definition coeff_ok :: "coefficient \<Rightarrow> bool" where
  "coeff_ok t \<longleftrightarrow> t = int_text (int_literal_val t)"

lemma coeff_ok_int_text [simp]: "coeff_ok (int_text n)"
  by (simp add: coeff_ok_def int_text_literal)

lemma int_literal_val_text [simp]: "int_literal_val (int_text n) = n"
  by (simp add: int_text_literal)

lemma coeff_okE: "coeff_ok t \<Longrightarrow> (\<And>n. t = int_text n \<Longrightarrow> P) \<Longrightarrow> P"
  unfolding coeff_ok_def by metis

interpretation coeff: exact_ring coeff_ok int_literal_val coeff_plus coeff_times coeff_uminus
  by unfold_locales (auto elim!: coeff_okE)

text \<open>C37: The decimal-text arithmetic of \<open>ShapeCoefficient\<close> is exact integer arithmetic: on
  canonical texts (no leading zero, no minus zero) sum, product and negation are the canonical text
  of the integer result whatever its size, \<open>zero\<close> and \<open>one\<close> recognise exactly those values, and
  \<open>nonnegative_word\<close> gives the value exactly when it fits a non-negative 64-bit integer.\<close>

theorem shape_coefficient_exact:
  "coeff_plus (int_text m) (int_text n) = int_text (m + n)
    \<and> coeff_times (int_text m) (int_text n) = int_text (m * n)
    \<and> coeff_uminus (int_text m) = int_text (- m)
    \<and> coeff_zero (int_text m) = (m = 0) \<and> coeff_one (int_text m) = (m = 1)
    \<and> coeff_nonnegative_word (int_text m) = (if 0 \<le> m \<and> m < 2 ^ 63 then Some (nat m) else None)"
  by (simp_all add: coeff_nonnegative_word_val)

end
