(* ===== verification/Shape_Extent.thy ===== *)
theory Shape_Extent
  imports Shape_Coefficient "HOL-Library.Multiset" "HOL-Library.Char_ord" "HOL-Library.List_Lexorder"
begin

text \<open>
  Symbolic tensor extents, \<open>include/quidra/shape_extent.hpp\<close>: an extent is a known number, a symbol, a
  broadcast of operands, or a polynomial whose terms have an exact coefficient and a list of factor
  keys. \<open>canonical_extent_expression\<close> puts a polynomial into the form the checker compares, and
  \<open>extent_arithmetic\<close> computes on it. The lemmas show that the arithmetic is that of integer
  polynomials over the factor keys, and that canonical forms are equal exactly when the polynomials
  are. A \<open>std::map\<close> is an association list sorted by key, its strings ordered by bytes.
\<close>

section \<open>Extents\<close>

record shape_term =
  coefficient :: coefficient
  factors :: "string list"

datatype extent_kind = Unknown_Extent | Known_Extent | Symbol_Extent | Broadcast_Extent | Expr_Extent

datatype shape_extent =
  ShapeExtent (x_kind: extent_kind) (x_value: int) (x_symbols: "int list") (x_terms: "shape_term list")
    (x_operands: "shape_extent list") (x_atom_operands: "(string \<times> shape_extent list) list")
    (x_atom_operations: "(string \<times> string) list")

definition unknown_extent :: shape_extent where
  "unknown_extent = ShapeExtent Unknown_Extent 0 [] [] [] [] []"

definition extent_of :: "int \<Rightarrow> shape_extent" where
  "extent_of extent =
     ShapeExtent (if extent \<ge> 0 then Known_Extent else Unknown_Extent) (if extent \<ge> 0 then extent else 0) [] [] [] [] []"

definition symbol_extent :: "int \<Rightarrow> shape_extent" where
  "symbol_extent i = ShapeExtent Symbol_Extent i [] [] [] [] []"

definition x_known :: "shape_extent \<Rightarrow> int option" where
  "x_known e = (if x_kind e = Known_Extent then Some (x_value e) else None)"

fun extent_eq :: "shape_extent \<Rightarrow> shape_extent \<Rightarrow> bool"
  and extents_eq :: "shape_extent list \<Rightarrow> shape_extent list \<Rightarrow> bool" where
  "extent_eq (ShapeExtent k v ss ts ops ao an) (ShapeExtent k' v' ss' ts' ops' ao' an') \<longleftrightarrow>
     k = k' \<and>
     (if k = Expr_Extent then ts = ts'
      else if k = Broadcast_Extent then (if ops = [] \<and> ops' = [] then ss = ss' else extents_eq ops ops')
      else v = v')"
| "extents_eq [] [] \<longleftrightarrow> True"
| "extents_eq (x # xs) (y # ys) \<longleftrightarrow> extent_eq x y \<and> extents_eq xs ys"
| "extents_eq [] (y # ys) \<longleftrightarrow> False"
| "extents_eq (x # xs) [] \<longleftrightarrow> False"

definition same_extent :: "shape_extent \<Rightarrow> shape_extent \<Rightarrow> bool" where
  "same_extent l r \<longleftrightarrow> x_kind l \<noteq> Unknown_Extent \<and> extent_eq l r"

fun canonical_extent_key :: "shape_extent \<Rightarrow> string" where
  "canonical_extent_key (ShapeExtent k v ss ts ops ao an) =
     (case k of
        Unknown_Extent \<Rightarrow> ''?''
      | Known_Extent \<Rightarrow> ''k'' @ int_text v
      | Symbol_Extent \<Rightarrow> ''s'' @ int_text v
      | Expr_Extent \<Rightarrow>
          ''p['' @ concat (map (\<lambda>t. coefficient t @ '':''
              @ concat (map (\<lambda>f. nat_text (length f) @ '':'' @ f) (factors t)) @ '';'') ts) @ '']''
      | Broadcast_Extent \<Rightarrow>
          ''b['' @ (if ops \<noteq> []
                  then concat (map (\<lambda>op. let part = canonical_extent_key op in nat_text (length part) @ '':'' @ part) ops)
                  else concat (map (\<lambda>s. ''s'' @ int_text s @ '';'') ss)) @ '']'')"

definition extent_terms :: "shape_extent \<Rightarrow> shape_term list" where
  "extent_terms e =
     (case x_kind e of
        Known_Extent \<Rightarrow> [\<lparr>coefficient = coeff_of_int (x_value e), factors = []\<rparr>]
      | Expr_Extent \<Rightarrow> x_terms e
      | _ \<Rightarrow> [\<lparr>coefficient = coeff_of_int 1, factors = [canonical_extent_key e]\<rparr>])"

section \<open>The canonical polynomial\<close>

text \<open>\<open>merged[k] = merged[k] + c\<close>; a missing key starts at the default coefficient 0.\<close>

fun merge_coeff :: "string list \<Rightarrow> coefficient \<Rightarrow> (string list \<times> coefficient) list \<Rightarrow> (string list \<times> coefficient) list" where
  "merge_coeff k c [] = [(k, coeff_plus ''0'' c)]"
| "merge_coeff k c ((k', c') # m) =
     (if k < k' then (k, coeff_plus ''0'' c) # (k', c') # m
      else if k = k' then (k', coeff_plus c' c) # m
      else (k', c') # merge_coeff k c m)"

definition merged :: "shape_term list \<Rightarrow> (string list \<times> coefficient) list" where
  "merged terms = fold (\<lambda>t m. merge_coeff (sort (factors t)) (coefficient t) m) terms []"

definition merged_terms :: "shape_term list \<Rightarrow> shape_term list" where
  "merged_terms terms =
     map (\<lambda>(fs, c). \<lparr>coefficient = c, factors = fs\<rparr>) (filter (\<lambda>(fs, c). \<not> coeff_zero c) (merged terms))"

definition direct_symbol :: "string \<Rightarrow> bool" where
  "direct_symbol f \<longleftrightarrow> length f > 1 \<and> hd f = CHR ''s'' \<and> list_all is_digit (tl f)"

text \<open>\<open>std::stoll(factor.substr(1))\<close> of a direct symbol; the identities are 64-bit, so it never overflows.\<close>

definition symbol_id :: "string \<Rightarrow> int" where
  "symbol_id f = int (digits_val (tl f))"

definition sort_unique :: "int list \<Rightarrow> int list" where
  "sort_unique xs = remdups_adj (sort xs)"

definition canonical_extent_expression :: "shape_term list \<Rightarrow> int list \<Rightarrow> shape_extent" where
  "canonical_extent_expression terms symbols =
     (let ts = merged_terms terms;
          expr = (let fs = concat (map factors ts);
                      direct = map symbol_id (filter direct_symbol fs);
                      ss = (if \<forall>f\<in>set fs. direct_symbol f then direct else symbols)
                  in ShapeExtent Expr_Extent 0 (sort_unique ss) ts [] [] []);
          single = (case ts of
              [t] \<Rightarrow> (case factors t of
                  [f] \<Rightarrow> if coeff_one (coefficient t) \<and> direct_symbol f then symbol_extent (symbol_id f) else expr
                | _ \<Rightarrow> expr)
            | _ \<Rightarrow> expr)
      in case ts of
           [] \<Rightarrow> extent_of 0
         | [t] \<Rightarrow> (if factors t = []
                  then (case coeff_nonnegative_word (coefficient t) of
                          Some v \<Rightarrow> extent_of (int v) | None \<Rightarrow> single)
                  else single)
         | _ \<Rightarrow> expr)"

section \<open>Arithmetic\<close>

fun map_put :: "string \<Rightarrow> 'v \<Rightarrow> (string \<times> 'v) list \<Rightarrow> (string \<times> 'v) list" where
  "map_put k v [] = [(k, v)]"
| "map_put k v ((k', v') # m) =
     (if k < k' then (k, v) # (k', v') # m else if k = k' then (k, v) # m else (k', v') # map_put k v m)"

text \<open>\<open>std::map::insert\<close> of a range keeps the entries already there.\<close>

definition map_insert_range :: "(string \<times> 'v) list \<Rightarrow> (string \<times> 'v) list \<Rightarrow> (string \<times> 'v) list" where
  "map_insert_range new m = fold (\<lambda>(k, v) m. if map_of m k = None then map_put k v m else m) new m"

definition extent_symbols :: "shape_extent \<Rightarrow> int list" where
  "extent_symbols e = (if x_kind e = Symbol_Extent then [x_value e] else x_symbols e)"

definition broadcast_operands :: "shape_extent \<Rightarrow> shape_extent list" where
  "broadcast_operands e = (if x_operands e \<noteq> [] then x_operands e else map symbol_extent (x_symbols e))"

type_synonym atoms = "(string \<times> shape_extent list) list \<times> (string \<times> string) list"

definition collect_atoms :: "shape_extent \<Rightarrow> atoms \<Rightarrow> atoms" where
  "collect_atoms e = (\<lambda>(operands, operations).
     let operands = map_insert_range (x_atom_operands e) operands;
         operations = map_insert_range (x_atom_operations e) operations
     in if x_kind e = Broadcast_Extent
        then (map_put (canonical_extent_key e) (broadcast_operands e) operands,
              map_put (canonical_extent_key e) ''broadcast'' operations)
        else (operands, operations))"

definition product_terms :: "shape_term list \<Rightarrow> shape_term list \<Rightarrow> shape_term list" where
  "product_terms a b =
     concat (map (\<lambda>x. map (\<lambda>y. \<lparr>coefficient = coeff_times (coefficient x) (coefficient y),
                               factors = factors x @ factors y\<rparr>) b) a)"

definition with_atoms :: "atoms \<Rightarrow> shape_extent \<Rightarrow> shape_extent" where
  "with_atoms m e = ShapeExtent (x_kind e) (x_value e) (x_symbols e) (x_terms e) (x_operands e) (fst m) (snd m)"

definition extent_arithmetic :: "string \<Rightarrow> shape_extent \<Rightarrow> shape_extent \<Rightarrow> shape_extent" where
  "extent_arithmetic operation l r =
     (if x_kind l = Unknown_Extent \<or> x_kind r = Unknown_Extent then unknown_extent
      else let symbols = extent_symbols l @ extent_symbols r;
               a = extent_terms l; b = extent_terms r;
               atoms = collect_atoms r (collect_atoms l ([], []));
               finish = (\<lambda>terms atoms. with_atoms atoms (canonical_extent_expression terms symbols))
        in if operation = ''+'' then finish (a @ b) atoms
           else if operation = ''-''
             then finish (a @ map (\<lambda>t. t\<lparr>coefficient := coeff_uminus (coefficient t)\<rparr>) b) atoms
           else if operation = ''*'' then finish (product_terms a b) atoms
           else if operation = ''/'' \<or> operation = ''%'' then
             (if x_kind l = Known_Extent \<and> x_kind r = Known_Extent \<and> x_value r \<noteq> 0
              then extent_of (if operation = ''/'' then x_value l div x_value r else x_value l mod x_value r)
              else let key = operation @ ''('' @ canonical_extent_key l @ '','' @ canonical_extent_key r @ '')''
                   in finish [\<lparr>coefficient = coeff_of_int 1, factors = [key]\<rparr>]
                        (map_put key [l, r] (fst atoms), map_put key operation (snd atoms)))
           else unknown_extent)"

fun unique_extents :: "shape_extent list \<Rightarrow> shape_extent list" where
  "unique_extents (x # y # xs) = (if extent_eq x y then unique_extents (x # xs) else x # unique_extents (y # xs))"
| "unique_extents xs = xs"

definition flat_operands :: "shape_extent \<Rightarrow> shape_extent list" where
  "flat_operands e = (if x_kind e = Broadcast_Extent then broadcast_operands e else [e])"

definition broadcast_extent :: "shape_extent \<Rightarrow> shape_extent \<Rightarrow> shape_extent" where
  "broadcast_extent l r =
     (if same_extent l r then l
      else if x_known l = Some 1 then r
      else if x_known r = Some 1 then l
      else if x_known l \<noteq> None \<and> x_known r \<noteq> None then unknown_extent
      else if x_known l \<noteq> None then l
      else if x_known r \<noteq> None then r
      else if x_kind l = Unknown_Extent \<or> x_kind r = Unknown_Extent then unknown_extent
      else if x_kind l = Expr_Extent \<or> x_kind r = Expr_Extent \<or> x_operands l \<noteq> [] \<or> x_operands r \<noteq> [] then
        (let operands = unique_extents (sort_key canonical_extent_key (flat_operands l @ flat_operands r))
         in case operands of
              [e] \<Rightarrow> e
            | _ \<Rightarrow> ShapeExtent Broadcast_Extent 0 (sort_unique (concat (map extent_symbols operands))) [] operands [] [])
      else
        (let symbols = sort_unique (extent_symbols l @ extent_symbols r)
         in case symbols of
              [s] \<Rightarrow> symbol_extent s
            | _ \<Rightarrow> ShapeExtent Broadcast_Extent 0 symbols [] [] [] []))"

section \<open>Substitution\<close>

definition broadcast_all :: "shape_extent list \<Rightarrow> shape_extent" where
  "broadcast_all xs = foldl broadcast_extent (extent_of 1) xs"

text \<open>\<open>inputs\<close> holds the operands of the atoms, already substituted.\<close>

definition factor_value :: "(int \<Rightarrow> shape_extent) \<Rightarrow> (string \<times> shape_extent list) list \<Rightarrow>
    (string \<times> string) list \<Rightarrow> string \<Rightarrow> shape_extent option" where
  "factor_value symbol inputs operations f =
     (if direct_symbol f then Some (symbol (symbol_id f))
      else case (map_of operations f, map_of inputs f) of
        (Some operation, Some xs) \<Rightarrow>
          (if operation = ''broadcast'' then Some (broadcast_all xs)
           else case xs of [x, y] \<Rightarrow> Some (extent_arithmetic operation x y) | _ \<Rightarrow> None)
      | _ \<Rightarrow> None)"

definition term_product :: "(string \<Rightarrow> shape_extent option) \<Rightarrow> shape_term \<Rightarrow> shape_extent option" where
  "term_product fv t =
     foldl (\<lambda>p f. case (p, fv f) of (Some p, Some v) \<Rightarrow> Some (extent_arithmetic ''*'' p v) | _ \<Rightarrow> None)
       (Some (canonical_extent_expression [\<lparr>coefficient = coefficient t, factors = []\<rparr>] [])) (factors t)"

definition terms_total :: "(string \<Rightarrow> shape_extent option) \<Rightarrow> shape_term list \<Rightarrow> shape_extent option" where
  "terms_total fv ts =
     foldl (\<lambda>r t. case (r, term_product fv t) of (Some r, Some p) \<Rightarrow> Some (extent_arithmetic ''+'' r p) | _ \<Rightarrow> None)
       (Some (extent_of 0)) ts"

fun substitute_extent :: "(int \<Rightarrow> shape_extent) \<Rightarrow> shape_extent \<Rightarrow> shape_extent" where
  "substitute_extent symbol (ShapeExtent k v ss ts ops ao an) =
     (case k of
        Unknown_Extent \<Rightarrow> ShapeExtent k v ss ts ops ao an
      | Known_Extent \<Rightarrow> ShapeExtent k v ss ts ops ao an
      | Symbol_Extent \<Rightarrow> symbol v
      | Broadcast_Extent \<Rightarrow>
          broadcast_all (if ops = [] then map symbol ss else map (substitute_extent symbol) ops)
      | Expr_Extent \<Rightarrow>
          (case terms_total (factor_value symbol (map (\<lambda>(f, xs). (f, map (substitute_extent symbol) xs)) ao) an) ts of
             Some r \<Rightarrow> r | None \<Rightarrow> unknown_extent))"

section \<open>Polynomials\<close>

text \<open>\<open>tsum g ts\<close> is linear in the coefficients: with \<open>g\<close> a valuation of the factors it is the value of
  the polynomial, with \<open>g\<close> the test for one monomial it is that monomial's coefficient.\<close>

abbreviation cval :: "shape_term \<Rightarrow> int" where "cval t \<equiv> int_literal_val (coefficient t)"

definition tsum :: "(string multiset \<Rightarrow> int) \<Rightarrow> shape_term list \<Rightarrow> int" where
  "tsum g ts = (\<Sum>t\<leftarrow>ts. cval t * g (mset (factors t)))"

definition poly_coeff :: "shape_extent \<Rightarrow> string multiset \<Rightarrow> int" where
  "poly_coeff e M = tsum (\<lambda>N. if N = M then 1 else 0) (extent_terms e)"

definition extent_val :: "(string \<Rightarrow> int) \<Rightarrow> shape_extent \<Rightarrow> int" where
  "extent_val av e = tsum (\<lambda>N. \<Prod>\<^sub># (image_mset av N)) (extent_terms e)"

definition factor_ok :: "string \<Rightarrow> bool" where
  "factor_ok f \<longleftrightarrow> (direct_symbol f \<longrightarrow> f = ''s'' @ int_text (symbol_id f))"

definition term_ok :: "shape_term \<Rightarrow> bool" where
  "term_ok t \<longleftrightarrow> coeff_ok (coefficient t) \<and> (\<forall>f\<in>set (factors t). factor_ok f)"

definition extent_ok :: "shape_extent \<Rightarrow> bool" where
  "extent_ok e \<longleftrightarrow> x_kind e \<noteq> Unknown_Extent \<and> (x_kind e = Known_Extent \<longrightarrow> 0 \<le> x_value e)
     \<and> (x_kind e = Expr_Extent \<longrightarrow> (\<forall>t\<in>set (x_terms e). term_ok t))"

definition canonical_form :: "shape_extent \<Rightarrow> bool" where
  "canonical_form e \<longleftrightarrow> (\<exists>ts ss m. (\<forall>t\<in>set ts. term_ok t) \<and> e = with_atoms m (canonical_extent_expression ts ss))"

lemma tsum_simps [simp]:
  "tsum g [] = 0" "tsum g (t # ts) = cval t * g (mset (factors t)) + tsum g ts"
  "tsum g (ts @ us) = tsum g ts + tsum g us"
  by (simp_all add: tsum_def)

lemma coeff_ok_0 [simp]: "coeff_ok ''0''" and coeff_val_0 [simp]: "int_literal_val ''0'' = 0"
  using coeff_ok_int_text [of 0] int_literal_val_text [of 0] by (simp_all add: int_text_def)

lemma coeff_zero_val: "coeff_ok c \<Longrightarrow> coeff_zero c \<longleftrightarrow> int_literal_val c = 0"
  and coeff_one_val: "coeff_ok c \<Longrightarrow> coeff_one c \<longleftrightarrow> int_literal_val c = 1"
  by (auto elim!: coeff_okE)

definition asum :: "(string multiset \<Rightarrow> int) \<Rightarrow> (string list \<times> coefficient) list \<Rightarrow> int" where
  "asum g m = (\<Sum>(k, c)\<leftarrow>m. int_literal_val c * g (mset k))"

definition amap_ok :: "(string list \<times> coefficient) list \<Rightarrow> bool" where
  "amap_ok m \<longleftrightarrow> sorted_wrt (<) (map fst m) \<and> (\<forall>(k, c)\<in>set m. coeff_ok c \<and> sorted k)"

lemma fst_merge_coeff: "set (map fst (merge_coeff k c m)) = insert k (set (map fst m))"
  by (induction k c m rule: merge_coeff.induct) auto

lemma merge_coeff_spec:
  "amap_ok m \<Longrightarrow> coeff_ok c \<Longrightarrow> sorted k \<Longrightarrow>
    amap_ok (merge_coeff k c m) \<and> asum g (merge_coeff k c m) = asum g m + int_literal_val c * g (mset k)"
proof (induction k c m rule: merge_coeff.induct)
  case (1 k c)
  then show ?case by (simp add: amap_ok_def asum_def coeff.plus_ok coeff.plus_val)
next
  case (2 k c k' c' m)
  have m: "amap_ok m" "coeff_ok c'" "sorted k'" "\<forall>x\<in>set (map fst m). k' < x" using 2(2) by (auto simp: amap_ok_def)
  consider "k < k'" | "k = k'" | "k' < k" by fastforce
  then show ?case
  proof cases
    case 1
    then show ?thesis using 2(2-4) m(4)
      by (auto simp: amap_ok_def asum_def coeff.plus_ok coeff.plus_val)
  next
    case 2
    then show ?thesis using m \<open>coeff_ok c\<close>
      by (auto simp: amap_ok_def asum_def coeff.plus_ok coeff.plus_val algebra_simps)
  next
    case 3
    then have IH: "amap_ok (merge_coeff k c m) \<and> asum g (merge_coeff k c m) = asum g m + int_literal_val c * g (mset k)"
      using 2 m(1) by auto
    have "\<forall>x\<in>set (map fst (merge_coeff k c m)). k' < x" using m(4) 3 unfolding fst_merge_coeff by auto
    then show ?thesis using IH 3 m(2,3) by (auto simp: amap_ok_def asum_def)
  qed
qed

lemma merged_spec:
  assumes "\<forall>t\<in>set ts. term_ok t"
  shows "amap_ok (merged ts) \<and> asum g (merged ts) = tsum g ts"
proof -
  have "amap_ok m \<Longrightarrow> \<forall>t\<in>set ts. term_ok t \<Longrightarrow>
      amap_ok (fold (\<lambda>t m. merge_coeff (sort (factors t)) (coefficient t) m) ts m)
      \<and> asum g (fold (\<lambda>t m. merge_coeff (sort (factors t)) (coefficient t) m) ts m) = asum g m + tsum g ts" for m
  proof (induction ts arbitrary: m)
    case (Cons t ts)
    then have "amap_ok (merge_coeff (sort (factors t)) (coefficient t) m)
        \<and> asum g (merge_coeff (sort (factors t)) (coefficient t) m) = asum g m + cval t * g (mset (factors t))"
      using merge_coeff_spec [of m "coefficient t" "sort (factors t)" g] by (simp add: term_ok_def)
    then show ?case using Cons.IH Cons.prems by simp
  qed simp
  from this [of "[]"] show ?thesis using assms by (simp add: merged_def amap_ok_def asum_def)
qed

definition canonical_terms :: "shape_term list \<Rightarrow> bool" where
  "canonical_terms ts \<longleftrightarrow> sorted_wrt (<) (map factors ts)
     \<and> (\<forall>t\<in>set ts. coeff_ok (coefficient t) \<and> cval t \<noteq> 0 \<and> sorted (factors t))"

lemma map_fst_filter: "sorted_wrt (<) (map fst m) \<Longrightarrow> sorted_wrt (<) (map fst (filter P m))"
  by (induction m) auto

lemma merged_terms_spec:
  assumes "\<forall>t\<in>set ts. term_ok t"
  shows "canonical_terms (merged_terms ts)" and "tsum g (merged_terms ts) = tsum g ts"
proof -
  have ok: "amap_ok (merged ts)" and s: "asum g (merged ts) = tsum g ts" using merged_spec [OF assms] by auto
  have fs: "map factors (merged_terms ts) = map fst (filter (\<lambda>(fs, c). \<not> coeff_zero c) (merged ts))"
    by (auto simp: merged_terms_def)
  show "canonical_terms (merged_terms ts)"
    unfolding canonical_terms_def fs using ok map_fst_filter
    by (fastforce simp: merged_terms_def amap_ok_def coeff_zero_val)
  have "asum g m = tsum g (map (\<lambda>(fs, c). \<lparr>coefficient = c, factors = fs\<rparr>) (filter (\<lambda>(fs, c). \<not> coeff_zero c) m))"
    if "\<forall>(k, c)\<in>set m. coeff_ok c" for m
    using that by (induction m) (auto simp: asum_def coeff_zero_val)
  moreover have "\<forall>(k, c)\<in>set (merged ts). coeff_ok c" using ok by (auto simp: amap_ok_def)
  ultimately show "tsum g (merged_terms ts) = tsum g ts" using s by (simp add: merged_terms_def)
qed

lemma keys_merged: "set (map fst (merged ts)) = (\<lambda>t. sort (factors t)) ` set ts"
proof -
  have "set (map fst (fold (\<lambda>t m. merge_coeff (sort (factors t)) (coefficient t) m) ts m))
      = set (map fst m) \<union> (\<lambda>t. sort (factors t)) ` set ts" for m
    by (induction ts arbitrary: m) (simp_all add: fst_merge_coeff del: set_map)
  from this [of "[]"] show ?thesis by (simp add: merged_def)
qed

lemma merged_terms_ok:
  assumes "\<forall>t\<in>set ts. term_ok t" shows "\<forall>t\<in>set (merged_terms ts). term_ok t"
proof
  fix t assume t: "t \<in> set (merged_terms ts)"
  then have "coeff_ok (coefficient t)"
    using merged_terms_spec(1) [OF assms] by (auto simp: canonical_terms_def)
  moreover have "factors t \<in> set (map fst (merged ts))" using t by (force simp: merged_terms_def)
  then have "\<exists>u\<in>set ts. factors t = sort (factors u)" unfolding keys_merged by auto
  ultimately show "term_ok t" using assms by (auto simp: term_ok_def)
qed

lemma canonical_terms_unique:
  assumes "canonical_terms ts" "canonical_terms us" and "\<And>g. tsum g ts = tsum g us"
  shows "ts = us"
proof -
  have coeff: "t \<in> set vs \<Longrightarrow> tsum (\<lambda>N. if N = mset (factors t) then 1 else 0) vs = cval t" if "canonical_terms vs" for t vs
    using that
  proof (induction vs)
    case (Cons v vs)
    have ne: "mset (factors x) \<noteq> mset (factors v)" if "x \<in> set vs" for x
    proof -
      have "factors v < factors x" "sorted (factors x)" "sorted (factors v)"
        using Cons.prems(2) that by (auto simp: canonical_terms_def)
      then show ?thesis using properties_for_sort [of "factors x" "factors v"] sorted_sort_id [of "factors v"] by auto
    qed
    have none: "tsum (\<lambda>N. if N = mset (factors v) then 1 else 0) xs = 0" if "set xs \<subseteq> set vs" for xs
      using that ne by (induction xs) auto
    have "canonical_terms vs" using Cons.prems(2) by (simp add: canonical_terms_def)
    then show ?case
    proof (cases "t = v")
      case True
      then show ?thesis using none [of vs] by simp
    next
      case False
      then have t: "t \<in> set vs" using Cons.prems(1) by simp
      then show ?thesis using Cons.IH \<open>canonical_terms vs\<close> ne [OF t] by simp
    qed
  qed simp
  have absent: "tsum (\<lambda>N. if N = M then 1 else 0) vs = 0" if "M \<notin> (\<lambda>t. mset (factors t)) ` set vs" for M vs
    using that by (induction vs) auto
  have sub: "t \<in> set vs \<Longrightarrow> t \<in> set ws"
    if "canonical_terms vs" "canonical_terms ws" "\<And>g. tsum g vs = tsum g ws" for t vs ws
  proof -
    assume t: "t \<in> set vs"
    let ?g = "\<lambda>N. if N = mset (factors t) then 1 else 0 :: int"
    have tv: "tsum ?g ws = cval t" using coeff [OF that(1) t] that(3) by simp
    moreover have "cval t \<noteq> 0" using t that(1) by (auto simp: canonical_terms_def)
    ultimately have "mset (factors t) \<in> (\<lambda>t. mset (factors t)) ` set ws"
      using absent [of "mset (factors t)" ws] by fastforce
    then obtain u where u: "u \<in> set ws" "mset (factors u) = mset (factors t)" by (metis imageE)
    have "factors u = factors t"
      using u t that(1,2) properties_for_sort [of "factors u" "factors t"] sorted_sort_id [of "factors t"]
      by (auto simp: canonical_terms_def)
    moreover have "cval u = cval t" using coeff [OF that(2) u(1)] u(2) tv by simp
    then have "coefficient u = coefficient t"
      using u(1) t that(1,2) by (intro coeff.val_inj) (auto simp: canonical_terms_def)
    ultimately show "t \<in> set ws" using u(1) by (metis (full_types) shape_term.surjective unit_eq)
  qed
  have set: "set ts = set us" using sub [OF assms(1,2,3)] sub [OF assms(2,1) assms(3) [symmetric]] by blast
  have inj: "inj_on factors (set us)"
  proof -
    have "sorted_wrt (<) (map factors us)" using assms(2) by (simp add: canonical_terms_def)
    then have "distinct (map factors us)" by (simp add: strict_sorted_iff)
    then show ?thesis by (simp add: distinct_map)
  qed
  have "map factors us = map factors ts"
    using assms(1,2) set by (intro strict_sorted_equal) (auto simp: canonical_terms_def)
  then show ?thesis using inj set map_inj_on [of factors ts us] by auto
qed

section \<open>The canonical form\<close>

lemma direct_symbol_text: "direct_symbol (''s'' @ int_text v) \<longleftrightarrow> 0 \<le> v"
proof -
  have "list_all is_digit (int_text v) \<longleftrightarrow> 0 \<le> v"
  proof (cases "v < 0")
    case True
    then show ?thesis by (auto simp: int_text_def is_digit_range)
  next
    case False
    then show ?thesis using all_digits_nat_text [of "nat v"] by (simp add: int_text_def list_all_iff)
  qed
  then show ?thesis by (auto simp: direct_symbol_def int_text_def)
qed

lemma symbol_id_text: "0 \<le> v \<Longrightarrow> symbol_id (''s'' @ int_text v) = v"
  by (simp add: symbol_id_def int_text_def)

lemma factor_ok_key: "x_kind e \<noteq> Expr_Extent \<Longrightarrow> factor_ok (canonical_extent_key e)"
proof (cases e)
  case (ShapeExtent k v ss ts ops ao an)
  assume "x_kind e \<noteq> Expr_Extent"
  moreover have "factor_ok (''s'' @ int_text v)"
    using direct_symbol_text [of v] symbol_id_text [of v] by (auto simp: factor_ok_def)
  ultimately show ?thesis
    by (auto simp: ShapeExtent factor_ok_def direct_symbol_def split: extent_kind.splits)
qed

lemma term_ok_extent_terms: "extent_ok e \<Longrightarrow> t \<in> set (extent_terms e) \<Longrightarrow> term_ok t"
  using factor_ok_key [of e]
  by (auto simp: extent_terms_def extent_ok_def term_ok_def coeff_of_int_def split: extent_kind.splits)

lemma x_with_atoms [simp]:
  "x_kind (with_atoms m e) = x_kind e" "x_value (with_atoms m e) = x_value e" "x_terms (with_atoms m e) = x_terms e"
  "x_operands (with_atoms m e) = x_operands e" "x_symbols (with_atoms m e) = x_symbols e"
  by (simp_all add: with_atoms_def)

text \<open>What the canonical form keeps of its terms.\<close>

lemma canonical_cases:
  assumes "\<forall>t\<in>set ts. term_ok t" and e: "e = canonical_extent_expression ts ss"
  obtains (known) v where "e = extent_of v" "0 \<le> v" "merged_terms ts = (if v = 0 then [] else [\<lparr>coefficient = int_text v, factors = []\<rparr>])"
    | (symbol) v where "e = symbol_extent v" "0 \<le> v" "merged_terms ts = [\<lparr>coefficient = ''1'', factors = [''s'' @ int_text v]\<rparr>]"
    | (expr) syms where "e = ShapeExtent Expr_Extent 0 syms (merged_terms ts) [] [] []" "merged_terms ts \<noteq> []"
proof -
  note mt = merged_terms_ok [OF assms(1)] merged_terms_spec(1) [OF assms(1)]
  show thesis
  proof (cases "merged_terms ts")
    case Nil
    then show thesis using known [of 0] e by (simp add: canonical_extent_expression_def)
  next
    case (Cons t us)
    show thesis
    proof (cases us)
      case (Cons u vs)
      then show thesis using expr e \<open>merged_terms ts = t # us\<close> by (auto simp: canonical_extent_expression_def Let_def)
    next
      case Nil
      note one = \<open>merged_terms ts = t # us\<close> [unfolded Nil]
      obtain n where n: "coefficient t = int_text n" using mt(1) one by (auto simp: term_ok_def elim: coeff_okE)
      have n0: "n \<noteq> 0" using mt(2) one n by (simp add: canonical_terms_def)
      show thesis
      proof (cases "factors t = [] \<and> 0 \<le> n \<and> n < 2 ^ 63")
        case True
        have "t = \<lparr>coefficient = int_text n, factors = []\<rparr>" using True n by (cases t) simp
        then show thesis using known [of n] e one True n n0
          by (simp add: canonical_extent_expression_def Let_def coeff_nonnegative_word_val)
      next
        case no_word: False
        show thesis
        proof (cases "\<exists>f. factors t = [f] \<and> coeff_one (coefficient t) \<and> direct_symbol f")
          case True
          then obtain f where f: "factors t = [f]" "coefficient t = ''1''" "direct_symbol f"
            by (auto simp: coeff_one_def)
          have "0 \<le> symbol_id f" by (simp add: symbol_id_def)
          moreover have "f = ''s'' @ int_text (symbol_id f)" using mt(1) one f by (simp add: term_ok_def factor_ok_def)
          moreover have "t = \<lparr>coefficient = ''1'', factors = [f]\<rparr>" using f by (cases t) simp
          ultimately show thesis using symbol [of "symbol_id f"] e one f
            by (simp add: canonical_extent_expression_def Let_def coeff_one_def)
        next
          case False
          then show thesis using expr e one no_word n
            by (auto simp: canonical_extent_expression_def Let_def coeff_nonnegative_word_val split: list.splits)
        qed
      qed
    qed
  qed
qed

lemma canonical_extent_sound:
  assumes "\<forall>t\<in>set ts. term_ok t"
  shows "extent_ok (canonical_extent_expression ts ss)"
    and "tsum g (extent_terms (canonical_extent_expression ts ss)) = tsum g ts"
proof -
  note s = merged_terms_spec(2) [OF assms, of g, symmetric]
  have "extent_ok (canonical_extent_expression ts ss)
      \<and> tsum g (extent_terms (canonical_extent_expression ts ss)) = tsum g ts"
  proof (rule canonical_cases [OF assms refl, of ss], goal_cases)
    case (1 v)
    then show ?case unfolding s by (auto simp: extent_of_def extent_ok_def extent_terms_def coeff_of_int_def)
  next
    case (2 v)
    have "''1'' = int_text 1" using coeff_zero_one(2) [of 1] by (simp add: coeff_one_def)
    then show ?case unfolding s 2 by (simp add: symbol_extent_def extent_ok_def extent_terms_def coeff_of_int_def)
  next
    case (3 syms)
    then show ?case unfolding s using merged_terms_ok [OF assms] by (simp add: extent_ok_def extent_terms_def)
  qed
  then show "extent_ok (canonical_extent_expression ts ss)"
    and "tsum g (extent_terms (canonical_extent_expression ts ss)) = tsum g ts" by auto
qed

lemma canonical_form_ok: "canonical_form e \<Longrightarrow> extent_ok e"
  using canonical_extent_sound(1) by (auto simp: canonical_form_def extent_ok_def)

lemma extent_terms_atoms [simp]: "x_kind e \<noteq> Broadcast_Extent \<Longrightarrow> extent_terms (with_atoms m e) = extent_terms e"
  by (cases e) (auto simp: extent_terms_def with_atoms_def split: extent_kind.splits)

lemma canonical_not_broadcast: "\<forall>t\<in>set ts. term_ok t \<Longrightarrow> x_kind (canonical_extent_expression ts ss) \<noteq> Broadcast_Extent"
  by (rule canonical_cases [OF _ refl, of ts ss]) (auto simp: extent_of_def symbol_extent_def)

lemma extent_eq_atoms [simp]:
  "extent_eq (with_atoms m e) f = extent_eq e f" "extent_eq e (with_atoms m f) = extent_eq e f"
  by (cases e; cases f; simp add: with_atoms_def)+

lemma canonical_extent_eq:
  assumes "\<forall>t\<in>set ts. term_ok t" "\<forall>t\<in>set us. term_ok t" and "\<And>g. tsum g ts = tsum g us"
  shows "extent_eq (canonical_extent_expression ts ss) (canonical_extent_expression us rs)"
proof -
  have m: "merged_terms ts = merged_terms us"
    using assms merged_terms_spec by (intro canonical_terms_unique) auto
  show ?thesis
  proof (cases "merged_terms us")
    case (Cons t vs)
    then show ?thesis
      by (cases vs; cases "factors t"; cases "coeff_nonnegative_word (coefficient t)"; cases "tl (factors t)")
        (auto simp: canonical_extent_expression_def m extent_of_def symbol_extent_def Let_def)
  qed (simp add: canonical_extent_expression_def m extent_of_def)
qed

lemma canonical_form_eq_iff:
  assumes "canonical_form a" "canonical_form b"
  shows "same_extent a b \<longleftrightarrow> (\<forall>g. tsum g (extent_terms a) = tsum g (extent_terms b))"
proof -
  obtain ts ss m us rs n where a: "\<forall>t\<in>set ts. term_ok t" "a = with_atoms m (canonical_extent_expression ts ss)"
    and b: "\<forall>t\<in>set us. term_ok t" "b = with_atoms n (canonical_extent_expression us rs)"
    using assms unfolding canonical_form_def by blast
  let ?a = "canonical_extent_expression ts ss" and ?b = "canonical_extent_expression us rs"
  have nb: "x_kind ?a \<noteq> Broadcast_Extent" "x_kind ?b \<noteq> Broadcast_Extent" "x_kind ?a \<noteq> Unknown_Extent"
    using canonical_not_broadcast [OF a(1)] canonical_not_broadcast [OF b(1)] canonical_extent_sound(1) [OF a(1)]
    by (auto simp: extent_ok_def)
  have "extent_eq ?a ?b \<Longrightarrow> extent_terms ?a = extent_terms ?b"
    using nb by (cases ?a; cases ?b) (auto simp: extent_terms_def split: extent_kind.splits if_splits)
  moreover have "extent_eq ?a ?b" if "\<forall>g. tsum g (extent_terms ?a) = tsum g (extent_terms ?b)"
    using canonical_extent_eq [OF a(1) b(1)] that canonical_extent_sound(2) [OF a(1)] canonical_extent_sound(2) [OF b(1)]
    by simp
  ultimately show ?thesis using nb by (auto simp: same_extent_def a(2) b(2))
qed

section \<open>Arithmetic of extents\<close>

lemma tsum_product:
  "\<forall>t\<in>set a. term_ok t \<Longrightarrow> \<forall>t\<in>set b. term_ok t \<Longrightarrow>
    tsum g (product_terms a b) = tsum (\<lambda>N. tsum (\<lambda>K. g (N + K)) b) a"
proof (induction a)
  case (Cons x a)
  have "\<forall>t\<in>set b. term_ok t \<Longrightarrow> tsum g (map (\<lambda>y. \<lparr>coefficient = coeff_times (coefficient x) (coefficient y),
      factors = factors x @ factors y\<rparr>) b) = cval x * tsum (\<lambda>K. g (mset (factors x) + K)) b"
    using Cons.prems(1)
    by (induction b) (simp_all add: coeff.times_val term_ok_def algebra_simps)
  then show ?case using Cons by (simp add: product_terms_def)
qed (simp add: product_terms_def)

lemma term_ok_product: "\<forall>t\<in>set a. term_ok t \<Longrightarrow> \<forall>t\<in>set b. term_ok t \<Longrightarrow> \<forall>t\<in>set (product_terms a b). term_ok t"
  by (auto simp: product_terms_def term_ok_def coeff.times_ok)

lemma tsum_uminus: "\<forall>t\<in>set b. term_ok t \<Longrightarrow> tsum g (map (\<lambda>t. t\<lparr>coefficient := coeff_uminus (coefficient t)\<rparr>) b) = - tsum g b"
  by (induction b) (simp_all add: term_ok_def coeff.uminus_val)

lemma extent_arithmetic_ring:
  assumes "extent_ok l" "extent_ok r"
  shows "canonical_form (extent_arithmetic ''+'' l r)"
    and "canonical_form (extent_arithmetic ''-'' l r)"
    and "canonical_form (extent_arithmetic ''*'' l r)"
    and "tsum g (extent_terms (extent_arithmetic ''+'' l r)) = tsum g (extent_terms l) + tsum g (extent_terms r)"
    and "tsum g (extent_terms (extent_arithmetic ''-'' l r)) = tsum g (extent_terms l) - tsum g (extent_terms r)"
    and "tsum g (extent_terms (extent_arithmetic ''*'' l r))
      = tsum (\<lambda>N. tsum (\<lambda>K. g (N + K)) (extent_terms r)) (extent_terms l)"
proof -
  let ?l = "extent_terms l" and ?r = "extent_terms r"
  let ?neg = "map (\<lambda>t. t\<lparr>coefficient := coeff_uminus (coefficient t)\<rparr>) ?r"
  define ss m where "ss = extent_symbols l @ extent_symbols r" and "m = collect_atoms r (collect_atoms l ([], []))"
  have ok: "\<forall>t\<in>set ?l. term_ok t" "\<forall>t\<in>set ?r. term_ok t" using assms term_ok_extent_terms by auto
  have oks: "\<forall>t\<in>set (?l @ ?r). term_ok t" "\<forall>t\<in>set (?l @ ?neg). term_ok t" "\<forall>t\<in>set (product_terms ?l ?r). term_ok t"
  proof -
    have neg: "\<forall>t\<in>set ?neg. term_ok t" using ok(2) by (simp add: term_ok_def coeff.uminus_ok)
    show "\<forall>t\<in>set (?l @ ?r). term_ok t" using ok by (simp only: set_append ball_Un)
    show "\<forall>t\<in>set (?l @ ?neg). term_ok t" using ok(1) neg by (simp only: set_append ball_Un)
    show "\<forall>t\<in>set (product_terms ?l ?r). term_ok t" by (rule term_ok_product [OF ok])
  qed
  have eq: "extent_arithmetic ''+'' l r = with_atoms m (canonical_extent_expression (?l @ ?r) ss)"
    "extent_arithmetic ''-'' l r = with_atoms m (canonical_extent_expression (?l @ ?neg) ss)"
    "extent_arithmetic ''*'' l r = with_atoms m (canonical_extent_expression (product_terms ?l ?r) ss)"
    using assms by (simp_all add: extent_arithmetic_def extent_ok_def Let_def ss_def m_def)
  show "canonical_form (extent_arithmetic ''+'' l r)" "canonical_form (extent_arithmetic ''-'' l r)"
    "canonical_form (extent_arithmetic ''*'' l r)"
    unfolding eq canonical_form_def using oks by blast+
  show "tsum g (extent_terms (extent_arithmetic ''+'' l r)) = tsum g ?l + tsum g ?r"
    using canonical_not_broadcast [OF oks(1)] canonical_extent_sound(2) [OF oks(1)] unfolding eq by simp
  show "tsum g (extent_terms (extent_arithmetic ''-'' l r)) = tsum g ?l - tsum g ?r"
    using canonical_not_broadcast [OF oks(2)] canonical_extent_sound(2) [OF oks(2)] tsum_uminus [OF ok(2)] unfolding eq by simp
  show "tsum g (extent_terms (extent_arithmetic ''*'' l r)) = tsum (\<lambda>N. tsum (\<lambda>K. g (N + K)) ?r) ?l"
    using canonical_not_broadcast [OF oks(3)] canonical_extent_sound(2) [OF oks(3)] tsum_product [OF ok] unfolding eq by simp
qed

lemma tsum_scale: "tsum (\<lambda>N. x * g N) ts = x * tsum g ts"
  by (induction ts) (simp_all add: algebra_simps)

lemma tsum_scale2: "tsum (\<lambda>N. g N * x) ts = tsum g ts * x"
  by (induction ts) (simp_all add: algebra_simps)

lemma tsum_add: "tsum (\<lambda>N. g N + h N) ts = tsum g ts + tsum h ts"
  by (induction ts) (simp_all add: algebra_simps)

lemma tsum_swap: "tsum (\<lambda>N. tsum (\<lambda>K. h N K) b) a = tsum (\<lambda>K. tsum (\<lambda>N. h N K) a) b"
proof (induction a)
  case Nil
  have "tsum (\<lambda>K. 0) b = 0" by (induction b) auto
  then show ?case by simp
next
  case (Cons x a)
  have "tsum (\<lambda>K. cval x * h (mset (factors x)) K + tsum (\<lambda>N. h N K) a) b
      = cval x * tsum (h (mset (factors x))) b + tsum (\<lambda>K. tsum (\<lambda>N. h N K) a) b"
    by (simp add: tsum_add tsum_scale)
  then show ?case using Cons by simp
qed

lemma prod_mset_union: "\<Prod>\<^sub># (image_mset av (N + K)) = \<Prod>\<^sub># (image_mset av N) * \<Prod>\<^sub># (image_mset av K :: int multiset)"
  by simp

lemma extent_val_arithmetic:
  assumes "extent_ok l" "extent_ok r"
  shows "extent_val av (extent_arithmetic ''+'' l r) = extent_val av l + extent_val av r"
    and "extent_val av (extent_arithmetic ''-'' l r) = extent_val av l - extent_val av r"
    and "extent_val av (extent_arithmetic ''*'' l r) = extent_val av l * extent_val av r"
proof -
  show "extent_val av (extent_arithmetic ''+'' l r) = extent_val av l + extent_val av r"
    "extent_val av (extent_arithmetic ''-'' l r) = extent_val av l - extent_val av r"
    using extent_arithmetic_ring(4,5) [OF assms] by (simp_all add: extent_val_def)
  have "extent_val av (extent_arithmetic ''*'' l r)
      = tsum (\<lambda>N. tsum (\<lambda>K. \<Prod>\<^sub># (image_mset av N) * \<Prod>\<^sub># (image_mset av K)) (extent_terms r)) (extent_terms l)"
    unfolding extent_val_def extent_arithmetic_ring(6) [OF assms] prod_mset_union ..
  also have "\<dots> = extent_val av l * extent_val av r"
    unfolding tsum_scale tsum_scale2 extent_val_def ..
  finally show "extent_val av (extent_arithmetic ''*'' l r) = extent_val av l * extent_val av r" .
qed

text \<open>C35: On extents the checker knows something of, \<open>extent_arithmetic\<close> is integer arithmetic: whatever
  values the factor keys (symbols and opaque atoms) stand for, the value of the sum, difference and
  product is the sum, difference and product of the values; the quotient and remainder of known
  extents are those of the numbers, and an unknown operand gives an unknown extent.\<close>

theorem extent_arithmetic_sound:
  assumes "extent_ok l" "extent_ok r"
  shows "extent_val av (extent_arithmetic ''+'' l r) = extent_val av l + extent_val av r
    \<and> extent_val av (extent_arithmetic ''-'' l r) = extent_val av l - extent_val av r
    \<and> extent_val av (extent_arithmetic ''*'' l r) = extent_val av l * extent_val av r
    \<and> (x_known l = Some m \<and> x_known r = Some n \<and> n \<noteq> 0 \<longrightarrow>
      x_known (extent_arithmetic ''/'' l r) = Some (m div n) \<and> x_known (extent_arithmetic ''%'' l r) = Some (m mod n))
    \<and> extent_arithmetic operation unknown_extent r = unknown_extent
    \<and> extent_arithmetic operation l unknown_extent = unknown_extent"
proof (intro conjI impI)
  show "extent_val av (extent_arithmetic ''+'' l r) = extent_val av l + extent_val av r"
    "extent_val av (extent_arithmetic ''-'' l r) = extent_val av l - extent_val av r"
    "extent_val av (extent_arithmetic ''*'' l r) = extent_val av l * extent_val av r"
    using extent_val_arithmetic [OF assms] by blast+
  assume "x_known l = Some m \<and> x_known r = Some n \<and> n \<noteq> 0"
  then have "x_kind l = Known_Extent" "x_kind r = Known_Extent" "x_value l = m" "x_value r = n" "0 \<le> m" "0 < n"
    using assms by (auto simp: x_known_def extent_ok_def split: if_splits)
  then show "x_known (extent_arithmetic ''/'' l r) = Some (m div n)" "x_known (extent_arithmetic ''%'' l r) = Some (m mod n)"
    by (simp_all add: extent_arithmetic_def extent_of_def x_known_def Let_def pos_imp_zdiv_nonneg_iff)
next
  show "extent_arithmetic operation unknown_extent r = unknown_extent" "extent_arithmetic operation l unknown_extent = unknown_extent"
    by (simp_all add: extent_arithmetic_def unknown_extent_def)
qed

theorem extent_arithmetic_sound_witness:
  "extent_val (\<lambda>f. 5) (extent_arithmetic ''*'' (symbol_extent 7) (extent_of 3)) = 15"
proof -
  have ok: "extent_ok (symbol_extent 7)" "extent_ok (extent_of 3)"
    by (simp_all add: extent_ok_def symbol_extent_def extent_of_def)
  have v: "extent_val (\<lambda>f. 5) (symbol_extent 7) = 5" "extent_val (\<lambda>f. 5) (extent_of 3) = 3"
    by (simp_all add: extent_val_def extent_terms_def symbol_extent_def extent_of_def coeff_of_int_def)
  show ?thesis using extent_arithmetic_sound [OF ok, of "\<lambda>f. 5"] v by simp
qed

text \<open>C11: Canonical forms decide polynomial identity: two results of the arithmetic are the same extent
  for the checker (\<open>same_extent\<close>) exactly when they have the same integer coefficient at every
  monomial, so an equality of extents is never claimed for different polynomials and never missed
  for equal ones; in particular sums commute and products distribute over them.\<close>

theorem extent_canonical_decides:
  assumes "canonical_form a" "canonical_form b" "extent_ok l" "extent_ok r" "extent_ok c"
  shows "(same_extent a b \<longleftrightarrow> (\<forall>M. poly_coeff a M = poly_coeff b M))
    \<and> canonical_form (extent_arithmetic ''+'' l r) \<and> canonical_form (extent_arithmetic ''-'' l r)
    \<and> canonical_form (extent_arithmetic ''*'' l r)
    \<and> same_extent (extent_arithmetic ''+'' l r) (extent_arithmetic ''+'' r l)
    \<and> same_extent (extent_arithmetic ''*'' l r) (extent_arithmetic ''*'' r l)
    \<and> same_extent (extent_arithmetic ''*'' c (extent_arithmetic ''+'' l r))
      (extent_arithmetic ''+'' (extent_arithmetic ''*'' c l) (extent_arithmetic ''*'' c r))
    \<and> same_extent (extent_arithmetic ''-'' (extent_arithmetic ''+'' c r) r) (extent_arithmetic ''+'' c (extent_of 0))"
proof (intro conjI)
  have can: "canonical_form (extent_arithmetic ''+'' x y)" "canonical_form (extent_arithmetic ''-'' x y)"
    "canonical_form (extent_arithmetic ''*'' x y)" if "extent_ok x" "extent_ok y" for x y
    using extent_arithmetic_ring(1-3) [OF that] by blast+
  note ok = can [THEN canonical_form_ok]
  note val = extent_arithmetic_ring(4-6)
  have "tsum g (extent_terms e) = (\<Sum>t\<leftarrow>extent_terms e. cval t * g (mset (factors t)))" for g e
    by (simp add: tsum_def)
  have lin: "tsum g ts = (\<Sum>M\<in>S. g M * tsum (\<lambda>N. if N = M then 1 else 0) ts)"
    if "finite S" "(\<lambda>t. mset (factors t)) ` set ts \<subseteq> S" for g ts S
    using that(2)
  proof (induction ts)
    case (Cons t ts)
    have "(\<Sum>M\<in>S. g M * (cval t * (if mset (factors t) = M then 1 else 0))) = cval t * g (mset (factors t))"
      using Cons.prems that(1) by (simp add: if_distrib sum.delta' cong: if_cong)
    then show ?case using Cons by (simp add: algebra_simps sum.distrib)
  qed simp
  show "same_extent a b \<longleftrightarrow> (\<forall>M. poly_coeff a M = poly_coeff b M)"
  proof
    assume "\<forall>M. poly_coeff a M = poly_coeff b M"
    moreover define S where "S = (\<lambda>t. mset (factors t)) ` (set (extent_terms a) \<union> set (extent_terms b))"
    ultimately have "tsum g (extent_terms a) = tsum g (extent_terms b)" for g
      using lin [of S "extent_terms a" g] lin [of S "extent_terms b" g] by (simp add: poly_coeff_def image_Un)
    then show "same_extent a b" using canonical_form_eq_iff [OF assms(1,2)] by blast
  qed (auto simp: canonical_form_eq_iff [OF assms(1,2)] poly_coeff_def)
  show "canonical_form (extent_arithmetic ''+'' l r)" "canonical_form (extent_arithmetic ''-'' l r)"
    "canonical_form (extent_arithmetic ''*'' l r)"
    by (fact can [OF assms(3,4)])+
  show "same_extent (extent_arithmetic ''+'' l r) (extent_arithmetic ''+'' r l)"
    by (subst canonical_form_eq_iff) (use assms can val in auto)
  show "same_extent (extent_arithmetic ''*'' l r) (extent_arithmetic ''*'' r l)"
    by (subst canonical_form_eq_iff)
      (use assms can in \<open>auto simp: val add.commute tsum_swap [of _ "extent_terms r"]\<close>)
  show "same_extent (extent_arithmetic ''*'' c (extent_arithmetic ''+'' l r))
      (extent_arithmetic ''+'' (extent_arithmetic ''*'' c l) (extent_arithmetic ''*'' c r))"
    by (subst canonical_form_eq_iff) (use assms can ok in \<open>auto simp: val tsum_add\<close>)
  have z: "extent_ok (extent_of 0)" "tsum g (extent_terms (extent_of 0)) = 0" for g
    by (simp_all add: extent_ok_def extent_of_def extent_terms_def coeff_of_int_def)
  show "same_extent (extent_arithmetic ''-'' (extent_arithmetic ''+'' c r) r) (extent_arithmetic ''+'' c (extent_of 0))"
    by (subst canonical_form_eq_iff) (use assms can ok z in \<open>auto simp: val\<close>)
qed

theorem extent_canonical_decides_witness:
  "same_extent (extent_arithmetic ''*'' (symbol_extent 1) (symbol_extent 2)) (extent_arithmetic ''*'' (symbol_extent 2) (symbol_extent 1))"
proof -
  have ok: "extent_ok (symbol_extent i)" for i by (simp add: extent_ok_def symbol_extent_def)
  have "canonical_form (extent_arithmetic ''+'' (symbol_extent 1) (symbol_extent 2))"
    using extent_arithmetic_ring(1) [OF ok ok] .
  then show ?thesis using extent_canonical_decides [OF _ _ ok ok ok] by blast
qed

section \<open>Substitution is evaluation\<close>

definition plain_polynomial :: "shape_extent \<Rightarrow> bool" where
  "plain_polynomial e \<longleftrightarrow> extent_ok e \<and> (\<forall>t\<in>set (extent_terms e). \<forall>f\<in>set (factors t). direct_symbol f)"

lemma term_product_val:
  assumes "\<And>f. f \<in> set (factors t) \<Longrightarrow> \<exists>v. fv f = Some v \<and> extent_ok v \<and> extent_val av v = w f" and "term_ok t"
  shows "\<exists>p. term_product fv t = Some p \<and> extent_ok p \<and> extent_val av p = cval t * (\<Prod>f\<leftarrow>factors t. w f)"
proof -
  let ?step = "\<lambda>p f. case (p, fv f) of (Some p, Some v) \<Rightarrow> Some (extent_arithmetic ''*'' p v) | _ \<Rightarrow> None"
  have fold: "\<exists>q. foldl ?step (Some p) fs = Some q \<and> extent_ok q \<and> extent_val av q = extent_val av p * (\<Prod>f\<leftarrow>fs. w f)"
    if "extent_ok p" "set fs \<subseteq> set (factors t)" for p fs
    using that
  proof (induction fs arbitrary: p)
    case (Cons f fs)
    obtain v where v: "fv f = Some v" "extent_ok v" "extent_val av v = w f" using assms(1) [of f] Cons.prems by auto
    have "extent_ok (extent_arithmetic ''*'' p v)"
      using extent_arithmetic_ring(3) [OF Cons.prems(1) v(2)] canonical_form_ok by blast
    then show ?case
      using Cons.IH [of "extent_arithmetic ''*'' p v"] Cons.prems v extent_val_arithmetic(3) [OF Cons.prems(1) v(2), of av]
      by (simp add: mult.assoc)
  qed simp
  have one: "\<forall>u\<in>set [\<lparr>coefficient = coefficient t, factors = []\<rparr>]. term_ok u" using assms(2) by (simp add: term_ok_def)
  have "extent_val av (canonical_extent_expression [\<lparr>coefficient = coefficient t, factors = []\<rparr>] []) = cval t"
    unfolding extent_val_def canonical_extent_sound(2) [OF one] by simp
  then show ?thesis
    using fold [OF canonical_extent_sound(1) [OF one, of "[]"] subset_refl] by (simp add: term_product_def)
qed

lemma terms_total_val:
  assumes "\<And>t. t \<in> set ts \<Longrightarrow> \<exists>p. term_product fv t = Some p \<and> extent_ok p \<and> extent_val av p = w t"
  shows "\<exists>r. terms_total fv ts = Some r \<and> extent_ok r \<and> extent_val av r = (\<Sum>t\<leftarrow>ts. w t)"
proof -
  let ?step = "\<lambda>r t. case (r, term_product fv t) of (Some r, Some p) \<Rightarrow> Some (extent_arithmetic ''+'' r p) | _ \<Rightarrow> None"
  have fold: "\<exists>q. foldl ?step (Some r) us = Some q \<and> extent_ok q \<and> extent_val av q = extent_val av r + (\<Sum>t\<leftarrow>us. w t)"
    if "extent_ok r" "set us \<subseteq> set ts" for r us
    using that
  proof (induction us arbitrary: r)
    case (Cons t us)
    obtain p where p: "term_product fv t = Some p" "extent_ok p" "extent_val av p = w t"
      using assms [of t] Cons.prems by auto
    have "extent_ok (extent_arithmetic ''+'' r p)"
      using extent_arithmetic_ring(1) [OF Cons.prems(1) p(2)] canonical_form_ok by blast
    then show ?case
      using Cons.IH [of "extent_arithmetic ''+'' r p"] Cons.prems p extent_val_arithmetic(1) [OF Cons.prems(1) p(2), of av]
      by (simp add: add.assoc)
  qed simp
  have "extent_ok (extent_of 0)" "extent_val av (extent_of 0) = 0"
    by (simp_all add: extent_ok_def extent_of_def extent_val_def extent_terms_def coeff_of_int_def)
  then show ?thesis using fold [of "extent_of 0" ts] by (simp add: terms_total_def)
qed

text \<open>C36: Substituting extents for the symbols of a polynomial extent gives the extent of the composed
  polynomial: its value under any valuation is the value of the original with every symbol read as
  the value of what replaced it.\<close>

theorem substitute_extent_sound:
  assumes "plain_polynomial e" and "\<And>i. extent_ok (symbol i)"
  shows "extent_val av (substitute_extent symbol e) = extent_val (\<lambda>f. extent_val av (symbol (symbol_id f))) e"
proof (cases e)
  case (ShapeExtent k v ss ts ops ao an)
  let ?fv = "factor_value symbol (map (\<lambda>(f, xs). (f, map (substitute_extent symbol) xs)) ao) an"
  let ?w = "\<lambda>f. extent_val av (symbol (symbol_id f))"
  have fs: "\<forall>t\<in>set (extent_terms e). \<forall>f\<in>set (factors t). direct_symbol f" and ok: "extent_ok e"
    using assms(1) by (auto simp: plain_polynomial_def)
  show ?thesis
  proof (cases k)
    case Unknown_Extent
    then show ?thesis using ok by (simp add: ShapeExtent extent_ok_def)
  next
    case Known_Extent
    then show ?thesis by (simp add: ShapeExtent extent_val_def extent_terms_def)
  next
    case Symbol_Extent
    then have "0 \<le> v" using fs direct_symbol_text [of v] by (simp add: ShapeExtent extent_terms_def)
    moreover have "extent_val w e = w (''s'' @ int_text v)" for w
      using Symbol_Extent by (simp add: ShapeExtent extent_terms_def extent_val_def coeff_of_int_def)
    ultimately show ?thesis using Symbol_Extent symbol_id_text [of v] by (simp add: ShapeExtent)
  next
    case Broadcast_Extent
    then show ?thesis using fs by (simp add: ShapeExtent extent_terms_def direct_symbol_def)
  next
    case Expr_Extent
    then have et: "extent_terms e = ts" by (simp add: ShapeExtent extent_terms_def)
    have "\<exists>p. term_product ?fv t = Some p \<and> extent_ok p \<and> extent_val av p = cval t * (\<Prod>f\<leftarrow>factors t. ?w f)"
      if "t \<in> set ts" for t
    proof (rule term_product_val)
      show "term_ok t" using term_ok_extent_terms [OF ok] that et by simp
      show "\<exists>v. ?fv f = Some v \<and> extent_ok v \<and> extent_val av v = ?w f" if "f \<in> set (factors t)" for f
        using fs et \<open>t \<in> set ts\<close> that assms(2) by (simp add: factor_value_def)
    qed
    then obtain r where r: "terms_total ?fv ts = Some r" "extent_val av r = (\<Sum>t\<leftarrow>ts. cval t * (\<Prod>f\<leftarrow>factors t. ?w f))"
      using terms_total_val [of ts ?fv av "\<lambda>t. cval t * (\<Prod>f\<leftarrow>factors t. ?w f)"] by blast
    have "(\<Prod>f\<leftarrow>xs. w f) = \<Prod>\<^sub># (image_mset w (mset xs))" for xs and w :: "string \<Rightarrow> int"
      by (induction xs) simp_all
    moreover have "extent_val w e = (\<Sum>t\<leftarrow>ts. cval t * \<Prod>\<^sub># (image_mset w (mset (factors t))))" for w
      by (simp add: extent_val_def et tsum_def)
    ultimately have "extent_val ?w e = extent_val av r" unfolding r(2) by simp
    then show ?thesis using Expr_Extent r(1) by (simp add: ShapeExtent)
  qed
qed

theorem substitute_extent_sound_witness:
  "extent_val (\<lambda>f. 0) (substitute_extent (\<lambda>i. extent_of 4) (symbol_extent 7)) = 4"
proof -
  have p: "plain_polynomial (symbol_extent 7)"
    using direct_symbol_text [of 7]
    by (simp add: plain_polynomial_def extent_ok_def symbol_extent_def extent_terms_def)
  have four: "extent_ok (extent_of 4)" "extent_val av (extent_of 4) = 4" for av
    by (simp_all add: extent_ok_def extent_of_def extent_val_def extent_terms_def coeff_of_int_def)
  have "extent_val (\<lambda>f. 4) (symbol_extent 7) = 4"
    by (simp add: extent_val_def extent_terms_def symbol_extent_def coeff_of_int_def)
  then show ?thesis using substitute_extent_sound [OF p, of "\<lambda>i. extent_of 4" "\<lambda>f. 0"] four by simp
qed

end
