(* ===== verification/Types.thy ===== *)
theory Types
  imports Numeric_Types Shape_Extent
begin

text \<open>
  The types of the language, \<open>include/quidra/types.hpp\<close>, with the built-in names of \<open>language.hpp\<close>: the
  type value, identity, names and unions, the numeric predicates and ranges, the conversion policy, the
  storage of values in memory and assignability. A null \<open>first\<close> is \<open>None\<close>; the code dereferences it
  only for kinds that always have one, so those cases are written as the empty name or false.
\<close>

section \<open>Types and their identity\<close>

datatype qtype =
  Type (kind_of: type_kind) (first_of: "qtype option") (cases_of: "qtype list") (params_of: "qtype list")
    (length_of: int) (shape_prefix: "int list") (known_prefix: "shape_extent list") (shape_key: string)
    (class_name: string) (union_name: string) (case_names: "string list")

definition simple :: "type_kind \<Rightarrow> qtype" where
  "simple k = Type k None [] [] (- 1) [] [] [] [] [] []"

definition class_type :: "string \<Rightarrow> qtype" where
  "class_type n = Type Class_K None [] [] (- 1) [] [] [] n [] []"

definition array_type :: "qtype \<Rightarrow> int \<Rightarrow> qtype" where
  "array_type element len = Type Array_K (Some element) [] [] len [] [] [] [] [] []"

definition function_type :: "qtype \<Rightarrow> qtype list \<Rightarrow> qtype" where
  "function_type result ps = Type Function_K (Some result) [] ps (- 1) [] [] [] [] [] []"

definition tensor_type :: "qtype \<Rightarrow> int \<Rightarrow> int list \<Rightarrow> shape_extent list \<Rightarrow> qtype" where
  "tensor_type element rank prefix known = Type Tensor_K (Some element) [] [] rank prefix known [] [] [] []"

definition tuple_type :: "qtype list \<Rightarrow> qtype" where
  "tuple_type es = Type Tuple_K None [] es (- 1) [] [] [] [] [] []"

definition enum_type :: "string \<Rightarrow> string list \<Rightarrow> qtype list \<Rightarrow> qtype" where
  "enum_type n names payloads = Type Union_K None payloads [] (- 1) [] [] [] [] n names"

definition type_extent :: "qtype \<Rightarrow> nat \<Rightarrow> shape_extent" where
  "type_extent t axis =
     (if axis < length (known_prefix t) \<and> x_kind (known_prefix t ! axis) \<noteq> Unknown_Extent then known_prefix t ! axis
      else if axis < length (shape_prefix t) \<and> shape_prefix t ! axis \<ge> 0 then extent_of (shape_prefix t ! axis)
      else unknown_extent)"

definition set_extent :: "nat \<Rightarrow> shape_extent \<Rightarrow> qtype \<Rightarrow> qtype" where
  "set_extent axis e t =
     (let ks = known_prefix t;
          ks = (if length ks \<le> axis then ks @ replicate (axis + 1 - length ks) unknown_extent else ks)
      in Type (kind_of t) (first_of t) (cases_of t) (params_of t) (length_of t) (shape_prefix t) (ks[axis := e])
           (shape_key t) (class_name t) (union_name t) (case_names t))"

fun type_eq :: "qtype \<Rightarrow> qtype \<Rightarrow> bool"
  and types_eq :: "qtype list \<Rightarrow> qtype list \<Rightarrow> bool" where
  "type_eq (Type k f cs ps len sp kp sk cn un ns) (Type k' f' cs' ps' len' sp' kp' sk' cn' un' ns') =
     (if k \<noteq> k' \<or> cn \<noteq> cn' \<or> un \<noteq> un' \<or> ns \<noteq> ns' \<or> \<not> types_eq cs cs' \<or> \<not> types_eq ps ps'
         \<or> \<not> (case (f, f') of (None, None) \<Rightarrow> True | (Some a, Some b) \<Rightarrow> type_eq a b | _ \<Rightarrow> False)
      then False
      else if k = Array_K then len = len'
      else if k = Tensor_K then
        (if sk \<noteq> [] \<or> sk' \<noteq> [] then sk = sk' \<and> sp = sp' else sp = sp')
      else True)"
| "types_eq [] [] = True"
| "types_eq (x # xs) (y # ys) = (type_eq x y \<and> types_eq xs ys)"
| "types_eq [] (y # ys) = False"
| "types_eq (x # xs) [] = False"

text \<open>The name of a kind that is neither numeric nor an array, from the names of its parts.\<close>

definition kind_name :: "type_kind \<Rightarrow> string \<Rightarrow> string list \<Rightarrow> string list \<Rightarrow> int list \<Rightarrow> string \<Rightarrow> string \<Rightarrow> string" where
  "kind_name k first_name params cases prefix cn un =
     (case k of
        Traversal_K \<Rightarrow> ''reflect.Each<'' @ first_name @ ''>''
      | Tuple_K \<Rightarrow> foldl (\<lambda>result n. (if length result > 1 then result @ '', '' else result) @ n) ''('' params @ '')''
      | Bool_K \<Rightarrow> ''bool''
      | String_K \<Rightarrow> ''string''
      | Bin_K \<Rightarrow> ''bin''
      | Void_K \<Rightarrow> ''void''
      | Never_K \<Rightarrow> ''never''
      | Error_K \<Rightarrow> ''error''
      | None_K \<Rightarrow> ''none''
      | Auto_K \<Rightarrow> ''auto''
      | Range_K \<Rightarrow> ''range''
      | Invalid_K \<Rightarrow> ''<invalid>''
      | Class_K \<Rightarrow> cn
      | Address_K \<Rightarrow> ''address''
      | Function_K \<Rightarrow>
          ''func<'' @ first_name @ ''>('' @ concat (map (\<lambda>(i, n). (if i = 0 then [] else '', '') @ n) (enumerate 0 params)) @ '')''
      | Tensor_K \<Rightarrow>
          ''tensor<'' @ first_name @ ''>'' @
            (if prefix = [] then []
             else ''{'' @ concat (map (\<lambda>(i, s). (if i = 0 then [] else '', '') @ (if s < 0 then ''_'' else int_text s))
                    (enumerate 0 prefix)) @ ''}'')
      | Union_K \<Rightarrow>
          (if un \<noteq> [] then un
           else foldl (\<lambda>result n. (if result \<noteq> [] then result @ '' | '' else result) @ n) [] cases)
      | _ \<Rightarrow> ''?'')"

text \<open>\<open>dims\<close> holds the dimensions of the arrays around the element reached so far.\<close>

fun type_name_dims :: "qtype \<Rightarrow> string \<Rightarrow> string" where
  "type_name_dims (Type k f cs ps len sp kp sk cn un ns) dims =
     (case numeric_kind_info k of
        Some numeric \<Rightarrow> spelling numeric @ dims
      | None \<Rightarrow>
         (if k = Array_K then
            (case f of
               Some element \<Rightarrow> type_name_dims element (dims @ ''['' @ (if len < 0 then [] else int_text len) @ '']'')
             | None \<Rightarrow> dims)
          else kind_name k (case f of Some t \<Rightarrow> type_name_dims t [] | None \<Rightarrow> [])
                 (map (\<lambda>p. type_name_dims p []) ps) (map (\<lambda>c. type_name_dims c []) cs) sp cn un @ dims))"

definition type_name :: "qtype \<Rightarrow> string" where
  "type_name t = type_name_dims t []"

fun unique_types :: "qtype list \<Rightarrow> qtype list" where
  "unique_types (x # y # xs) = (if type_eq x y then unique_types (x # xs) else x # unique_types (y # xs))"
| "unique_types xs = xs"

definition flat_cases :: "qtype list \<Rightarrow> qtype list" where
  "flat_cases input = concat (map (\<lambda>c. if kind_of c = Union_K then cases_of c else [c]) input)"

definition union_of :: "qtype list \<Rightarrow> qtype" where
  "union_of input =
     (case unique_types (sort_key type_name (flat_cases input)) of
        [t] \<Rightarrow> t
      | cs \<Rightarrow> Type Union_K None cs [] (- 1) [] [] [] [] [] [])"

section \<open>Numeric predicates and ranges\<close>

definition is_storable :: "qtype \<Rightarrow> bool" where
  "is_storable t \<longleftrightarrow> kind_of t \<notin> {Void_K, None_K, Never_K, Auto_K, Range_K, Traversal_K, Address_K}"

definition numeric_info :: "qtype \<Rightarrow> numeric_kind option" where
  "numeric_info t = numeric_kind_info (kind_of t)"

definition info_is :: "(numeric_kind \<Rightarrow> bool) \<Rightarrow> qtype \<Rightarrow> bool" where
  "info_is P t \<longleftrightarrow> (case numeric_info t of Some numeric \<Rightarrow> P numeric | None \<Rightarrow> False)"

definition is_fixed_integer :: "qtype \<Rightarrow> bool" where
  "is_fixed_integer = info_is (\<lambda>n. width n \<noteq> 0 \<and> (family n = Integer \<or> family n = Natural))"

definition is_signed_integer :: "qtype \<Rightarrow> bool" where
  "is_signed_integer = info_is (\<lambda>n. width n \<noteq> 0 \<and> family n = Integer)"

definition is_bare_integer :: "qtype \<Rightarrow> bool" where
  "is_bare_integer = info_is (\<lambda>n. width n = 0 \<and> (family n = Integer \<or> family n = Natural))"

definition is_integer_family_type :: "qtype \<Rightarrow> bool" where
  "is_integer_family_type = info_is (\<lambda>n. family n = Integer \<or> family n = Natural)"

definition is_fixed_real :: "qtype \<Rightarrow> bool" where
  "is_fixed_real = info_is (\<lambda>n. width n \<noteq> 0 \<and> family n = Real_Family)"

definition is_exact_real :: "qtype \<Rightarrow> bool" where
  "is_exact_real = info_is (\<lambda>n. width n = 0 \<and> family n = Real_Family)"

definition is_real :: "qtype \<Rightarrow> bool" where
  "is_real = info_is (\<lambda>n. family n = Real_Family)"

definition is_numeric :: "qtype \<Rightarrow> bool" where
  "is_numeric t \<longleftrightarrow> numeric_info t \<noteq> None"

definition is_complex :: "qtype \<Rightarrow> bool" where
  "is_complex = info_is (\<lambda>n. family n = Complex_Family)"

definition is_fixed_complex :: "qtype \<Rightarrow> bool" where
  "is_fixed_complex = info_is (\<lambda>n. family n = Complex_Family \<and> width n \<noteq> 0)"

definition complex_part_type :: "qtype \<Rightarrow> qtype" where
  "complex_part_type t = simple (complex_part_kind (kind_of t))"

definition is_ordered_numeric :: "qtype \<Rightarrow> bool" where
  "is_ordered_numeric t \<longleftrightarrow> is_numeric t \<and> \<not> is_complex t"

definition is_arbitrary_precision :: "qtype \<Rightarrow> bool" where
  "is_arbitrary_precision = info_is (\<lambda>n. width n = 0)"

definition is_tensor_numeric :: "qtype \<Rightarrow> bool" where
  "is_tensor_numeric = info_is tensor_element"

definition integer_width :: "qtype \<Rightarrow> int" where
  "integer_width t = (if is_fixed_integer t then (case numeric_info t of Some n \<Rightarrow> width n | None \<Rightarrow> 0) else 0)"

definition float_precision_bits :: "qtype \<Rightarrow> nat" where
  "float_precision_bits t = (case numeric_info t of Some n \<Rightarrow> ieee_precision_bits (format n) | None \<Rightarrow> 0)"

definition signed_integer_min :: "int \<Rightarrow> int" where
  "signed_integer_min w = (if w \<ge> 64 then - (2 ^ 63) else - (2 ^ nat (w - 1)))"

definition signed_integer_max :: "int \<Rightarrow> int" where
  "signed_integer_max w = (if w \<ge> 64 then 2 ^ 63 - 1 else 2 ^ nat (w - 1) - 1)"

definition unsigned_integer_max :: "int \<Rightarrow> int" where
  "unsigned_integer_max w = (if w \<ge> 64 then 2 ^ 64 - 1 else 2 ^ nat w - 1)"

definition integer_value_fits :: "int \<Rightarrow> qtype \<Rightarrow> bool" where
  "integer_value_fits v t =
     (if \<not> is_fixed_integer t then False
      else let w = integer_width t
        in if is_signed_integer t then v \<ge> signed_integer_min w \<and> v \<le> signed_integer_max w
           else v \<ge> 0 \<and> wrap_u64 v \<le> unsigned_integer_max w)"

definition integer_literal_value_fits :: "int \<Rightarrow> qtype \<Rightarrow> bool" where
  "integer_literal_value_fits v t =
     (if \<not> is_fixed_integer t then False
      else let w = integer_width t
        in if is_signed_integer t then v \<le> wrap_u64 (signed_integer_max w) else v \<le> unsigned_integer_max w)"

definition negative_integer_literal_value_fits :: "int \<Rightarrow> qtype \<Rightarrow> bool" where
  "negative_integer_literal_value_fits magnitude t =
     (if \<not> is_signed_integer t then False
      else let w = integer_width t
        in if w \<le> 0 then False else magnitude \<le> wrap_u64 (2 ^ nat (w - 1)))"

text \<open>\<open>std::ldexp (2 - std::ldexp (1, 1 - precision), exponent)\<close>, exact in the long double: an integer.\<close>

definition float_type_max :: "qtype \<Rightarrow> int" where
  "float_type_max t =
     (case numeric_info t of
        None \<Rightarrow> 0
      | Some n \<Rightarrow> let e = ieee_max_exponent (format n) in 2 * 2 ^ e - 2 ^ (e + 1 - ieee_precision_bits (format n)))"

text \<open>The magnitude with its trailing zero bits shifted out, and the number of bits left.\<close>

fun drop_zero_bits :: "nat \<Rightarrow> nat" where
  "drop_zero_bits m = (if m = 0 then 0 else if even m then drop_zero_bits (m div 2) else m)"

declare drop_zero_bits.simps [simp del]

fun count_bits :: "nat \<Rightarrow> nat" where
  "count_bits m = (if m = 0 then 0 else Suc (count_bits (m div 2)))"

declare count_bits.simps [simp del]

definition integer_literal_fits_exactly_in_float :: "int \<Rightarrow> qtype \<Rightarrow> bool" where
  "integer_literal_fits_exactly_in_float v t =
     (if \<not> is_fixed_real t then False
      else if v = 0 then True
      else count_bits (drop_zero_bits (nat v)) \<le> float_precision_bits t)"

definition integer_value_fits_exactly_in_float :: "int \<Rightarrow> qtype \<Rightarrow> bool" where
  "integer_value_fits_exactly_in_float v t =
     (if \<not> is_fixed_real t then False
      else let magnitude = (if v < 0 then wrap_u64 (wrap_u64 (- (v + 1)) + 1) else wrap_u64 v)
        in if magnitude = 0 then True
           else count_bits (drop_zero_bits (nat magnitude)) \<le> float_precision_bits t)"

definition scalar_storage_bits :: "qtype \<Rightarrow> int" where
  "scalar_storage_bits t =
     (case numeric_info t of
        Some n \<Rightarrow> if width n \<noteq> 0 then width n else if kind_of t = Bool_K then 1 else 0
      | None \<Rightarrow> if kind_of t = Bool_K then 1 else 0)"

definition integer_range_contained :: "qtype \<Rightarrow> qtype \<Rightarrow> bool" where
  "integer_range_contained from_t to_t =
     (if \<not> is_fixed_integer from_t \<or> \<not> is_fixed_integer to_t then False
      else let from_width = integer_width from_t; to_width = integer_width to_t;
               from_signed = is_signed_integer from_t; to_signed = is_signed_integer to_t
        in if from_signed \<and> to_signed then to_width \<ge> from_width
           else if \<not> from_signed \<and> \<not> to_signed then to_width \<ge> from_width
           else if from_signed \<and> \<not> to_signed then False
           else to_width > from_width)"

definition integer_range_exact_in_float :: "qtype \<Rightarrow> qtype \<Rightarrow> bool" where
  "integer_range_exact_in_float from_t to_t =
     (if \<not> is_fixed_integer from_t \<or> \<not> is_fixed_real to_t then False
      else int (float_precision_bits to_t) \<ge> integer_width from_t - (if is_signed_integer from_t then 1 else 0))"

section \<open>Conversion policy\<close>

definition explicit_numeric_cast_supported :: "qtype \<Rightarrow> qtype \<Rightarrow> bool" where
  "explicit_numeric_cast_supported from_t to_t =
     (if \<not> is_numeric from_t \<or> \<not> is_numeric to_t then False
      else if is_complex from_t \<and> \<not> is_complex to_t then False
      else True)"

datatype conversion_policy = Identity | Explicit_Range_Check | Explicit_Deterministic | Forbidden

text \<open>The policy between types that are not complex; the recursion of the code into the parts of a
  complex type reaches only this case.\<close>

definition scalar_conversion_policy :: "qtype \<Rightarrow> qtype \<Rightarrow> conversion_policy" where
  "scalar_conversion_policy from_t to_t =
     (if is_fixed_integer from_t \<and> is_fixed_integer to_t
      then (if integer_range_contained from_t to_t then Explicit_Deterministic else Explicit_Range_Check)
      else if kind_of to_t = Nat_K \<and> (kind_of from_t = Int_K \<or> is_signed_integer from_t) then Explicit_Range_Check
      else if (is_bare_integer from_t \<and> is_fixed_integer to_t) \<or> (is_real from_t \<and> is_integer_family_type to_t)
           \<or> ((is_bare_integer from_t \<or> is_exact_real from_t) \<and> is_fixed_real to_t) then Explicit_Range_Check
      else if is_fixed_real from_t \<and> is_fixed_real to_t \<and> float_type_max to_t < float_type_max from_t then Explicit_Range_Check
      else if is_fixed_integer from_t \<and> is_fixed_real to_t
           \<and> (if is_signed_integer from_t then signed_integer_max (integer_width from_t)
              else unsigned_integer_max (integer_width from_t)) > float_type_max to_t then Explicit_Range_Check
      else Explicit_Deterministic)"

definition part_conversion_policy :: "qtype \<Rightarrow> qtype \<Rightarrow> conversion_policy" where
  "part_conversion_policy from_t to_t =
     (if type_eq from_t to_t then Identity
      else if \<not> explicit_numeric_cast_supported from_t to_t then Forbidden
      else scalar_conversion_policy from_t to_t)"

definition numeric_conversion_policy :: "qtype \<Rightarrow> qtype \<Rightarrow> conversion_policy" where
  "numeric_conversion_policy from_t to_t =
     (if type_eq from_t to_t then Identity
      else if \<not> explicit_numeric_cast_supported from_t to_t then Forbidden
      else if is_complex to_t then
        (let part = complex_part_type to_t;
             source = (if is_complex from_t then complex_part_type from_t else from_t)
         in if type_eq source part then Explicit_Deterministic
            else let policy = part_conversion_policy source part
              in if policy = Identity then Explicit_Deterministic else policy)
      else scalar_conversion_policy from_t to_t)"

section \<open>Built-in names\<close>

text \<open>The array has 27 slots and 26 initialisers: the last slot holds two empty names.\<close>

definition builtin_type_names :: "(string \<times> string) list" where
  "builtin_type_names =
     map (\<lambda>n. (n, n)) [''int'', ''nat'', ''int8'', ''int16'', ''int32'', ''int64'', ''nat8'', ''nat16'', ''nat32'', ''nat64'',
       ''real16'', ''real16b'', ''real32'', ''real64'', ''real'', ''com16'', ''com16b'', ''com32'', ''com64'', ''com'',
       ''bool'', ''string'', ''bin'', ''void'', ''none'', ''error''] @ [([], [])]"

definition is_builtin_type_name :: "string \<Rightarrow> bool" where
  "is_builtin_type_name n = list_ex (\<lambda>(name, canonical). name = n) builtin_type_names"

lemma builtin_names_empty: "is_builtin_type_name []"
  by code_simp

definition is_language_type_name :: "string \<Rightarrow> bool" where
  "is_language_type_name n \<longleftrightarrow>
     is_builtin_type_name n \<or> n = ''tensor'' \<or> n = ''func'' \<or> n = ''auto'' \<or> n = ''union'' \<or> n = ''extern''"

definition canonical_builtin_type_name :: "string \<Rightarrow> string option" where
  "canonical_builtin_type_name n = map_option snd (find (\<lambda>(name, canonical). name = n) builtin_type_names)"

definition builtin_scalar_type :: "string \<Rightarrow> qtype option" where
  "builtin_scalar_type n =
     (let n = (case canonical_builtin_type_name n of Some canonical \<Rightarrow> canonical | None \<Rightarrow> n)
      in case numeric_kind_of_spelling n of
           Some numeric \<Rightarrow> Some (simple (nk_kind numeric))
         | None \<Rightarrow>
             (if n = ''bool'' then Some (simple Bool_K)
              else if n = ''string'' then Some (simple String_K)
              else if n = ''bin'' then Some (simple Bin_K)
              else None))"

section \<open>Storage\<close>

definition is_pointer_runtime_type :: "qtype \<Rightarrow> bool" where
  "is_pointer_runtime_type t \<longleftrightarrow>
     is_arbitrary_precision t \<or> kind_of t \<in> {String_K, Bin_K, Error_K, Array_K, Tensor_K, Union_K, Class_K}"

datatype storage_policy = Direct | Immutable_Shared | Independent_Storage | Inline_Aggregate

definition json_value :: string where "json_value = ''$std.json.Value''"

fun value_storage_policy :: "qtype \<Rightarrow> storage_policy" where
  "value_storage_policy (Type k f cs ps len sp kp sk cn un ns) =
     (if k = Tuple_K then
        (if \<exists>e\<in>set ps. value_storage_policy e \<noteq> Direct then Inline_Aggregate else Direct)
      else if is_arbitrary_precision (Type k f cs ps len sp kp sk cn un ns) \<or> k = String_K \<or> k = Error_K
           \<or> (k = Class_K \<and> cn = json_value) then Immutable_Shared
      else if k = Array_K \<or> k = Tensor_K \<or> k = Bin_K \<or> k = Class_K \<or> k = Union_K then Independent_Storage
      else Direct)"

definition requires_value_clone :: "qtype \<Rightarrow> bool" where
  "requires_value_clone t \<longleftrightarrow> value_storage_policy t = Independent_Storage"

definition requires_lifetime_management :: "qtype \<Rightarrow> bool" where
  "requires_lifetime_management t \<longleftrightarrow> is_pointer_runtime_type t"

definition uses_shared_immutable_storage :: "qtype \<Rightarrow> bool" where
  "uses_shared_immutable_storage t \<longleftrightarrow> value_storage_policy t = Immutable_Shared"

fun has_managed_elements :: "qtype \<Rightarrow> bool" where
  "has_managed_elements (Type k f cs ps len sp kp sk cn un ns) \<longleftrightarrow>
     k = Tuple_K \<and> (\<exists>t\<in>set ps. requires_lifetime_management t \<or> has_managed_elements t)"

definition owns_managed :: "qtype \<Rightarrow> bool" where
  "owns_managed t \<longleftrightarrow> requires_lifetime_management t \<or> has_managed_elements t"

fun clone_needing :: "qtype \<Rightarrow> bool" where
  "clone_needing (Type k f cs ps len sp kp sk cn un ns) =
     (if k = Tuple_K then (\<exists>t\<in>set ps. clone_needing t)
      else requires_value_clone (Type k f cs ps len sp kp sk cn un ns))"

fun runtime_storage_alignment :: "qtype \<Rightarrow> nat" where
  "runtime_storage_alignment (Type k f cs ps len sp kp sk cn un ns) =
     (if k = Tuple_K then foldl max 1 (map runtime_storage_alignment ps)
      else case numeric_kind_info k of
        Some n \<Rightarrow>
          (if width n \<noteq> 0 then min 8 (nat (width n) div (if family n = Complex_Family then 16 else 8))
           else if k = Bool_K then 1 else 8)
      | None \<Rightarrow> if k = Bool_K then 1 else 8)"

text \<open>The loop of \<open>tuple_element_offset\<close> over the (alignment, bytes) of the elements.\<close>

fun tuple_offset_loop :: "(nat \<times> nat) list \<Rightarrow> nat \<Rightarrow> nat \<Rightarrow> nat" where
  "tuple_offset_loop ((align, n) # elements) i offset =
     (let offset = (offset + align - 1) div align * align
      in if i = 0 then offset else tuple_offset_loop elements (i - 1) (offset + n))"
| "tuple_offset_loop [] i offset = offset"

fun runtime_storage_bytes :: "qtype \<Rightarrow> nat" where
  "runtime_storage_bytes (Type k f cs ps len sp kp sk cn un ns) =
     (if k = Tuple_K then
        (if ps = [] then 0
         else let elements = map (\<lambda>p. (runtime_storage_alignment p, runtime_storage_bytes p)) ps;
                  size = tuple_offset_loop elements (length ps - 1) 0 + snd (last elements);
                  alignment = runtime_storage_alignment (Type k f cs ps len sp kp sk cn un ns)
           in (size + alignment - 1) div alignment * alignment)
      else case numeric_kind_info k of
        Some n \<Rightarrow> if width n \<noteq> 0 then nat (width n) div 8 else if k = Real_K then 16 else 8
      | None \<Rightarrow>
          (if k = Bool_K then 1
           else if k = Function_K then 8
           else if is_pointer_runtime_type (Type k f cs ps len sp kp sk cn un ns) then 8
           else 0))"

definition tuple_element_offset :: "qtype \<Rightarrow> nat \<Rightarrow> nat" where
  "tuple_element_offset t i =
     tuple_offset_loop (map (\<lambda>p. (runtime_storage_alignment p, runtime_storage_bytes p)) (params_of t)) i 0"

section \<open>Assignability\<close>

fun find_index :: "('a \<Rightarrow> bool) \<Rightarrow> 'a list \<Rightarrow> nat option" where
  "find_index P [] = None"
| "find_index P (x # xs) = (if P x then Some 0 else map_option Suc (find_index P xs))"

definition case_index :: "qtype \<Rightarrow> qtype \<Rightarrow> int" where
  "case_index t current = (case find_index (\<lambda>c. type_eq c current) (cases_of t) of None \<Rightarrow> - 1 | Some i \<Rightarrow> int i)"

definition tensor_known_extent :: "qtype \<Rightarrow> nat \<Rightarrow> int option" where
  "tensor_known_extent t axis =
     (case (if axis < length (known_prefix t) then x_known (known_prefix t ! axis) else None) of
        Some known \<Rightarrow> Some known
      | None \<Rightarrow> if axis < length (shape_prefix t) \<and> shape_prefix t ! axis \<ge> 0 then Some (shape_prefix t ! axis) else None)"

definition tensor_satisfies_shape_prefix :: "qtype \<Rightarrow> qtype \<Rightarrow> bool" where
  "tensor_satisfies_shape_prefix from_t to_t =
     (if shape_prefix to_t = [] then True
      else if length_of from_t \<ge> 0 \<and> length_of from_t \<noteq> int (length (shape_prefix to_t)) then False
      else list_all (\<lambda>axis. let required = shape_prefix to_t ! axis in
             required < 0 \<or> (case tensor_known_extent from_t axis of Some extent \<Rightarrow> extent = required | None \<Rightarrow> True))
             [0..<length (shape_prefix to_t)])"

definition same_first :: "qtype \<Rightarrow> qtype \<Rightarrow> bool" where
  "same_first a b = (case (first_of a, first_of b) of (Some x, Some y) \<Rightarrow> type_eq x y | _ \<Rightarrow> False)"

definition representation_erasure_compatible :: "qtype \<Rightarrow> qtype \<Rightarrow> bool" where
  "representation_erasure_compatible from_t to_t =
     (if type_eq from_t to_t then True
      else if kind_of from_t = Tensor_K \<and> kind_of to_t = Tensor_K
        then same_first from_t to_t \<and> tensor_satisfies_shape_prefix from_t to_t
      else False)"

text \<open>The loop over the cases with the match so far.\<close>

fun compatible_loop :: "(qtype \<Rightarrow> bool) \<Rightarrow> qtype list \<Rightarrow> nat \<Rightarrow> int \<Rightarrow> int" where
  "compatible_loop compatible [] i m = m"
| "compatible_loop compatible (c # cs) i m =
     (if \<not> compatible c then compatible_loop compatible cs (i + 1) m
      else if m \<ge> 0 then - 1
      else compatible_loop compatible cs (i + 1) (int i))"

definition compatible_case_index :: "qtype \<Rightarrow> qtype \<Rightarrow> int" where
  "compatible_case_index t current =
     (let exact = case_index t current
      in if exact \<ge> 0 then exact
         else compatible_loop (representation_erasure_compatible current) (cases_of t) 0 (- 1))"

fun assignable :: "qtype \<Rightarrow> qtype \<Rightarrow> bool"
  and all_assignable :: "qtype list \<Rightarrow> qtype list \<Rightarrow> bool" where
  "assignable (Type k f cs ps len sp kp sk cn un ns) to_t =
     (let from_t = Type k f cs ps len sp kp sk cn un ns
      in if k = Invalid_K \<or> kind_of to_t = Invalid_K \<or> type_eq from_t to_t \<or> k = Never_K then True
         else if (k = Union_K \<and> un \<noteq> []) \<or> (kind_of to_t = Union_K \<and> union_name to_t \<noteq> []) then False
         else if kind_of to_t = Union_K then
           (if k = Union_K then list_all (\<lambda>current. compatible_case_index to_t current \<ge> 0) cs
            else compatible_case_index to_t from_t \<ge> 0)
         else if k = Tuple_K \<and> kind_of to_t = Tuple_K then
           (if length ps \<noteq> length (params_of to_t) then False else all_assignable ps (params_of to_t))
         else if k = Array_K \<and> kind_of to_t = Array_K then
           (length_of to_t < 0 \<or> length_of to_t = len)
           \<and> (case f of Some a \<Rightarrow> (case first_of to_t of Some b \<Rightarrow> assignable a b | None \<Rightarrow> False) | None \<Rightarrow> False)
         else if k = Tensor_K \<and> kind_of to_t = Tensor_K then
           same_first from_t to_t \<and> tensor_satisfies_shape_prefix from_t to_t
         else False)"
| "all_assignable (x # xs) (y # ys) = (assignable x y \<and> all_assignable xs ys)"
| "all_assignable xs ys = True"

definition is_foreign_tensor_array :: "qtype \<Rightarrow> bool" where
  "is_foreign_tensor_array t \<longleftrightarrow>
     kind_of t = Array_K \<and> length_of t < 0
     \<and> (case first_of t of
          Some e \<Rightarrow> kind_of e = Tensor_K \<and> first_of e \<noteq> None \<and> length_of e < 0 \<and> shape_key e = []
        | None \<Rightarrow> False)"

end
