(* ===== verification/Type_Layout.thy ===== *)
theory Type_Layout
  imports Type_Rules
begin

text \<open>
  The memory layout of values and the assignability of types (\<open>Types\<close>): the elements of a tuple are
  aligned, ordered and disjoint within the tuple's bytes, and assignability resolves the case of a
  union without ambiguity and never contradicts what is known of a shape.
\<close>

section \<open>Alignment\<close>

definition power_of_two_up_to_8 :: "nat set" where
  "power_of_two_up_to_8 = {1, 2, 4, 8}"

lemma pow8_dvd: "a \<in> power_of_two_up_to_8 \<Longrightarrow> b \<in> power_of_two_up_to_8 \<Longrightarrow> a \<le> b \<Longrightarrow> a dvd b"
  by (auto simp: power_of_two_up_to_8_def)

lemma foldl_max:
  "a \<in> power_of_two_up_to_8 \<Longrightarrow> set xs \<subseteq> power_of_two_up_to_8 \<Longrightarrow>
    foldl max a xs \<in> power_of_two_up_to_8 \<and> a \<le> foldl max a xs \<and> (\<forall>x\<in>set xs. x \<le> foldl max a xs)"
proof (induction xs arbitrary: a)
  case (Cons x xs)
  have "max a x \<in> power_of_two_up_to_8" using Cons.prems by (auto simp: max_def)
  then show ?case using Cons.IH [of "max a x"] Cons.prems by auto
qed simp

lemma numeric_alignment:
  "list_all (\<lambda>n. width n = 0 \<or> (min 8 (nat (width n) div (if family n = Complex_Family then 16 else 8)) \<in> {1, 2, 4, 8}
     \<and> min 8 (nat (width n) div (if family n = Complex_Family then 16 else 8)) dvd nat (width n) div 8)) numeric_kinds"
  by (simp add: numeric_kinds_def row_def)

lemma numeric_kind_info_row: "numeric_kind_info k = Some n \<Longrightarrow> n \<in> set numeric_kinds"
  by (auto simp: numeric_kind_info_def find_Some_iff)

lemma numeric_row_alignment:
  assumes "numeric_kind_info k = Some n" "width n \<noteq> 0"
  shows "min 8 (nat (width n) div (if family n = Complex_Family then 16 else 8)) \<in> {1, 2, 4, 8}"
    and "min 8 (nat (width n) div (if family n = Complex_Family then 16 else 8)) dvd nat (width n) div 8"
  using numeric_alignment numeric_kind_info_row [OF assms(1)] assms(2) unfolding list_all_iff by blast+

lemma alignment_pow8: "runtime_storage_alignment t \<in> power_of_two_up_to_8"
proof (induction t rule: runtime_storage_alignment.induct)
  case (1 k f cs ps len sp kp sk cn un ns)
  show ?case
  proof (cases "k = Tuple_K")
    case True
    then show ?thesis using 1 foldl_max [of 1 "map runtime_storage_alignment ps"]
      by (auto simp: power_of_two_up_to_8_def)
  next
    case False
    show ?thesis
    proof (cases "numeric_kind_info k")
      case (Some n)
      then show ?thesis using False numeric_row_alignment(1) [OF Some]
        by (cases "width n = 0") (simp_all add: power_of_two_up_to_8_def)
    qed (use False in \<open>simp add: power_of_two_up_to_8_def\<close>)
  qed
qed

lemma alignment_pos [simp]: "0 < runtime_storage_alignment t"
  using alignment_pow8 [of t] by (auto simp: power_of_two_up_to_8_def)

lemma tuple_alignment:
  assumes "kind_of t = Tuple_K" "p \<in> set (params_of t)"
  shows "runtime_storage_alignment p dvd runtime_storage_alignment t"
proof (cases t)
  case (Type k f cs ps len sp kp sk cn un ns)
  then have "runtime_storage_alignment p \<le> runtime_storage_alignment t"
    using assms foldl_max [of 1 "map runtime_storage_alignment ps"] alignment_pow8
    by (auto simp: power_of_two_up_to_8_def)
  then show ?thesis using pow8_dvd alignment_pow8 by blast
qed

lemma round_up: "0 < a \<Longrightarrow> n \<le> (n + a - 1) div a * a \<and> a dvd (n + a - 1) div a * a \<and> (n + a - 1) div a * a < n + a" for n a :: nat
proof -
  assume a: "0 < a"
  define x where "x = n + a - 1"
  have "x div a * a + x mod a = x" "x mod a < a" "x + 1 = n + a" using a by (simp_all add: x_def)
  then have "n \<le> x div a * a" "x div a * a < n + a" by linarith+
  then show ?thesis by (simp add: x_def)
qed

section \<open>Tuple layout\<close>

lemma offset_loop_start: "\<forall>(a, n)\<in>set es. 0 < a \<Longrightarrow> o' \<le> tuple_offset_loop es i o'"
proof (induction es i o' rule: tuple_offset_loop.induct)
  case (1 a n es i o')
  have r: "o' \<le> (o' + a - 1) div a * a" using round_up [of a o'] 1(2) by auto
  show ?case
  proof (cases "i = 0")
    case True
    then show ?thesis using r by simp
  next
    case False
    then have "(o' + a - 1) div a * a + n \<le> tuple_offset_loop es (i - 1) ((o' + a - 1) div a * a + n)" using 1 by auto
    then show ?thesis using False r by (simp add: Let_def)
  qed
qed simp

lemma offset_loop_aligned:
  "\<forall>(a, n)\<in>set es. 0 < a \<Longrightarrow> i < length es \<Longrightarrow> fst (es ! i) dvd tuple_offset_loop es i o'"
proof (induction es i o' rule: tuple_offset_loop.induct)
  case (1 a n es i o')
  then show ?case using round_up [of a o'] by (cases i) (auto simp: Let_def)
qed simp

lemma offset_loop_disjoint:
  "\<forall>(a, n)\<in>set es. 0 < a \<Longrightarrow> i < j \<Longrightarrow> j < length es \<Longrightarrow>
    tuple_offset_loop es i o' + snd (es ! i) \<le> tuple_offset_loop es j o'"
proof (induction es i o' arbitrary: j rule: tuple_offset_loop.induct)
  case (1 a n es i o')
  obtain j' where j: "j = Suc j'" using 1(3) by (cases j) auto
  show ?case
  proof (cases i)
    case 0
    then show ?thesis using j 1(2) offset_loop_start [of es "(o' + a - 1) div a * a + n" j'] by (auto simp: Let_def)
  next
    case (Suc i')
    then show ?thesis using 1 j by (auto simp: Let_def)
  qed
qed simp

lemma alignment_dvd_bytes: "runtime_storage_alignment u dvd runtime_storage_bytes u"
proof (cases u)
  case (Type k f cs ps len sp kp sk cn un ns)
  show ?thesis
  proof (cases "k = Tuple_K")
    case True
    have "ps \<noteq> [] \<Longrightarrow> runtime_storage_alignment u dvd runtime_storage_bytes u"
      unfolding Type using True round_up [OF alignment_pos [of "Type Tuple_K f cs ps len sp kp sk cn un ns"]]
      by (simp only: runtime_storage_bytes.simps Let_def if_True if_False refl)
    then show ?thesis using True Type by (cases "ps = []") simp_all
  next
    case False
    show ?thesis
    proof (cases "numeric_kind_info k")
      case (Some n)
      then show ?thesis using False numeric_row_alignment(2) [OF Some] by (cases "width n = 0") (simp_all add: Type)
    qed (use False in \<open>simp add: Type\<close>)
  qed
qed

text \<open>C17: A tuple's layout is sound: every element, the last one and that of a tuple of one included,
  starts at a multiple of its alignment and behind all earlier elements, and lies inside the tuple's
  bytes; the alignment of the tuple is a multiple of that of every element, and the size of every type
  is a multiple of its alignment, so consecutive tuples stay aligned.\<close>

theorem tuple_layout_sound:
  assumes "kind_of t = Tuple_K" "j < length (params_of t)"
  shows "runtime_storage_alignment (params_of t ! j) dvd tuple_element_offset t j
    \<and> (\<forall>i<j. tuple_element_offset t i + runtime_storage_bytes (params_of t ! i) \<le> tuple_element_offset t j)
    \<and> tuple_element_offset t j + runtime_storage_bytes (params_of t ! j) \<le> runtime_storage_bytes t
    \<and> runtime_storage_alignment (params_of t ! j) dvd runtime_storage_alignment t
    \<and> runtime_storage_alignment u dvd runtime_storage_bytes u"
proof -
  define es where "es = map (\<lambda>p. (runtime_storage_alignment p, runtime_storage_bytes p)) (params_of t)"
  have es: "\<forall>(a, n)\<in>set es. 0 < a" "length es = length (params_of t)" by (auto simp: es_def)
  have off: "tuple_element_offset t m = tuple_offset_loop es m 0" for m by (simp add: tuple_element_offset_def es_def)
  have bytes: "tuple_offset_loop es (length es - 1) 0 + snd (last es) \<le> runtime_storage_bytes t"
  proof (cases t)
    case (Type k f cs ps len sp kp sk cn un ns)
    then have "ps \<noteq> []" "k = Tuple_K" using assms by auto
    then show ?thesis
      using round_up [OF alignment_pos [of t], of "tuple_offset_loop es (length es - 1) 0 + snd (last es)"]
      by (simp add: Type es_def Let_def del: runtime_storage_alignment.simps)
  qed
  have "tuple_element_offset t j + runtime_storage_bytes (params_of t ! j) \<le> tuple_offset_loop es (length es - 1) 0 + snd (last es)"
  proof (cases "j = length es - 1")
    case True
    have "last es = es ! j" using True assms es by (metis last_conv_nth length_0_conv not_less_zero)
    then show ?thesis using True assms by (simp add: off es_def)
  next
    case False
    then have "tuple_offset_loop es j 0 + snd (es ! j) \<le> tuple_offset_loop es (length es - 1) 0"
      using offset_loop_disjoint [OF es(1), of j "length es - 1" 0] assms es(2) by linarith
    moreover have "snd (es ! j) = runtime_storage_bytes (params_of t ! j)" using assms by (simp add: es_def)
    ultimately show ?thesis unfolding off by linarith
  qed
  moreover have "runtime_storage_alignment (params_of t ! j) dvd tuple_element_offset t j"
    using offset_loop_aligned [OF es(1), of j 0] assms es by (simp add: off) (simp add: es_def)
  moreover have "\<forall>i<j. tuple_element_offset t i + runtime_storage_bytes (params_of t ! i) \<le> tuple_element_offset t j"
    using offset_loop_disjoint [OF es(1), of _ j 0] assms es by (simp add: off) (simp add: es_def)
  moreover have "runtime_storage_alignment (params_of t ! j) dvd runtime_storage_alignment t"
    using tuple_alignment [OF assms(1)] assms(2) by simp
  ultimately show ?thesis using bytes alignment_dvd_bytes by auto
qed

definition sample_tuple :: qtype where
  "sample_tuple = tuple_type [simple Bool_K, simple Com32_K, simple Nat16_K]"

theorem tuple_layout_sound_witness:
  "runtime_storage_alignment (simple Nat16_K) dvd tuple_element_offset sample_tuple 2
    \<and> tuple_element_offset sample_tuple 1 + runtime_storage_bytes (simple Com32_K) \<le> tuple_element_offset sample_tuple 2"
proof -
  have "kind_of sample_tuple = Tuple_K" "2 < length (params_of sample_tuple)"
    and p: "params_of sample_tuple ! 1 = simple Com32_K" "params_of sample_tuple ! 2 = simple Nat16_K"
    by (simp_all add: sample_tuple_def tuple_type_def)
  note sound = tuple_layout_sound [OF this(1,2)]
  have "(1 :: nat) < 2" by simp
  then show ?thesis using sound p by metis
qed

section \<open>Assignability\<close>

lemma find_index_Some:
  "find_index P xs = Some i \<longleftrightarrow> i < length xs \<and> P (xs ! i) \<and> (\<forall>j<i. \<not> P (xs ! j))"
proof (induction xs arbitrary: i)
  case (Cons x xs)
  show ?case
  proof (cases i)
    case (Suc j)
    then show ?thesis using Cons [of j] by (auto simp: less_Suc_eq_0_disj)
  qed auto
qed simp

lemma find_index_None: "find_index P xs = None \<longleftrightarrow> (\<forall>x\<in>set xs. \<not> P x)"
  by (induction xs) auto

lemma compatible_loop_none: "\<forall>c\<in>set cs. \<not> P c \<Longrightarrow> compatible_loop P cs i m = m"
  by (induction P cs i m rule: compatible_loop.induct) auto

lemma compatible_loop_matched: "0 \<le> m \<Longrightarrow> compatible_loop P cs i m = (if \<exists>c\<in>set cs. P c then - 1 else m)"
  by (induction P cs i m rule: compatible_loop.induct) auto

lemma compatible_loop_unique:
  "compatible_loop P cs i (- 1) = int n \<Longrightarrow>
    i \<le> n \<and> n - i < length cs \<and> (\<forall>j<length cs. P (cs ! j) \<longleftrightarrow> j = n - i)"
proof (induction P cs i "- 1 :: int" rule: compatible_loop.induct)
  case (2 P c cs i)
  show ?case
  proof (cases "P c")
    case True
    then have "compatible_loop P cs (i + 1) (int i) = int n" using 2(3) by simp
    then have "\<not> (\<exists>c\<in>set cs. P c)" "n = i" by (auto simp: compatible_loop_matched split: if_splits)
    then show ?thesis using True by (auto simp: nth_Cons split: nat.split)
  next
    case False
    then have "i + 1 \<le> n \<and> n - (i + 1) < length cs \<and> (\<forall>j<length cs. P (cs ! j) \<longleftrightarrow> j = n - (i + 1))"
      using 2 by simp
    then show ?thesis using False by (auto simp: nth_Cons split: nat.split)
  qed
qed simp

text \<open>
  The relation the checker decides, rule by rule. A union takes a type as one of its cases: an equal
  one, or else the only one that can hold the type with its shape erased; a tensor fits a tensor type
  of the same element type when nothing known of its rank and extents contradicts the shape required.
\<close>

definition shape_fits :: "qtype \<Rightarrow> qtype \<Rightarrow> bool" where
  "shape_fits t u \<longleftrightarrow> same_first t u
     \<and> (shape_prefix u \<noteq> [] \<longrightarrow> length_of t \<ge> 0 \<longrightarrow> length_of t = int (length (shape_prefix u)))
     \<and> (\<forall>axis<length (shape_prefix u). \<forall>n. shape_prefix u ! axis \<ge> 0 \<and> tensor_known_extent t axis = Some n
          \<longrightarrow> n = shape_prefix u ! axis)"

definition holds_erased :: "qtype \<Rightarrow> qtype \<Rightarrow> bool" where
  "holds_erased t u \<longleftrightarrow> type_eq t u \<or> kind_of t = Tensor_K \<and> kind_of u = Tensor_K \<and> shape_fits t u"

definition takes_as :: "qtype \<Rightarrow> qtype \<Rightarrow> nat \<Rightarrow> bool" where
  "takes_as u t i \<longleftrightarrow> i < length (cases_of u)
     \<and> (if \<exists>c\<in>set (cases_of u). type_eq c t
        then type_eq (cases_of u ! i) t \<and> (\<forall>j<i. \<not> type_eq (cases_of u ! j) t)
        else \<forall>j<length (cases_of u). holds_erased t (cases_of u ! j) \<longleftrightarrow> j = i)"

inductive fits :: "qtype \<Rightarrow> qtype \<Rightarrow> bool" where
  invalid_from: "kind_of t = Invalid_K \<Longrightarrow> fits t u"
| invalid_to: "kind_of u = Invalid_K \<Longrightarrow> fits t u"
| same: "type_eq t u \<Longrightarrow> fits t u"
| never: "kind_of t = Never_K \<Longrightarrow> fits t u"
| into_union: "kind_of u = Union_K \<Longrightarrow> union_name u = [] \<Longrightarrow> kind_of t \<noteq> Union_K \<Longrightarrow> takes_as u t i \<Longrightarrow> fits t u"
| union_cases: "kind_of t = Union_K \<Longrightarrow> union_name t = [] \<Longrightarrow> kind_of u = Union_K \<Longrightarrow> union_name u = [] \<Longrightarrow>
    \<forall>c\<in>set (cases_of t). \<exists>i. takes_as u c i \<Longrightarrow> fits t u"
| tuples: "kind_of t = Tuple_K \<Longrightarrow> kind_of u = Tuple_K \<Longrightarrow> list_all2 fits (params_of t) (params_of u) \<Longrightarrow> fits t u"
| arrays: "kind_of t = Array_K \<Longrightarrow> kind_of u = Array_K \<Longrightarrow> length_of u < 0 \<or> length_of u = length_of t \<Longrightarrow>
    first_of t = Some a \<Longrightarrow> first_of u = Some b \<Longrightarrow> fits a b \<Longrightarrow> fits t u"
| tensors: "kind_of t = Tensor_K \<Longrightarrow> kind_of u = Tensor_K \<Longrightarrow> shape_fits t u \<Longrightarrow> fits t u"

lemma tensor_satisfies_iff: "same_first t u \<and> tensor_satisfies_shape_prefix t u \<longleftrightarrow> shape_fits t u"
proof -
  have "(case tensor_known_extent t axis of None \<Rightarrow> True | Some extent \<Rightarrow> extent = r)
      \<longleftrightarrow> (\<forall>n. tensor_known_extent t axis = Some n \<longrightarrow> n = r)" for axis r
    by (cases "tensor_known_extent t axis") auto
  then show ?thesis
    unfolding tensor_satisfies_shape_prefix_def shape_fits_def list_all_iff Let_def
    by (auto simp: not_le) (meson atLeastLessThan_iff leD zero_le)+
qed

lemma holds_erased_iff: "representation_erasure_compatible = holds_erased"
  by (intro ext) (auto simp: representation_erasure_compatible_def holds_erased_def tensor_satisfies_iff)

lemma compatible_loop_hit:
  assumes "i < length cs" "\<And>j. j < length cs \<Longrightarrow> P (cs ! j) \<longleftrightarrow> j = i"
  shows "compatible_loop P cs k (- 1) = int (k + i)"
  using assms
proof (induction cs arbitrary: i k)
  case (Cons c cs)
  show ?case
  proof (cases i)
    case 0
    then have "P c" "\<forall>d\<in>set cs. \<not> P d" using Cons.prems(2) [of 0] Cons.prems(2) [of "Suc _"] by (auto simp: in_set_conv_nth)
    then show ?thesis by (simp add: 0 compatible_loop_none)
  next
    case (Suc j)
    have "\<not> P c" using Cons.prems(2) [of 0] Suc by simp
    moreover have "compatible_loop P cs (k + 1) (- 1) = int (k + 1 + j)"
      using Cons.prems(1) Cons.prems(2) [of "Suc _"] Suc by (intro Cons.IH) auto
    ultimately show ?thesis by (simp add: Suc)
  qed
qed simp

text \<open>The index the code computes is that of the case taken, and \<open>- 1\<close> exactly when there is none.\<close>

lemma compatible_case_index_iff: "compatible_case_index u t = int i \<longleftrightarrow> takes_as u t i"
proof (cases "find_index (\<lambda>c. type_eq c t) (cases_of u)")
  case None
  then have none: "\<not> (\<exists>c\<in>set (cases_of u). type_eq c t)" by (simp add: find_index_None)
  have "compatible_case_index u t = compatible_loop (holds_erased t) (cases_of u) 0 (- 1)"
    using None by (simp add: compatible_case_index_def case_index_def holds_erased_iff)
  moreover have "compatible_loop (holds_erased t) (cases_of u) 0 (- 1) = int i
      \<longleftrightarrow> i < length (cases_of u) \<and> (\<forall>j<length (cases_of u). holds_erased t (cases_of u ! j) \<longleftrightarrow> j = i)"
    using compatible_loop_unique [of "holds_erased t" "cases_of u" 0 i]
      compatible_loop_hit [of i "cases_of u" "holds_erased t" 0] by auto
  ultimately show ?thesis using none by (simp add: takes_as_def)
next
  case (Some j)
  then have j: "j < length (cases_of u)" "type_eq (cases_of u ! j) t" "\<forall>k<j. \<not> type_eq (cases_of u ! k) t"
    by (auto simp: find_index_Some)
  then have "\<exists>c\<in>set (cases_of u). type_eq c t" by (meson nth_mem)
  then have "takes_as u t i \<longleftrightarrow> i = j"
    using j by (auto simp: takes_as_def) (metis linorder_neqE_nat)
  then show ?thesis using Some by (auto simp: compatible_case_index_def case_index_def)
qed

lemma compatible_loop_range: "- 1 \<le> m \<Longrightarrow> - 1 \<le> compatible_loop P cs k m"
  by (induction P cs k m rule: compatible_loop.induct) auto

lemma takes_some: "compatible_case_index u t \<ge> 0 \<longleftrightarrow> (\<exists>i. takes_as u t i)"
proof
  assume "compatible_case_index u t \<ge> 0"
  then have "compatible_case_index u t = int (nat (compatible_case_index u t))" by simp
  then show "\<exists>i. takes_as u t i" unfolding compatible_case_index_iff by blast
next
  assume "\<exists>i. takes_as u t i"
  then show "compatible_case_index u t \<ge> 0" using compatible_case_index_iff by (metis of_nat_0_le_iff)
qed

lemma takes_none: "compatible_case_index u t = - 1 \<longleftrightarrow> (\<nexists>i. takes_as u t i)"
proof -
  have "- 1 \<le> compatible_case_index u t"
    by (simp add: compatible_case_index_def Let_def compatible_loop_range)
  then have "compatible_case_index u t = - 1 \<longleftrightarrow> \<not> compatible_case_index u t \<ge> 0" by linarith
  then show ?thesis using takes_some by simp
qed

lemma assignable_iff: "assignable t u \<longleftrightarrow> fits t u"
  and all_assignable_iff: "length ts = length us \<Longrightarrow> all_assignable ts us \<longleftrightarrow> list_all2 fits ts us"
proof (induction t u and ts us rule: assignable_all_assignable.induct)
  case (1 k f cs ps len sp kp sk cn un ns u)
  define t where "t = Type k f cs ps len sp kp sk cn un ns"
  have t: "kind_of t = k" "first_of t = f" "cases_of t = cs" "params_of t = ps" "length_of t = len" "union_name t = un"
    by (simp_all add: t_def)
  show ?case
  proof (cases "k = Invalid_K \<or> kind_of u = Invalid_K \<or> type_eq t u \<or> k = Never_K")
    case True
    then have "fits t u" using t(1) by (blast intro: fits.intros)
    then show ?thesis using True by (simp add: t_def Let_def del: type_eq.simps)
  next
    case basic: False
    note code = assignable.simps [of k f cs ps len sp kp sk cn un ns u, folded t_def, unfolded Let_def if_not_P [OF basic]]
    have spec: "fits t u \<longleftrightarrow>
        kind_of u = Union_K \<and> union_name u = [] \<and> k \<noteq> Union_K \<and> (\<exists>i. takes_as u t i)
        \<or> k = Union_K \<and> un = [] \<and> kind_of u = Union_K \<and> union_name u = [] \<and> (\<forall>c\<in>set cs. \<exists>i. takes_as u c i)
        \<or> k = Tuple_K \<and> kind_of u = Tuple_K \<and> list_all2 fits ps (params_of u)
        \<or> k = Array_K \<and> kind_of u = Array_K \<and> (length_of u < 0 \<or> length_of u = len)
            \<and> (\<exists>a b. f = Some a \<and> first_of u = Some b \<and> fits a b)
        \<or> k = Tensor_K \<and> kind_of u = Tensor_K \<and> shape_fits t u"
      using basic by (subst fits.simps) (simp add: t)
    show ?thesis
    proof (cases "k = Union_K \<or> kind_of u = Union_K")
      case True
      then show ?thesis unfolding t_def [symmetric] code spec by (auto simp: takes_some list_all_iff)
    next
      case False
      note IH = 1 [folded t_def, OF refl]
      consider "k = Tuple_K" "kind_of u = Tuple_K" | "k = Array_K" "kind_of u = Array_K" | "k = Tensor_K" "kind_of u = Tensor_K"
        | "\<not> (k = Tuple_K \<and> kind_of u = Tuple_K)" "\<not> (k = Array_K \<and> kind_of u = Array_K)" "\<not> (k = Tensor_K \<and> kind_of u = Tensor_K)"
        by blast
      then show ?thesis
      proof cases
        case 1
        then show ?thesis unfolding t_def [symmetric] code spec
          using IH(1) False basic by (auto dest: list_all2_lengthD)
      next
        case 2
        then show ?thesis unfolding t_def [symmetric] code spec
          using IH(2) False basic by (auto split: option.split)
      next
        case 3
        then show ?thesis unfolding t_def [symmetric] code spec
          using tensor_satisfies_iff by simp
      next
        case 4
        then show ?thesis unfolding t_def [symmetric] code spec using False by auto
      qed
    qed
  qed
qed simp_all

lemma takes_as_unique: "takes_as u t i \<Longrightarrow> takes_as u t j \<Longrightarrow> i = j"
  using compatible_case_index_iff by (metis of_nat_eq_iff)

text \<open>C40: Assignability is exactly the relation of its rules: a type goes where an equal type is expected;
  the never type goes anywhere, and a type in error is reported once; an unnamed union takes a type
  that is one of its cases, and another unnamed union when it takes each of its cases, while a named
  union takes only itself; tuples go element by element, arrays by element and length, tensors by
  element type and what is known of their shape; nothing else goes. The case of a union that takes a
  type is unique, and its index is the one the code computes, \<open>- 1\<close> when no case takes it.\<close>

theorem assignable_sound:
  "(assignable t u \<longleftrightarrow> fits t u)
   \<and> (compatible_case_index u t = int i \<longleftrightarrow> takes_as u t i)
   \<and> (compatible_case_index u t = - 1 \<longleftrightarrow> (\<nexists>i. takes_as u t i))
   \<and> (takes_as u t i \<and> takes_as u t j \<longrightarrow> i = j)"
  using assignable_iff compatible_case_index_iff takes_none takes_as_unique by blast

text \<open>A tensor whose second extent is known is no case of a union of two tensor types that allow it both,
  and \<open>bool\<close> is no case of \<open>int | string\<close>.\<close>

theorem assignable_sound_witness:
  "\<not> fits (simple Bool_K) (union_of [simple Int_K, simple String_K])
    \<and> fits (simple Int_K) (union_of [simple Int_K, simple String_K])
    \<and> (\<nexists>i. takes_as (Type Union_K None [tensor_type (simple Real64_K) 2 [4, - 1] [], tensor_type (simple Real64_K) 2 [- 1, 5] []]
          [] (- 1) [] [] [] [] [] []) (tensor_type (simple Real64_K) 2 [4, 5] []) i)"
proof -
  let ?u = "union_of [simple Int_K, simple String_K]"
  let ?v = "Type Union_K None [tensor_type (simple Real64_K) 2 [4, - 1] [], tensor_type (simple Real64_K) 2 [- 1, 5] []]
    [] (- 1) [] [] [] [] [] []" and ?t = "tensor_type (simple Real64_K) 2 [4, 5] []"
  have "\<not> assignable (simple Bool_K) ?u" "assignable (simple Int_K) ?u" "compatible_case_index ?u (simple Int_K) = int 0"
    "compatible_case_index ?v ?t = - 1"
    by code_simp+
  then show ?thesis
    using assignable_sound [of "simple Bool_K" ?u] assignable_sound [of "simple Int_K" ?u 0 0] assignable_sound [of ?t ?v]
    by blast
qed

end
