(* ===== verification/Work_Queue.thy ===== *)
theory Work_Queue
  imports Prelude
begin

text \<open>
  The interface of the queue of ready work, as the parallel runtime uses one: entries are pushed at
  the back, an entry is removed by name, a joining thread selects the last entry and a helper the
  first entry its bound admits. The laws speak of the list of entries the queue holds, \<open>holds q xs\<close>;
  what follows from them alone is proved here once.
\<close>

locale work_queue =
  fixes holds :: "'q \<Rightarrow> nat list \<Rightarrow> bool" and bound :: "'q \<Rightarrow> nat \<Rightarrow> u64"
    and push :: "nat \<Rightarrow> 'q \<Rightarrow> 'q" and remove :: "nat \<Rightarrow> 'q \<Rightarrow> 'q"
    and pick :: "'q \<Rightarrow> u64 \<Rightarrow> bool \<Rightarrow> nat option option"
  assumes holds_unique: "holds q xs \<Longrightarrow> holds q ys \<Longrightarrow> xs = ys"
    and holds_distinct: "holds q xs \<Longrightarrow> distinct xs"
    and holds_push: "holds q xs \<Longrightarrow> w \<notin> set xs \<Longrightarrow> holds (push w q) (xs @ [w])"
    and holds_remove: "holds q xs \<Longrightarrow> w \<in> set xs \<Longrightarrow> holds (remove w q) (remove1 w xs)"
    and bound_push: "bound (push w q) = bound q"
    and bound_remove: "bound (remove w q) = bound q"
    and pick_join: "holds q xs \<Longrightarrow> pick q n True = Some (if xs = [] then None else Some (last xs))"
    and pick_help: "holds q xs \<Longrightarrow> pick q n False = Some (find (\<lambda>w. n < bound q w) xs)"
begin

text \<open>Selection always returns, and what it returns is an entry of the queue.\<close>

lemma pick_total: "holds q xs \<Longrightarrow> \<exists>r. pick q n j = Some r"
  by (cases j) (auto simp: pick_join pick_help)

lemma pick_member: "holds q xs \<Longrightarrow> pick q n j = Some (Some w) \<Longrightarrow> w \<in> set xs"
  by (cases j) (auto simp: pick_join pick_help find_Some_iff split: if_splits)

lemma pick_join_none: "holds q xs \<Longrightarrow> pick q n True = Some None \<longleftrightarrow> xs = []"
  by (simp add: pick_join)

lemma pick_help_bound: "holds q xs \<Longrightarrow> pick q n False = Some (Some w) \<Longrightarrow> n < bound q w"
  by (auto simp: pick_help find_Some_iff)

text \<open>Taking the selected entry leaves the others in their order.\<close>

lemma taken:
  assumes "holds q xs" "pick q n j = Some (Some w)"
  shows "holds (remove w q) (remove1 w xs)" "w \<notin> set (remove1 w xs)"
    "set (remove1 w xs) = set xs - {w}"
  using assms holds_remove [OF assms(1) pick_member [OF assms]] holds_distinct [OF assms(1)]
  by auto

text \<open>
  Entries are conserved: when a list of entries not in the queue is pushed, the queue holds them
  behind what it held, in their order.
\<close>

lemma holds_push_all:
  "holds q xs \<Longrightarrow> distinct ws \<Longrightarrow> set ws \<inter> set xs = {} \<Longrightarrow> holds (foldl (\<lambda>q w. push w q) q ws) (xs @ ws)"
proof (induction ws arbitrary: q xs)
  case (Cons w ws)
  then have "holds (foldl (\<lambda>q w. push w q) (push w q) ws) ((xs @ [w]) @ ws)"
    by (intro Cons.IH holds_push) auto
  then show ?case
    by simp
qed simp

end

end
