(* ===== verification/Ready_Queue.thy ===== *)
theory Ready_Queue
  imports Work_Queue
begin

text \<open>
  The queue component of the worker pool (\<open>src/ready_work.hpp\<close>): an intrusive doubly linked list of
  work entries. An entry is a number, its pointers are options of numbers, and the entries' memory is
  the function \<open>works\<close>. The mutex makes every operation one step; the wake-ups of the condition
  variable are not state of the queue and are left to the component that waits. The list the queue
  holds is the relation \<open>holds\<close>, and the laws of the interface are proved for it.
\<close>

section \<open>State and operations\<close>

record ready_work =
  helper_bound :: u64
  work_previous :: "nat option"
  work_next :: "nat option"
  queued :: bool

record ready_queue =
  works :: "nat \<Rightarrow> ready_work"
  first_work :: "nat option"
  last_work :: "nat option"

definition set_work :: "nat \<Rightarrow> (ready_work \<Rightarrow> ready_work) \<Rightarrow> ready_queue \<Rightarrow> ready_queue" where
  "set_work w f q = q\<lparr>works := (works q)(w := f (works q w))\<rparr>"

definition queue_push :: "nat \<Rightarrow> ready_queue \<Rightarrow> ready_queue" where
  "queue_push w q =
    (let q = set_work w (\<lambda>r. r\<lparr>work_previous := last_work q, work_next := None, queued := True\<rparr>) q;
         q = (case last_work q of
                Some l \<Rightarrow> set_work l (\<lambda>r. r\<lparr>work_next := Some w\<rparr>) q
              | None \<Rightarrow> q\<lparr>first_work := Some w\<rparr>)
     in q\<lparr>last_work := Some w\<rparr>)"

definition queue_unlink :: "nat \<Rightarrow> ready_queue \<Rightarrow> ready_queue" where
  "queue_unlink w q =
    (let prev = work_previous (works q w); nxt = work_next (works q w);
         q = (case prev of
                Some p \<Rightarrow> set_work p (\<lambda>r. r\<lparr>work_next := nxt\<rparr>) q
              | None \<Rightarrow> q\<lparr>first_work := nxt\<rparr>);
         q = (case nxt of
                Some n \<Rightarrow> set_work n (\<lambda>r. r\<lparr>work_previous := prev\<rparr>) q
              | None \<Rightarrow> q\<lparr>last_work := prev\<rparr>)
     in set_work w (\<lambda>r. r\<lparr>queued := False, work_previous := None, work_next := None\<rparr>) q)"

text \<open>The walk of a helper follows the \<open>next\<close> pointers; on a damaged list it need not end.\<close>

partial_function (option) select_loop :: "ready_queue \<Rightarrow> u64 \<Rightarrow> nat option \<Rightarrow> nat option option" where
  "select_loop q helper work =
    (case work of
       None \<Rightarrow> Some None
     | Some w \<Rightarrow>
         if helper_bound (works q w) \<le> helper
         then select_loop q helper (work_next (works q w)) else Some (Some w))"

definition queue_select :: "ready_queue \<Rightarrow> u64 \<Rightarrow> bool \<Rightarrow> nat option option" where
  "queue_select q helper joining =
    (if joining then Some (last_work q) else select_loop q helper (first_work q))"

definition has_ready :: "ready_queue \<Rightarrow> u64 \<Rightarrow> bool option" where
  "has_ready q helper = map_option (\<lambda>w. w \<noteq> None) (queue_select q helper False)"

definition queue_cancel :: "nat \<Rightarrow> ready_queue \<Rightarrow> bool \<times> ready_queue" where
  "queue_cancel w q = (if \<not> queued (works q w) then (False, q) else (True, queue_unlink w q))"

text \<open>\<open>help\<close> under its lock: the entry to invoke, taken off the list, or nothing.\<close>

definition queue_help :: "ready_queue \<Rightarrow> u64 \<Rightarrow> bool \<Rightarrow> (nat option \<times> ready_queue) option" where
  "queue_help q helper joining =
    (case queue_select q helper joining of
       None \<Rightarrow> None
     | Some None \<Rightarrow> Some (None, q)
     | Some (Some w) \<Rightarrow> Some (Some w, queue_unlink w q))"

definition empty_queue :: "(nat \<Rightarrow> u64) \<Rightarrow> ready_queue" where
  "empty_queue bounds =
    \<lparr>works = (\<lambda>w. \<lparr>helper_bound = bounds w, work_previous = None, work_next = None, queued = False\<rparr>),
     first_work = None, last_work = None\<rparr>"

section \<open>The list a queue holds\<close>

definition head_or :: "nat list \<Rightarrow> nat option \<Rightarrow> nat option" where
  "head_or xs s = (if xs = [] then s else Some (hd xs))"

definition last_or :: "nat list \<Rightarrow> nat option \<Rightarrow> nat option" where
  "last_or xs p = (if xs = [] then p else Some (last xs))"

lemma head_or_simps [simp]:
  "head_or [] s = s" "head_or (x # xs) s = Some x"
  "head_or (xs @ ys) s = head_or xs (head_or ys s)"
  by (auto simp: head_or_def)

lemma last_or_simps [simp]:
  "last_or [] p = p" "last_or (x # xs) p = last_or xs (Some x)"
  "last_or (xs @ ys) p = last_or ys (last_or xs p)"
  by (auto simp: last_or_def)

text \<open>\<open>linked m p xs s\<close>: the entries \<open>xs\<close> are linked in this order between \<open>p\<close> and \<open>s\<close>.\<close>

fun linked :: "(nat \<Rightarrow> ready_work) \<Rightarrow> nat option \<Rightarrow> nat list \<Rightarrow> nat option \<Rightarrow> bool" where
  "linked m p [] s = True"
| "linked m p (x # xs) s \<longleftrightarrow>
     work_previous (m x) = p \<and> work_next (m x) = head_or xs s \<and> linked m (Some x) xs s"

definition holds :: "ready_queue \<Rightarrow> nat list \<Rightarrow> bool" where
  "holds q xs \<longleftrightarrow> distinct xs \<and> first_work q = head_or xs None \<and> last_work q = last_or xs None \<and>
    linked (works q) None xs None \<and> (\<forall>w. queued (works q w) \<longleftrightarrow> w \<in> set xs)"

lemma linked_append [simp]:
  "linked m p (xs @ ys) s \<longleftrightarrow> linked m p xs (head_or ys s) \<and> linked m (last_or xs p) ys s"
  by (induction xs arbitrary: p) auto

lemma linked_cong:
  "(\<And>x. x \<in> set xs \<Longrightarrow> work_previous (m x) = work_previous (n x) \<and> work_next (m x) = work_next (n x)) \<Longrightarrow>
   linked m p xs s = linked n p xs s"
  by (induction xs arbitrary: p) auto

lemma linked_untouched: "w \<notin> set xs \<Longrightarrow> linked (m(w := r)) p xs s = linked m p xs s"
  by (rule linked_cong) auto

lemma linked_set_next:
  "linked m p (xs @ [x]) s \<Longrightarrow> x \<notin> set xs \<Longrightarrow> linked (m(x := (m x)\<lparr>work_next := t\<rparr>)) p (xs @ [x]) t"
  by (induction xs arbitrary: p) (auto simp: head_or_def hd_append split: if_splits)

lemma linked_set_previous:
  "linked m p (x # xs) s \<Longrightarrow> x \<notin> set xs \<Longrightarrow> linked (m(x := (m x)\<lparr>work_previous := t\<rparr>)) t (x # xs) s"
  by (subst linked.simps, subst linked_cong [where n = m]) auto

lemma bound_empty [simp]: "helper_bound (works (empty_queue bounds) w) = bounds w"
  by (simp add: empty_queue_def)

lemma holds_empty: "holds (empty_queue bounds) []"
  by (simp add: holds_def empty_queue_def)

lemma set_work_simps [simp]:
  "works (set_work w f q) = (works q)(w := f (works q w))"
  "first_work (set_work w f q) = first_work q" "last_work (set_work w f q) = last_work q"
  by (simp_all add: set_work_def)

lemma linked_unique:
  "linked m p xs None \<Longrightarrow> linked m r ys None \<Longrightarrow> head_or xs None = head_or ys None \<Longrightarrow> xs = ys"
proof (induction xs arbitrary: ys p r)
  case Nil
  then show ?case by (cases ys) auto
next
  case (Cons x xs)
  then show ?case by (cases ys) auto
qed

lemma queue_holds_unique: "holds q xs \<Longrightarrow> holds q ys \<Longrightarrow> xs = ys"
  unfolding holds_def using linked_unique by metis

lemma queue_holds_push:
  assumes h: "holds q xs" and w: "w \<notin> set xs"
  shows "holds (queue_push w q) (xs @ [w])"
proof (cases xs rule: rev_cases)
  case Nil
  with h w show ?thesis
    by (auto simp: holds_def queue_push_def Let_def)
next
  case (snoc ys l)
  let ?m = "(works q)(w := (works q w)\<lparr>work_previous := Some l, work_next := None, queued := True\<rparr>)"
  have l: "last_work q = Some l" "l \<noteq> w" "l \<notin> set ys" "w \<notin> set ys"
    using h w snoc by (auto simp: holds_def)
  have "linked (works q) None (ys @ [l]) None"
    using h snoc by (simp add: holds_def)
  then have "linked ?m None (ys @ [l]) None"
    using l by (subst linked_cong [where n = "works q"]) auto
  then have "linked (?m(l := (?m l)\<lparr>work_next := Some w\<rparr>)) None (ys @ [l]) (Some w)"
    using l by (intro linked_set_next)
  moreover have "works (queue_push w q) = ?m(l := (?m l)\<lparr>work_next := Some w\<rparr>)"
    using l by (simp add: queue_push_def Let_def)
  moreover have "first_work (queue_push w q) = first_work q" "last_work (queue_push w q) = Some w"
    using l by (simp_all add: queue_push_def Let_def)
  ultimately show ?thesis
    using h w snoc l by (auto simp: holds_def)
qed

lemma unlink_links:
  assumes "linked m p (xs @ w # ys) s" "distinct (xs @ w # ys)"
  defines "m1 \<equiv> (case last_or xs None of None \<Rightarrow> m | Some u \<Rightarrow> m(u := (m u)\<lparr>work_next := head_or ys s\<rparr>))"
  shows "linked m1 p xs (head_or ys s) \<and> linked m1 (Some w) ys s"
proof (cases xs rule: rev_cases)
  case Nil
  then show ?thesis using assms by simp
next
  case (snoc zs u)
  have m1: "m1 = m(u := (m u)\<lparr>work_next := head_or ys s\<rparr>)"
    by (simp add: m1_def snoc)
  have "linked m p (zs @ [u]) (Some w)" "linked m (Some w) ys s"
    using assms(1) snoc by auto
  then show ?thesis
    unfolding m1 snoc using assms(2) snoc linked_set_next [of m p zs u "Some w" "head_or ys s"]
    by (subst linked_cong [where xs = ys and n = m]) auto
qed

lemma unlink_back_links:
  fixes r :: "nat option"
  assumes "linked m (Some w) ys s" "linked m p xs t" "distinct (xs @ ys)"
  defines "m1 \<equiv> (case head_or ys None of None \<Rightarrow> m | Some u \<Rightarrow> m(u := (m u)\<lparr>work_previous := r\<rparr>))"
  shows "linked m1 r ys s \<and> linked m1 p xs t"
proof (cases ys)
  case Nil
  then show ?thesis using assms by simp
next
  case (Cons u zs)
  have m1: "m1 = m(u := (m u)\<lparr>work_previous := r\<rparr>)"
    by (simp add: m1_def Cons)
  show ?thesis
    unfolding m1 Cons using assms Cons linked_set_previous [of m "Some w" u zs s r]
    by (subst linked_cong [where xs = xs and n = m]) auto
qed

lemma queue_holds_unlink:
  assumes h: "holds q (xs @ w # ys)"
  shows "holds (queue_unlink w q) (xs @ ys)"
proof -
  let ?p = "last_or xs None" and ?n = "head_or ys None"
  define m1 where "m1 = (case ?p of None \<Rightarrow> works q | Some u \<Rightarrow> (works q)(u := (works q u)\<lparr>work_next := ?n\<rparr>))"
  define m2 where "m2 = (case ?n of None \<Rightarrow> m1 | Some u \<Rightarrow> m1(u := (m1 u)\<lparr>work_previous := ?p\<rparr>))"
  have d: "distinct (xs @ w # ys)" and lw: "linked (works q) None (xs @ w # ys) None"
    using h by (auto simp: holds_def)
  have pn: "work_previous (works q w) = ?p" "work_next (works q w) = ?n"
    using lw by auto
  have l1: "linked m1 None xs ?n" "linked m1 (Some w) ys None"
    using unlink_links [OF lw d] unfolding m1_def by auto
  have l2: "linked m2 ?p ys None" "linked m2 None xs ?n"
    using unlink_back_links [OF l1(2) l1(1)] d unfolding m2_def by auto
  have works: "works (queue_unlink w q) =
      m2(w := (m2 w)\<lparr>queued := False, work_previous := None, work_next := None\<rparr>)"
    unfolding queue_unlink_def Let_def pn m2_def m1_def by (simp split: option.split)
  have ends: "first_work (queue_unlink w q) = head_or (xs @ ys) None"
    "last_work (queue_unlink w q) = last_or (xs @ ys) None"
    using h unfolding queue_unlink_def Let_def pn holds_def
    by (auto simp: head_or_def last_or_def split: option.split if_splits)
  have q: "queued (m2 v) \<longleftrightarrow> queued (works q v)" for v
    by (simp add: m2_def m1_def split: option.split)
  have "linked (works (queue_unlink w q)) None (xs @ ys) None"
    using l2 d unfolding works by (simp add: linked_untouched)
  then show ?thesis
    using h d ends q by (auto simp: holds_def works)
qed

lemma queue_holds_remove:
  assumes "holds q xs" "w \<in> set xs"
  shows "holds (queue_unlink w q) (remove1 w xs)"
proof -
  obtain ys zs where xs: "xs = ys @ w # zs" "w \<notin> set ys"
    using split_list_first [OF assms(2)] by blast
  show ?thesis
    using queue_holds_unlink [of q ys w zs] assms xs by (simp add: remove1_append)
qed

lemma bound_simps [simp]:
  "helper_bound (works (queue_push v q) w) = helper_bound (works q w)"
  "helper_bound (works (queue_unlink v q) w) = helper_bound (works q w)"
  by (simp_all add: queue_push_def queue_unlink_def Let_def split: option.split)

section \<open>Selection and the interface\<close>

lemma select_loop_linked:
  "linked (works q) p xs None \<Longrightarrow>
   select_loop q n (head_or xs None) = Some (find (\<lambda>w. n < helper_bound (works q w)) xs)"
proof (induction xs arbitrary: p)
  case Nil
  show ?case by (simp add: select_loop.simps)
next
  case (Cons x xs)
  then show ?case by (subst select_loop.simps) (auto simp: not_less)
qed

lemma queue_select_join: "holds q xs \<Longrightarrow> queue_select q n True = Some (if xs = [] then None else Some (last xs))"
  by (simp add: queue_select_def holds_def last_or_def)

lemma queue_select_help:
  "holds q xs \<Longrightarrow> queue_select q n False = Some (find (\<lambda>w. n < helper_bound (works q w)) xs)"
  unfolding queue_select_def holds_def using select_loop_linked by auto

lemma find_first: "(\<forall>y \<in> set ys. \<not> P y) \<Longrightarrow> P v \<Longrightarrow> find P (ys @ v # zs) = Some v"
  by (induction ys) auto

interpretation rq: work_queue holds "\<lambda>q w. helper_bound (works q w)" queue_push queue_unlink queue_select
proof unfold_locales
  show "xs = ys" if "holds q xs" "holds q ys" for q xs ys
    using that by (rule queue_holds_unique)
  show "distinct xs" if "holds q xs" for q xs
    using that by (simp add: holds_def)
qed (simp_all add: queue_holds_push queue_holds_remove queue_select_join queue_select_help)

lemma queue_help_holds:
  assumes "holds q xs" "queue_help q n j = Some (Some w, q')"
  shows "w \<in> set xs" "holds q' (remove1 w xs)" "j \<or> n < helper_bound (works q w)"
    "helper_bound (works q' v) = helper_bound (works q v)"
  using assms rq.pick_member [OF assms(1), of n j w] rq.taken(1) [OF assms(1), of n j w]
    rq.pick_help_bound [OF assms(1), of n w]
  by (cases j; auto simp: queue_help_def split: option.splits)+

text \<open>
  C13: the linked list behaves as the sequence it stands for. On a queue that holds \<open>xs\<close>, pushing a new
  entry appends it; cancelling an entry reports whether it was queued and removes exactly it, keeping
  the order of the others; a joining thread takes the last entry and a helper the first entry whose
  bound exceeds the helper's number, the walk always ends, and the taken entry is off the list.
\<close>

theorem ready_queue_refines_list:
  assumes "holds q xs"
  shows "(w \<notin> set xs \<longrightarrow> holds (queue_push w q) (xs @ [w])) \<and>
    (\<exists>q'. queue_cancel w q = (w \<in> set xs, q') \<and> holds q' (remove1 w xs)) \<and>
    queue_help q n True =
      Some (if xs = [] then (None, q) else (Some (last xs), queue_unlink (last xs) q)) \<and>
    (xs \<noteq> [] \<longrightarrow> holds (queue_unlink (last xs) q) (butlast xs)) \<and>
    has_ready q n = Some (\<exists>w \<in> set xs. n < helper_bound (works q w)) \<and>
    (\<forall>ys v zs. xs = ys @ v # zs \<and> n < helper_bound (works q v) \<and>
        (\<forall>y \<in> set ys. helper_bound (works q y) \<le> n) \<longrightarrow>
      (\<exists>q'. queue_help q n False = Some (Some v, q') \<and> holds q' (ys @ zs)))"
proof (intro conjI impI allI)
  show "\<exists>q'. queue_cancel w q = (w \<in> set xs, q') \<and> holds q' (remove1 w xs)"
    using assms rq.holds_remove [OF assms, of w]
    by (auto simp: queue_cancel_def remove1_idem holds_def [of q])
  show "queue_help q n True =
      Some (if xs = [] then (None, q) else (Some (last xs), queue_unlink (last xs) q))"
    by (simp add: queue_help_def queue_select_join [OF assms])
  show "holds (queue_unlink (last xs) q) (butlast xs)" if "xs \<noteq> []"
    using queue_holds_unlink [of q "butlast xs" "last xs" "[]"] assms that by simp
  show "has_ready q n = Some (\<exists>w \<in> set xs. n < helper_bound (works q w))"
    using find_None_iff [of "\<lambda>w. n < helper_bound (works q w)" xs]
    by (auto simp: has_ready_def queue_select_help [OF assms])
next
  fix ys v zs
  assume a: "xs = ys @ v # zs \<and> n < helper_bound (works q v) \<and> (\<forall>y \<in> set ys. helper_bound (works q y) \<le> n)"
  have "find (\<lambda>w. n < helper_bound (works q w)) (ys @ v # zs) = Some v"
    by (rule find_first) (use a in \<open>auto simp: not_less\<close>)
  then show "\<exists>q'. queue_help q n False = Some (Some v, q') \<and> holds q' (ys @ zs)"
    using a assms queue_holds_unlink by (simp add: queue_help_def queue_select_help [OF assms])
qed (use assms in \<open>simp add: rq.holds_push\<close>)

theorem ready_queue_refines_list_witness:
  "holds (queue_push 1 (queue_push 0 (empty_queue (\<lambda>_. 2)))) [0, 1] \<and>
   has_ready (queue_push 1 (queue_push 0 (empty_queue (\<lambda>_. 2)))) 1 = Some True"
proof -
  have h: "holds (queue_push 1 (queue_push 0 (empty_queue (\<lambda>_. 2)))) [0, 1]"
    using rq.holds_push_all [OF holds_empty, of "[0, 1]" "\<lambda>_. 2"] by simp
  then show ?thesis
    using ready_queue_refines_list [OF h, of 2 1] by auto
qed

end
