(* ===== verification/Node_Dag.thy ===== *)
theory Node_Dag
  imports Ready_Queue
begin

text \<open>
  The scheduler of a block of parallel nodes (\<open>src/node_dag.hpp\<close>): the node table, the state of each
  node, and the critical sections of its threads. A node depends on nodes of smaller index; it runs
  once its predecessors have succeeded and is skipped when one of them did not. The bodies of the
  nodes are generated code and appear only through the status they return. This theory holds the
  state and the critical sections and shows that each keeps the table in order; the threads and their
  interleavings are in \<open>Node_Run\<close>.
\<close>

section \<open>The node table\<close>

datatype node_state = Pending | Ready | Running | Finishing | Succeeded | Failed | Skipped

record node_spec =
  has_body :: bool
  predecessors :: "nat list option"
  predecessor_count :: u32
  worker_safe :: bool
  has_join :: bool

record dag_node =
  remaining :: u32
  blocked :: bool
  node_state :: node_state
  pending_status :: u8
  successors :: "nat list"

record dag =
  specs :: "node_spec list"
  nodes :: "dag_node list"
  queue :: ready_queue
  helpers :: u64
  dag_done :: bool
  local_ready :: bool
  terminal_count :: nat
  result_index :: nat
  result_status :: u8

datatype dag_error = Invalid_Parallel_Node_Table | Invalid_Parallel_Predecessor

text \<open>The entries of the predecessor array that the constructor reads.\<close>

definition preds :: "node_spec \<Rightarrow> nat list" where
  "preds s = (case predecessors s of None \<Rightarrow> [] | Some ps \<Rightarrow> take (unat (predecessor_count s)) ps)"

definition new_node :: dag_node where
  "new_node = \<lparr>remaining = 0, blocked = False, node_state = Pending, pending_status = 0, successors = []\<rparr>"

fun link_predecessors :: "nat \<Rightarrow> nat list \<Rightarrow> dag_node list \<Rightarrow> dag_error + dag_node list" where
  "link_predecessors i [] ns = Inr ns"
| "link_predecessors i (p # ps) ns =
    (if i \<le> p then Inl Invalid_Parallel_Predecessor
     else link_predecessors i ps (ns[p := (ns ! p)\<lparr>successors := successors (ns ! p) @ [i]\<rparr>]))"

fun build_nodes :: "nat \<Rightarrow> node_spec list \<Rightarrow> dag_node list \<Rightarrow> dag_error + dag_node list" where
  "build_nodes i [] ns = Inr ns"
| "build_nodes i (s # ss) ns =
    (if \<not> has_body s \<or> (predecessor_count s \<noteq> 0 \<and> predecessors s = None)
     then Inl Invalid_Parallel_Node_Table
     else bind_r (link_predecessors i (preds s) (ns[i := (ns ! i)\<lparr>remaining := predecessor_count s\<rparr>]))
            (build_nodes (Suc i) ss))"

text \<open>The result of a block starts at the largest 32-bit index, which no node has.\<close>

definition no_index :: nat where
  "no_index = 4294967295"

definition dag_new :: "node_spec list \<Rightarrow> u64 \<Rightarrow> dag_error + dag" where
  "dag_new sp hs =
    bind_r (build_nodes 0 sp (replicate (length sp) new_node))
      (\<lambda>ns. Inr \<lparr>specs = sp, nodes = ns, queue = empty_queue (\<lambda>_. hs), helpers = hs, dag_done = False,
                 local_ready = False, terminal_count = 0, result_index = no_index, result_status = 0\<rparr>)"

section \<open>The critical sections\<close>

fun terminal :: "node_state \<Rightarrow> bool" where
  "terminal Succeeded = True" | "terminal Failed = True" | "terminal Skipped = True"
| "terminal _ = False"

abbreviation state_of :: "dag \<Rightarrow> nat \<Rightarrow> node_state" where
  "state_of d i \<equiv> node_state (nodes d ! i)"

definition worker :: "dag \<Rightarrow> nat \<Rightarrow> bool" where
  "worker d i \<longleftrightarrow> helpers d \<noteq> 0 \<and> worker_safe (specs d ! i)"

definition set_state :: "nat \<Rightarrow> node_state \<Rightarrow> dag \<Rightarrow> dag" where
  "set_state i st d = d\<lparr>nodes := (nodes d)[i := (nodes d ! i)\<lparr>node_state := st\<rparr>]\<rparr>"

definition ready :: "nat \<Rightarrow> dag \<Rightarrow> dag" where
  "ready i d =
    (let d = set_state i Ready d
     in if worker d i then d\<lparr>queue := queue_push i (queue d)\<rparr> else d)"

fun propagate_loop :: "nat list \<Rightarrow> bool \<Rightarrow> dag_node list \<Rightarrow> dag_node list" where
  "propagate_loop [] b ns = ns"
| "propagate_loop (j # js) b ns =
    propagate_loop js b
      (ns[j := (ns ! j)\<lparr>remaining := remaining (ns ! j) - 1, blocked := blocked (ns ! j) \<or> b\<rparr>])"

definition propagate :: "nat \<Rightarrow> bool \<Rightarrow> dag \<Rightarrow> dag" where
  "propagate i b d = d\<lparr>nodes := propagate_loop (successors (nodes d ! i)) b (nodes d)\<rparr>"

text \<open>The first node of the calling thread that has not ended.\<close>

definition first_local :: "dag \<Rightarrow> nat option" where
  "first_local d =
    find (\<lambda>i. \<not> (worker d i \<or> terminal (state_of d i))) [0..<length (nodes d)]"

definition first_finishing :: "dag \<Rightarrow> nat option" where
  "first_finishing d = find (\<lambda>i. state_of d i = Finishing) [0..<length (nodes d)]"

definition local_work :: "dag \<Rightarrow> bool" where
  "local_work d \<longleftrightarrow>
    (if first_finishing d \<noteq> None then True
     else case first_local d of None \<Rightarrow> False | Some i \<Rightarrow> state_of d i = Ready)"

definition refresh_local :: "dag \<Rightarrow> dag" where
  "refresh_local d = d\<lparr>local_ready := local_work d\<rparr>"

text \<open>\<open>run\<close> before its loop: the nodes without predecessors become ready.\<close>

fun start_loop :: "nat list \<Rightarrow> dag \<Rightarrow> dag" where
  "start_loop [] d = d"
| "start_loop (i # is) d = start_loop is (if remaining (nodes d ! i) = 0 then ready i d else d)"

definition start :: "dag \<Rightarrow> dag" where
  "start d = refresh_local (start_loop [0..<length (nodes d)] d)"

datatype choice = Join_Node nat | Local_Node nat | No_Choice

text \<open>The choice of the calling thread in its loop.\<close>

definition choose_node :: "dag \<Rightarrow> choice \<times> dag" where
  "choose_node d =
    (case first_finishing d of
       Some i \<Rightarrow> (Join_Node i, refresh_local (set_state i Running d))
     | None \<Rightarrow>
         (case first_local d of
            None \<Rightarrow> (No_Choice, refresh_local d)
          | Some i \<Rightarrow>
              if state_of d i = Ready then (Local_Node i, refresh_local (set_state i Running d))
              else (No_Choice, refresh_local d)))"

text \<open>A helper leaves the join of a node it has run to the calling thread.\<close>

definition hand_over :: "nat \<Rightarrow> u8 \<Rightarrow> dag \<Rightarrow> dag" where
  "hand_over i status d =
    refresh_local
      (d\<lparr>nodes := (nodes d)[i := (nodes d ! i)\<lparr>pending_status := status, node_state := Finishing\<rparr>]\<rparr>)"

definition skip_node :: "nat \<Rightarrow> dag \<Rightarrow> dag" where
  "skip_node i d =
    propagate i True ((set_state i Skipped d)\<lparr>terminal_count := Suc (terminal_count d)\<rparr>)"

definition scan_node :: "nat \<Rightarrow> dag \<Rightarrow> dag" where
  "scan_node i d =
    (if state_of d i \<noteq> Pending \<or> remaining (nodes d ! i) \<noteq> 0 then d
     else if blocked (nodes d ! i) then skip_node i d
     else ready i d)"

fun finish_scan :: "nat list \<Rightarrow> dag \<Rightarrow> dag" where
  "finish_scan [] d = d"
| "finish_scan (i # is) d = finish_scan is (scan_node i d)"

definition finish_node :: "nat \<Rightarrow> u8 \<Rightarrow> dag \<Rightarrow> dag" where
  "finish_node i status d =
    (let d = (set_state i (if status = 0 then Succeeded else Failed) d)
           \<lparr>terminal_count := Suc (terminal_count d)\<rparr>;
         d = (if status \<noteq> 0 \<and> i < result_index d then d\<lparr>result_index := i, result_status := status\<rparr> else d)
     in propagate i (status \<noteq> 0) d)"

text \<open>\<open>finish\<close> under its lock: the new table, and whether the block is complete.\<close>

definition finish :: "nat \<Rightarrow> u8 \<Rightarrow> dag \<Rightarrow> bool \<times> dag" where
  "finish i status d =
    (let d = finish_node i status d;
         d = refresh_local (finish_scan [Suc i..<length (nodes d)] d)
     in (terminal_count d = length (nodes d), d))"

section \<open>What a table keeps\<close>

text \<open>
  \<open>accounted fs d\<close>: the bookkeeping of the table is right. The inverse adjacency counts each
  predecessor entry once, the counter of a node is the number of its predecessor entries that have
  not ended, a node is blocked when a predecessor failed or was skipped, and a node that has left
  \<open>Pending\<close> did so with the right outcome of its predecessors. \<open>fs\<close> gives the status that a node
  returns when it runs.
\<close>

definition wf_specs :: "node_spec list \<Rightarrow> bool" where
  "wf_specs sp \<longleftrightarrow> length sp < 4294967296 \<and>
    (\<forall>i < length sp. has_body (sp ! i) \<and> (\<forall>p \<in> set (preds (sp ! i)). p < i) \<and>
       length (preds (sp ! i)) = unat (predecessor_count (sp ! i)))"

abbreviation size_of :: "dag \<Rightarrow> nat" where
  "size_of d \<equiv> length (nodes d)"

abbreviation preds_of :: "dag \<Rightarrow> nat \<Rightarrow> nat list" where
  "preds_of d i \<equiv> preds (specs d ! i)"

definition open_preds :: "dag \<Rightarrow> nat \<Rightarrow> nat list" where
  "open_preds d i = filter (\<lambda>p. \<not> terminal (state_of d p)) (preds_of d i)"

definition stopped :: "node_state \<Rightarrow> bool" where
  "stopped st \<longleftrightarrow> st = Failed \<or> st = Skipped"

definition node_ok :: "(nat \<Rightarrow> u8) \<Rightarrow> dag \<Rightarrow> nat \<Rightarrow> node_state \<Rightarrow> bool" where
  "node_ok fs d i st \<longleftrightarrow>
    (case st of
       Pending \<Rightarrow> True
     | Skipped \<Rightarrow> (\<forall>p \<in> set (preds_of d i). terminal (state_of d p)) \<and>
                  (\<exists>p \<in> set (preds_of d i). stopped (state_of d p))
     | _ \<Rightarrow> (\<forall>p \<in> set (preds_of d i). state_of d p = Succeeded) \<and>
            (st = Succeeded \<longrightarrow> fs i = 0) \<and> (st = Failed \<longrightarrow> fs i \<noteq> 0))"

definition table_ok :: "dag \<Rightarrow> bool" where
  "table_ok d \<longleftrightarrow> wf_specs (specs d) \<and> length (specs d) = size_of d \<and>
    (\<forall>p < size_of d. \<forall>j. count_list (successors (nodes d ! p)) j =
       (if j < size_of d then count_list (preds_of d j) p else 0))"

definition accounted :: "(nat \<Rightarrow> u8) \<Rightarrow> dag \<Rightarrow> bool" where
  "accounted fs d \<longleftrightarrow> table_ok d \<and>
    (\<forall>i < size_of d. unat (remaining (nodes d ! i)) = length (open_preds d i)) \<and>
    (\<forall>i < size_of d. blocked (nodes d ! i) \<longleftrightarrow> (\<exists>p \<in> set (preds_of d i). stopped (state_of d p))) \<and>
    (\<forall>i < size_of d. node_ok fs d i (state_of d i)) \<and>
    terminal_count d = card {i. i < size_of d \<and> terminal (state_of d i)}"

lemma accountedD:
  assumes "accounted fs d"
  shows "table_ok d" "wf_specs (specs d)" "length (specs d) = size_of d"
    "i < size_of d \<Longrightarrow> unat (remaining (nodes d ! i)) = length (open_preds d i)"
    "i < size_of d \<Longrightarrow> blocked (nodes d ! i) \<longleftrightarrow> (\<exists>p \<in> set (preds_of d i). stopped (state_of d p))"
    "i < size_of d \<Longrightarrow> node_ok fs d i (state_of d i)"
    "terminal_count d = card {i. i < size_of d \<and> terminal (state_of d i)}"
  using assms by (auto simp: accounted_def table_ok_def)

lemma pred_less: "table_ok d \<Longrightarrow> i < size_of d \<Longrightarrow> p \<in> set (preds_of d i) \<Longrightarrow> p < i"
  by (auto simp: table_ok_def wf_specs_def)

lemma pred_in_table: "table_ok d \<Longrightarrow> i < size_of d \<Longrightarrow> p \<in> set (preds_of d i) \<Longrightarrow> p < size_of d"
  using pred_less by fastforce

lemma nth_list_update_if: "xs[i := x] ! j = (if j = i \<and> i < length xs then x else xs ! j)"
  by (cases "i < length xs") (auto simp: nth_list_update not_less list_update_beyond)

lemma set_state_simps [simp]:
  "specs (set_state i st d) = specs d" "helpers (set_state i st d) = helpers d"
  "queue (set_state i st d) = queue d" "dag_done (set_state i st d) = dag_done d"
  "terminal_count (set_state i st d) = terminal_count d" "size_of (set_state i st d) = size_of d"
  "result_index (set_state i st d) = result_index d" "result_status (set_state i st d) = result_status d"
  by (simp_all add: set_state_def)

lemma set_state_nth [simp]:
  "i < size_of d \<Longrightarrow> state_of (set_state i st d) j = (if j = i then st else state_of d j)"
  "remaining (nodes (set_state i st d) ! j) = remaining (nodes d ! j)"
  "blocked (nodes (set_state i st d) ! j) = blocked (nodes d ! j)"
  "pending_status (nodes (set_state i st d) ! j) = pending_status (nodes d ! j)"
  "successors (nodes (set_state i st d) ! j) = successors (nodes d ! j)"
  by (simp_all add: set_state_def nth_list_update_if)

lemma worker_cong [simp]: "worker (set_state i st d) = worker d"
  by (simp add: worker_def fun_eq_iff)

text \<open>A change of state that moves no node into or out of the terminal states keeps the account.\<close>

lemma accounted_cong:
  assumes acc: "accounted fs d"
    and same: "specs e = specs d" "size_of e = size_of d" "terminal_count e = terminal_count d"
    and node: "\<And>j. j < size_of d \<Longrightarrow> remaining (nodes e ! j) = remaining (nodes d ! j) \<and>
        blocked (nodes e ! j) = blocked (nodes d ! j) \<and> successors (nodes e ! j) = successors (nodes d ! j) \<and>
        (state_of e j = state_of d j \<or>
         \<not> terminal (state_of d j) \<and> \<not> terminal (state_of e j) \<and> node_ok fs d j (state_of e j))"
  shows "accounted fs e"
proof -
  note t = accountedD [OF acc]
  have ended: "terminal (state_of e j) \<longleftrightarrow> terminal (state_of d j)"
      "stopped (state_of e j) \<longleftrightarrow> stopped (state_of d j)"
      "state_of e j = Succeeded \<longleftrightarrow> state_of d j = Succeeded" if "j < size_of d" for j
    using node [OF that] by (auto simp: stopped_def)
  have pl: "p \<in> set (preds_of d i) \<Longrightarrow> p < size_of d" if "i < size_of d" for i p
    using pred_in_table [OF t(1) that] .
  have "open_preds e i = open_preds d i" if "i < size_of d" for i
    using pl [OF that] ended by (auto simp: open_preds_def same intro!: filter_cong)
  moreover have "node_ok fs e i st \<longleftrightarrow> node_ok fs d i st" if "i < size_of d" for i st
    using pl [OF that] ended by (auto simp: node_ok_def same split: node_state.split)
  moreover have "table_ok e"
    using t(1) node by (simp add: table_ok_def same)
  moreover have "{i. i < size_of d \<and> terminal (state_of e i)} = {i. i < size_of d \<and> terminal (state_of d i)}"
    using ended by auto
  ultimately show ?thesis
    using acc node pl ended unfolding accounted_def same by (auto; metis)
qed

lemma accounted_set_state:
  assumes "accounted fs d" "i < size_of d" "\<not> terminal (state_of d i)" "\<not> terminal st" "node_ok fs d i st"
  shows "accounted fs (set_state i st d)"
  using assms by (intro accounted_cong [OF assms(1)]) auto

text \<open>A node whose counter is zero and that is not blocked has only successful predecessors.\<close>

lemma ready_preds:
  assumes "accounted fs d" "i < size_of d" "remaining (nodes d ! i) = 0" "p \<in> set (preds_of d i)"
  shows "terminal (state_of d p)" "\<not> blocked (nodes d ! i) \<Longrightarrow> state_of d p = Succeeded"
proof -
  have "open_preds d i = []"
    using accountedD(4) [OF assms(1,2)] assms(3) by simp
  then show t: "terminal (state_of d p)"
    using assms(4) by (simp add: open_preds_def filter_empty_conv)
  show "\<not> blocked (nodes d ! i) \<Longrightarrow> state_of d p = Succeeded"
    using accountedD(5) [OF assms(1,2)] assms(4) t by (cases "state_of d p") (auto simp: stopped_def)
qed

section \<open>Propagation and the end of a node\<close>

lemma length_propagate_loop [simp]: "length (propagate_loop js b ns) = length ns"
  by (induction js arbitrary: ns) auto

lemma propagate_loop_nth:
  "set js \<subseteq> {..<length ns} \<Longrightarrow>
   propagate_loop js b ns ! k = (ns ! k)\<lparr>remaining := remaining (ns ! k) - of_nat (count_list js k),
      blocked := blocked (ns ! k) \<or> (b \<and> k \<in> set js)\<rparr>"
proof (induction js arbitrary: ns)
  case (Cons j js)
  let ?ns = "ns[j := (ns ! j)\<lparr>remaining := remaining (ns ! j) - 1, blocked := blocked (ns ! j) \<or> b\<rparr>]"
  have "propagate_loop (j # js) b ns ! k = (?ns ! k)\<lparr>remaining := remaining (?ns ! k) - of_nat (count_list js k),
      blocked := blocked (?ns ! k) \<or> (b \<and> k \<in> set js)\<rparr>"
    using Cons by simp
  then show ?case
    using Cons.prems by (cases b) (auto simp: nth_list_update_if algebra_simps)
qed simp

lemma propagate_simps [simp]:
  "specs (propagate i b d) = specs d" "helpers (propagate i b d) = helpers d"
  "queue (propagate i b d) = queue d" "dag_done (propagate i b d) = dag_done d"
  "terminal_count (propagate i b d) = terminal_count d" "size_of (propagate i b d) = size_of d"
  "result_index (propagate i b d) = result_index d" "result_status (propagate i b d) = result_status d"
  by (simp_all add: propagate_def)

lemma successor_count:
  assumes "table_ok d" "i < size_of d"
  shows "set (successors (nodes d ! i)) \<subseteq> {..<size_of d}"
    "k < size_of d \<Longrightarrow> count_list (successors (nodes d ! i)) k = count_list (preds_of d k) i"
    "k < size_of d \<Longrightarrow> k \<in> set (successors (nodes d ! i)) \<longleftrightarrow> i \<in> set (preds_of d k)"
proof -
  have c: "count_list (successors (nodes d ! i)) j = (if j < size_of d then count_list (preds_of d j) i else 0)" for j
    using assms by (simp add: table_ok_def)
  show "set (successors (nodes d ! i)) \<subseteq> {..<size_of d}"
    using c count_list_0_iff by (metis lessThan_iff subsetI)
  show "k < size_of d \<Longrightarrow> count_list (successors (nodes d ! i)) k = count_list (preds_of d k) i"
    using c by simp
  then show "k < size_of d \<Longrightarrow> k \<in> set (successors (nodes d ! i)) \<longleftrightarrow> i \<in> set (preds_of d k)"
    using count_list_0_iff by metis
qed

lemma propagate_nth:
  assumes "table_ok d" "i < size_of d" "k < size_of d"
  shows "nodes (propagate i b d) ! k =
    (nodes d ! k)\<lparr>remaining := remaining (nodes d ! k) - of_nat (count_list (preds_of d k) i),
      blocked := blocked (nodes d ! k) \<or> (b \<and> i \<in> set (preds_of d k))\<rparr>"
  using successor_count [OF assms(1,2)] assms(3) by (simp add: propagate_def propagate_loop_nth)

lemma unat_sub_count: "c \<le> unat r \<Longrightarrow> unat ((r :: u32) - of_nat c) = unat r - c"
proof -
  assume c: "c \<le> unat r"
  then have "unat (of_nat c :: u32) = c"
    using unsigned_less [of r, where ?'a = nat] by (simp add: unat_of_nat_u32)
  then show ?thesis
    using c by (simp add: unat_sub word_le_nat_alt)
qed

lemma filter_without:
  "P i \<Longrightarrow> length (filter (\<lambda>p. P p \<and> p \<noteq> i) xs) + count_list xs i = length (filter P xs)"
  by (induction xs) auto

text \<open>\<open>ended i t d\<close>: node \<open>i\<close> enters the terminal state \<open>t\<close>, as \<open>finish\<close> and the scan do it.\<close>

definition ended :: "nat \<Rightarrow> node_state \<Rightarrow> dag \<Rightarrow> dag" where
  "ended i t d = propagate i (t \<noteq> Succeeded) ((set_state i t d)\<lparr>terminal_count := Suc (terminal_count d)\<rparr>)"

lemma ended_simps [simp]:
  "specs (ended i t d) = specs d" "helpers (ended i t d) = helpers d"
  "queue (ended i t d) = queue d" "dag_done (ended i t d) = dag_done d"
  "terminal_count (ended i t d) = Suc (terminal_count d)" "size_of (ended i t d) = size_of d"
  "result_index (ended i t d) = result_index d" "result_status (ended i t d) = result_status d"
  by (simp_all add: ended_def)

lemma ended_nth:
  assumes "table_ok d" "i < size_of d" "k < size_of d"
  shows "state_of (ended i t d) k = (if k = i then t else state_of d k)"
    "remaining (nodes (ended i t d) ! k) = remaining (nodes d ! k) - of_nat (count_list (preds_of d k) i)"
    "blocked (nodes (ended i t d) ! k) \<longleftrightarrow> blocked (nodes d ! k) \<or> (t \<noteq> Succeeded \<and> i \<in> set (preds_of d k))"
    "successors (nodes (ended i t d) ! k) = successors (nodes d ! k)"
    "pending_status (nodes (ended i t d) ! k) = pending_status (nodes d ! k)"
proof -
  let ?d = "(set_state i t d)\<lparr>terminal_count := Suc (terminal_count d)\<rparr>"
  have "table_ok ?d"
    using assms(1) by (simp add: table_ok_def)
  from propagate_nth [OF this, of i k] assms
  show "state_of (ended i t d) k = (if k = i then t else state_of d k)"
    "remaining (nodes (ended i t d) ! k) = remaining (nodes d ! k) - of_nat (count_list (preds_of d k) i)"
    "blocked (nodes (ended i t d) ! k) \<longleftrightarrow> blocked (nodes d ! k) \<or> (t \<noteq> Succeeded \<and> i \<in> set (preds_of d k))"
    "successors (nodes (ended i t d) ! k) = successors (nodes d ! k)"
    "pending_status (nodes (ended i t d) ! k) = pending_status (nodes d ! k)"
    by (simp_all add: ended_def)
qed

lemma accounted_ended:
  assumes acc: "accounted fs d" and i: "i < size_of d" "\<not> terminal (state_of d i)"
    and t: "terminal t" "node_ok fs d i t"
  shows "accounted fs (ended i t d)"
proof -
  note a = accountedD [OF acc]
  note nth = ended_nth [OF a(1) i(1)]
  have table: "table_ok (ended i t d)"
    using a(1) nth by (simp add: table_ok_def)
  have pl: "p \<in> set (preds_of d k) \<Longrightarrow> p < size_of d" if "k < size_of d" for k p
    using pred_in_table [OF a(1) that] .
  have rem: "unat (remaining (nodes (ended i t d) ! k)) = length (open_preds (ended i t d) k)"
    if k: "k < size_of d" for k
  proof -
    have "open_preds (ended i t d) k = filter (\<lambda>p. \<not> terminal (state_of d p) \<and> p \<noteq> i) (preds_of d k)"
      using pl [OF k] nth(1) t(1) by (auto simp: open_preds_def intro!: filter_cong split: if_splits)
    moreover have "unat (remaining (nodes d ! k)) = length (open_preds d k)"
      using a(4) [OF k] .
    ultimately show ?thesis
      using filter_without [of "\<lambda>p. \<not> terminal (state_of d p)" i "preds_of d k"] i(2)
      by (simp add: nth(2) [OF k] unat_sub_count open_preds_def)
  qed
  have block: "blocked (nodes (ended i t d) ! k) \<longleftrightarrow> (\<exists>p \<in> set (preds_of d k). stopped (state_of (ended i t d) p))"
    if k: "k < size_of d" for k
  proof -
    have "stopped (state_of (ended i t d) p) \<longleftrightarrow> (if p = i then t \<noteq> Succeeded else stopped (state_of d p))"
      if "p \<in> set (preds_of d k)" for p
      using nth(1) [OF pl [OF k that]] t(1) by (cases t) (auto simp: stopped_def)
    moreover have "\<not> stopped (state_of d i)"
      using i(2) by (auto simp: stopped_def)
    ultimately show ?thesis
      unfolding nth(3) [OF k] a(5) [OF k] by metis
  qed
  have ok: "node_ok fs (ended i t d) k (state_of (ended i t d) k)" if k: "k < size_of d" for k
  proof -
    have np: "i \<notin> set (preds_of d k)" if "state_of (ended i t d) k \<noteq> Pending"
    proof (cases "k = i")
      case True
      then show ?thesis using pred_less [OF a(1) k] by blast
    next
      case False
      then show ?thesis
        using a(6) [OF k] that i(2) nth(1) [OF k] by (auto simp: node_ok_def split: node_state.splits)
    qed
    have "node_ok fs d k (state_of (ended i t d) k)"
      using a(6) [OF k] t(2) nth(1) [OF k] by auto
    moreover have "state_of (ended i t d) p = state_of d p" if "p \<in> set (preds_of d k)" "i \<notin> set (preds_of d k)" for p
      using nth(1) [OF pl [OF k that(1)]] that by auto
    ultimately show ?thesis
      using np by (auto simp: node_ok_def split: node_state.splits)
  qed
  have "{k. k < size_of d \<and> terminal (state_of (ended i t d) k)} = insert i {k. k < size_of d \<and> terminal (state_of d k)}"
    using nth(1) i(1) t(1) by auto
  then have count: "terminal_count (ended i t d) = card {k. k < size_of d \<and> terminal (state_of (ended i t d) k)}"
    using a(7) i(2) by simp
  show ?thesis
    unfolding accounted_def using table rem block ok count by simp
qed

end
