(* ===== verification/Node_Sections.thy ===== *)
theory Node_Sections
  imports Node_Dag
begin

text \<open>
  What each critical section of the scheduler does to the table: the account is kept, every node with
  ended predecessors leaves \<open>Pending\<close>, the queue holds exactly the ready worker nodes nobody has
  taken, the result names the least failing node, and the remaining work shrinks.
\<close>

section \<open>The queue, the result and the remaining work\<close>

definition settled :: "dag \<Rightarrow> bool" where
  "settled d \<longleftrightarrow> (\<forall>j < size_of d. state_of d j = Pending \<longrightarrow> remaining (nodes d ! j) \<noteq> 0)"

text \<open>\<open>T\<close> is the set of nodes that a thread has taken off the queue and not yet marked.\<close>

definition queue_ok :: "nat set \<Rightarrow> dag \<Rightarrow> bool" where
  "queue_ok T d \<longleftrightarrow>
    (\<exists>xs. holds (queue d) xs \<and>
      set xs = {i. i < size_of d \<and> state_of d i = Ready \<and> worker d i \<and> i \<notin> T}) \<and>
    (\<forall>w. helper_bound (works (queue d) w) = helpers d)"

definition result_ok :: "(nat \<Rightarrow> u8) \<Rightarrow> dag \<Rightarrow> bool" where
  "result_ok fs d \<longleftrightarrow>
    (if \<forall>i < size_of d. state_of d i \<noteq> Failed
     then result_index d = no_index \<and> result_status d = 0
     else result_index d < size_of d \<and> state_of d (result_index d) = Failed \<and>
       (\<forall>i < size_of d. state_of d i = Failed \<longrightarrow> result_index d \<le> i) \<and>
       result_status d = fs (result_index d))"

fun node_weight :: "node_state \<Rightarrow> nat" where
  "node_weight Pending = 15" | "node_weight Ready = 8" | "node_weight Finishing = 4"
| "node_weight Running = 2" | "node_weight _ = 0"

definition table_weight :: "dag \<Rightarrow> nat" where
  "table_weight d =
    (\<Sum>i < size_of d. node_weight (state_of d i) + (if queued (works (queue d) i) then 6 else 0))"

definition evolved :: "dag \<Rightarrow> dag \<Rightarrow> bool" where
  "evolved d e \<longleftrightarrow> specs e = specs d \<and> helpers e = helpers d \<and> dag_done e = dag_done d \<and>
    result_index e = result_index d \<and> result_status e = result_status d \<and> size_of e = size_of d \<and>
    (\<forall>j < size_of d. pending_status (nodes e ! j) = pending_status (nodes d ! j) \<and>
      (if state_of d j = Pending then state_of e j \<in> {Pending, Ready, Skipped}
       else state_of e j = state_of d j))"

lemma evolved_refl [simp]: "evolved d d"
  by (simp add: evolved_def)

lemma evolved_trans: "evolved d e \<Longrightarrow> evolved e f \<Longrightarrow> evolved d f"
  unfolding evolved_def by (auto split: if_splits) metis+

lemma weight_le:
  assumes "size_of e = size_of d"
    and "\<And>i. i < size_of d \<Longrightarrow> node_weight (state_of e i) + (if queued (works (queue e) i) then 6 else 0)
      \<le> node_weight (state_of d i) + (if queued (works (queue d) i) then 6 else 0)"
  shows "table_weight e \<le> table_weight d"
  unfolding table_weight_def assms(1) using assms(2) by (intro sum_mono) auto

text \<open>One node loses weight \<open>c\<close> and no other gains.\<close>

lemma weight_drop:
  assumes "size_of e = size_of d" "k < size_of d"
    and "\<And>i. i < size_of d \<Longrightarrow> node_weight (state_of e i) + (if queued (works (queue e) i) then 6 else 0)
        + (if i = k then c else 0)
      \<le> node_weight (state_of d i) + (if queued (works (queue d) i) then 6 else 0)"
  shows "table_weight e + c \<le> table_weight d"
proof -
  have "(\<Sum>i < size_of d. if i = k then c else 0) = c"
    using assms(2) by simp
  then have "table_weight e + c =
      (\<Sum>i < size_of d. (node_weight (state_of e i) + (if queued (works (queue e) i) then 6 else 0)) +
        (if i = k then c else 0))"
    unfolding table_weight_def assms(1) sum.distrib by simp
  also have "\<dots> \<le> table_weight d"
    unfolding table_weight_def using assms(3) by (intro sum_mono) auto
  finally show ?thesis .
qed

lemma queued_push [simp]: "queued (works (queue_push w q) v) \<longleftrightarrow> v = w \<or> queued (works q v)"
  by (auto simp: queue_push_def Let_def split: option.split)

lemma queued_unlink [simp]: "queued (works (queue_unlink w q) v) \<longleftrightarrow> v \<noteq> w \<and> queued (works q v)"
  by (auto simp: queue_unlink_def Let_def split: option.split)

lemma ready_simps [simp]:
  "specs (ready i d) = specs d" "helpers (ready i d) = helpers d" "dag_done (ready i d) = dag_done d"
  "terminal_count (ready i d) = terminal_count d" "size_of (ready i d) = size_of d"
  "result_index (ready i d) = result_index d" "result_status (ready i d) = result_status d"
  "nodes (ready i d) = nodes (set_state i Ready d)"
  "queue (ready i d) = (if worker d i then queue_push i (queue d) else queue d)"
  by (simp_all add: ready_def Let_def)

lemma worker_update:
  "specs e = specs d \<Longrightarrow> helpers e = helpers d \<Longrightarrow> worker e i = worker d i"
  by (simp add: worker_def)

section \<open>The scan for nodes that can run\<close>

lemma skip_node_ended: "skip_node i d = ended i Skipped d"
  by (simp add: skip_node_def ended_def)

lemma node_ok_skipped:
  assumes "accounted fs d" "i < size_of d" "remaining (nodes d ! i) = 0" "blocked (nodes d ! i)"
  shows "node_ok fs d i Skipped"
  using ready_preds(1) [OF assms(1-3)] accountedD(5) [OF assms(1,2)] assms(4) by (simp add: node_ok_def)

lemma node_ok_ready:
  assumes "accounted fs d" "i < size_of d" "remaining (nodes d ! i) = 0" "\<not> blocked (nodes d ! i)"
  shows "node_ok fs d i Ready"
  using ready_preds(2) [OF assms(1-3) _ assms(4)] by (simp add: node_ok_def)

lemma queue_ok_ready:
  assumes "queue_ok T d" "i < size_of d" "state_of d i \<noteq> Ready" "i \<notin> T"
  shows "queue_ok T (ready i d)"
proof -
  obtain xs where xs: "holds (queue d) xs"
      "set xs = {i. i < size_of d \<and> state_of d i = Ready \<and> worker d i \<and> i \<notin> T}"
    using assms(1) by (auto simp: queue_ok_def)
  have i: "i \<notin> set xs"
    using xs(2) assms(3) by simp
  have w: "worker (ready i d) = worker d"
    by (simp add: worker_def fun_eq_iff)
  show ?thesis
  proof (cases "worker d i")
    case True
    then have "holds (queue (ready i d)) (xs @ [i])"
      using rq.holds_push [OF xs(1) i] by simp
    moreover have "set (xs @ [i]) =
        {k. k < size_of d \<and> state_of (ready i d) k = Ready \<and> worker d k \<and> k \<notin> T}"
      using xs(2) assms(2,4) True by auto
    ultimately show ?thesis
      using assms(1) True unfolding queue_ok_def w by (metis bound_simps(1) ready_simps(2,5,9))
  next
    case False
    then have "set xs = {k. k < size_of d \<and> state_of (ready i d) k = Ready \<and> worker d k \<and> k \<notin> T}"
      using xs(2) assms(2) by auto
    then show ?thesis
      using xs(1) assms(1) w False by (auto simp: queue_ok_def)
  qed
qed

lemma queue_ok_cong:
  assumes "queue_ok T d" "queue e = queue d" "helpers e = helpers d" "specs e = specs d" "size_of e = size_of d"
    and "\<And>i. i < size_of d \<Longrightarrow> worker d i \<Longrightarrow>
      (state_of e i = Ready \<and> i \<notin> S) \<longleftrightarrow> (state_of d i = Ready \<and> i \<notin> T)"
  shows "queue_ok S e"
proof -
  have "{i. i < size_of d \<and> state_of e i = Ready \<and> worker d i \<and> i \<notin> S} =
      {i. i < size_of d \<and> state_of d i = Ready \<and> worker d i \<and> i \<notin> T}"
    using assms(6) by auto
  then show ?thesis
    using assms(1-5) worker_update [OF assms(4,3)] by (simp add: queue_ok_def)
qed

lemma scan_node_spec:
  assumes acc: "accounted fs d" and i: "i < size_of d" and q: "queue_ok T d"
    and T: "\<forall>k \<in> T. k < size_of d \<longrightarrow> state_of d k \<noteq> Pending"
  defines "e \<equiv> scan_node i d"
  shows "accounted fs e" "evolved d e" "queue_ok T e" "table_weight e \<le> table_weight d"
    "\<lbrakk>j < size_of d; state_of e j = Pending; remaining (nodes e ! j) = 0\<rbrakk> \<Longrightarrow>
      j \<noteq> i \<and> (i < j \<or> state_of d j = Pending \<and> remaining (nodes d ! j) = 0)"
proof -
  note a = accountedD [OF acc]
  consider (none) "e = d" "state_of d i \<noteq> Pending \<or> remaining (nodes d ! i) \<noteq> 0"
    | (skip) "e = ended i Skipped d" "state_of d i = Pending" "remaining (nodes d ! i) = 0" "blocked (nodes d ! i)"
    | (ready) "e = ready i d" "state_of d i = Pending" "remaining (nodes d ! i) = 0" "\<not> blocked (nodes d ! i)"
    by (auto simp: e_def scan_node_def skip_node_ended)
  then have "accounted fs e \<and> evolved d e \<and> queue_ok T e \<and> table_weight e \<le> table_weight d \<and>
    (\<forall>j < size_of d. state_of e j = Pending \<and> remaining (nodes e ! j) = 0 \<longrightarrow>
      j \<noteq> i \<and> (i < j \<or> state_of d j = Pending \<and> remaining (nodes d ! j) = 0))"
  proof cases
    case none
    then show ?thesis using acc q by auto
  next
    case skip
    note nth = ended_nth [OF a(1) i, where t = Skipped]
    have "accounted fs e"
      unfolding skip(1) using skip by (intro accounted_ended acc i node_ok_skipped) auto
    moreover have "evolved d e"
      using skip nth by (simp add: evolved_def)
    moreover have "queue_ok T e"
      using skip nth by (intro queue_ok_cong [OF q]) auto
    moreover have "table_weight e \<le> table_weight d"
      using skip nth by (intro weight_le) auto
    moreover have "i < j \<or> remaining (nodes e ! j) = remaining (nodes d ! j)" if "j < size_of d" for j
    proof (cases "i \<in> set (preds_of d j)")
      case False
      then show ?thesis
        unfolding skip(1) nth(2) [OF that] by (simp add: count_list_0_iff)
    qed (use pred_less [OF a(1) that] in blast)
    moreover have "state_of e j = Pending \<Longrightarrow> j \<noteq> i \<and> state_of d j = Pending" if "j < size_of d" for j
      using nth(1) [OF that] skip(1) by (auto split: if_splits)
    ultimately show ?thesis
      by fastforce
  next
    case ready
    have "accounted fs e"
      unfolding ready(1) using ready i node_ok_ready [OF acc i] by (intro accounted_cong [OF acc]) auto
    moreover have "evolved d e"
      using ready i by (simp add: evolved_def)
    moreover have "queue_ok T e"
      unfolding ready(1) using q i ready(2) T by (intro queue_ok_ready) auto
    moreover have "table_weight e \<le> table_weight d"
      using ready i by (intro weight_le) auto
    ultimately show ?thesis
      using ready i by auto
  qed
  then show "accounted fs e" "evolved d e" "queue_ok T e" "table_weight e \<le> table_weight d"
    "\<lbrakk>j < size_of d; state_of e j = Pending; remaining (nodes e ! j) = 0\<rbrakk> \<Longrightarrow>
      j \<noteq> i \<and> (i < j \<or> state_of d j = Pending \<and> remaining (nodes d ! j) = 0)"
    by blast+
qed

lemma finish_scan_spec:
  assumes "accounted fs d" "queue_ok T d" "\<forall>k \<in> T. k < size_of d \<longrightarrow> state_of d k \<noteq> Pending"
    and "\<And>j. \<lbrakk>j < size_of d; state_of d j = Pending; remaining (nodes d ! j) = 0\<rbrakk> \<Longrightarrow> k \<le> j"
  defines "e \<equiv> finish_scan [k..<size_of d] d"
  shows "accounted fs e \<and> evolved d e \<and> queue_ok T e \<and> table_weight e \<le> table_weight d \<and> settled e"
  using assms(1-4) unfolding e_def
proof (induction "size_of d - k" arbitrary: k d)
  case 0
  then show ?case
    by (fastforce simp: settled_def)
next
  case (Suc m)
  then have k: "k < size_of d"
    by simp
  let ?d = "scan_node k d"
  note s = scan_node_spec [OF Suc.prems(1) k Suc.prems(2,3)]
  have sz: "size_of ?d = size_of d"
    using s(2) by (simp add: evolved_def)
  have step: "finish_scan [k..<size_of d] d = finish_scan [Suc k..<size_of ?d] ?d"
    using k sz by (simp add: upt_rec)
  have "accounted fs (finish_scan [Suc k..<size_of ?d] ?d) \<and> evolved ?d (finish_scan [Suc k..<size_of ?d] ?d) \<and>
    queue_ok T (finish_scan [Suc k..<size_of ?d] ?d) \<and>
    table_weight (finish_scan [Suc k..<size_of ?d] ?d) \<le> table_weight ?d \<and>
    settled (finish_scan [Suc k..<size_of ?d] ?d)"
  proof (rule Suc.hyps(1))
    show "m = size_of ?d - Suc k"
      using Suc.hyps(2) sz by simp
    show "\<forall>j \<in> T. j < size_of ?d \<longrightarrow> state_of ?d j \<noteq> Pending"
      using Suc.prems(3) s(2) sz unfolding evolved_def by metis
    show "Suc k \<le> j" if "j < size_of ?d" "state_of ?d j = Pending" "remaining (nodes ?d ! j) = 0" for j
      using s(5) [of j] that Suc.prems(4) [of j] sz by fastforce
  qed (use s in auto)
  then show ?case
    unfolding step using s evolved_trans [OF s(2)] by auto
qed

section \<open>The critical sections\<close>

lemma refresh_simps [simp]:
  "specs (refresh_local d) = specs d" "helpers (refresh_local d) = helpers d"
  "dag_done (refresh_local d) = dag_done d" "terminal_count (refresh_local d) = terminal_count d"
  "nodes (refresh_local d) = nodes d" "queue (refresh_local d) = queue d"
  "result_index (refresh_local d) = result_index d" "result_status (refresh_local d) = result_status d"
  "local_ready (refresh_local d) = local_work d"
  by (simp_all add: refresh_local_def)

lemma local_work_cong:
  "specs e = specs d \<Longrightarrow> helpers e = helpers d \<Longrightarrow> nodes e = nodes d \<Longrightarrow> local_work e = local_work d"
  by (simp add: local_work_def first_finishing_def first_local_def worker_def split: option.split)

lemma local_work_refresh [simp]: "local_work (refresh_local d) = local_work d"
  by (rule local_work_cong) simp_all

lemma accounted_nodes:
  "accounted fs d \<Longrightarrow> specs e = specs d \<Longrightarrow> nodes e = nodes d \<Longrightarrow> terminal_count e = terminal_count d \<Longrightarrow>
   accounted fs e"
  by (rule accounted_cong) auto

lemma queue_ok_nodes:
  "queue_ok T d \<Longrightarrow> specs e = specs d \<Longrightarrow> helpers e = helpers d \<Longrightarrow> nodes e = nodes d \<Longrightarrow> queue e = queue d \<Longrightarrow>
   queue_ok T e"
  by (rule queue_ok_cong) auto

lemma result_ok_cong:
  assumes "result_ok fs d" "size_of e = size_of d" "result_index e = result_index d"
    "result_status e = result_status d"
    "\<And>i. i < size_of d \<Longrightarrow> state_of e i = Failed \<longleftrightarrow> state_of d i = Failed"
  shows "result_ok fs e"
  using assms unfolding result_ok_def by (simp split: if_split_asm cong: conj_cong)

lemma finish_node_ended:
  "finish_node i status d =
    (let e = ended i (if status = 0 then Succeeded else Failed) d
     in if status \<noteq> 0 \<and> i < result_index d then e\<lparr>result_index := i, result_status := status\<rparr> else e)"
  by (simp add: finish_node_def ended_def Let_def propagate_def set_state_def)

lemma node_ok_end:
  assumes "node_ok fs d i st" "st = Running" "status = fs i"
  shows "node_ok fs d i (if status = 0 then Succeeded else Failed)"
  using assms by (simp add: node_ok_def)

lemma result_step:
  assumes res: "result_ok fs d" and i: "i < size_of d" "i < no_index" "state_of d i \<noteq> Failed"
    and e: "size_of e = size_of d"
      "\<And>j. j < size_of d \<Longrightarrow> state_of e j =
        (if j = i then (if fs i = 0 then Succeeded else Failed) else state_of d j)"
      "result_index e = (if fs i \<noteq> 0 \<and> i < result_index d then i else result_index d)"
      "result_status e = (if fs i \<noteq> 0 \<and> i < result_index d then fs i else result_status d)"
  shows "result_ok fs e"
proof (cases "fs i = 0")
  case True
  then show ?thesis
    using e i by (intro result_ok_cong [OF res]) auto
next
  case False
  have fe: "state_of e j = Failed \<longleftrightarrow> j = i \<or> state_of d j = Failed" if "j < size_of d" for j
    using e(2) [OF that] False by auto
  show ?thesis
  proof (cases "\<forall>j < size_of d. state_of d j \<noteq> Failed")
    case True
    then have "result_index d = no_index"
      using res by (simp add: result_ok_def)
    then show ?thesis
      using True e(1,3,4) False i fe by (auto simp: result_ok_def)
  next
    case some: False
    then have "result_index d < size_of d" "state_of d (result_index d) = Failed"
        "\<And>j. j < size_of d \<Longrightarrow> state_of d j = Failed \<Longrightarrow> result_index d \<le> j"
        "result_status d = fs (result_index d)"
      using res unfolding result_ok_def by (metis, metis, metis, metis)
    then show ?thesis
      using some e(1,3,4) False i fe by (auto simp: result_ok_def) fastforce+
  qed
qed

lemma card_all: "card {j. j < n \<and> P j} = n \<longleftrightarrow> (\<forall>j < n. P j)"
proof
  assume c: "card {j. j < n \<and> P j} = n"
  have "{j. j < n \<and> P j} = {..<n}"
    by (rule card_subset_eq) (use c in auto)
  then show "\<forall>j < n. P j"
    by blast
next
  assume "\<forall>j < n. P j"
  then have "{j. j < n \<and> P j} = {..<n}"
    by blast
  then show "card {j. j < n \<and> P j} = n"
    by simp
qed

lemma all_ended:
  "accounted fs d \<Longrightarrow> terminal_count d = size_of d \<longleftrightarrow> (\<forall>j < size_of d. terminal (state_of d j))"
  using accountedD(7) card_all by metis

text \<open>\<open>finish\<close> on a running node.\<close>

lemma finish_spec:
  assumes acc: "accounted fs d" and i: "i < size_of d" "state_of d i = Running"
    and settled: "settled d" and res: "result_ok fs d" and q: "queue_ok T d"
    and T: "\<forall>k \<in> T. k < size_of d \<longrightarrow> state_of d k \<noteq> Pending"
    and f: "finish i (fs i) d = (c, e)"
  shows "accounted fs e" "settled e" "result_ok fs e" "queue_ok T e"
    "table_weight e + 2 \<le> table_weight d" "local_ready e = local_work e"
    "c \<longleftrightarrow> (\<forall>j < size_of e. terminal (state_of e j))"
    "specs e = specs d" "helpers e = helpers d" "dag_done e = dag_done d" "size_of e = size_of d"
    "j < size_of d \<Longrightarrow> pending_status (nodes e ! j) = pending_status (nodes d ! j)"
    "j < size_of d \<Longrightarrow> state_of e j =
      (if j = i then (if fs i = 0 then Succeeded else Failed)
       else if state_of d j = Pending then state_of e j else state_of d j)"
    "j < size_of d \<Longrightarrow> state_of d j = Pending \<Longrightarrow> state_of e j \<in> {Pending, Ready, Skipped}"
proof -
  note a = accountedD [OF acc]
  let ?t = "if fs i = 0 then Succeeded else Failed"
  define m where "m = ended i ?t d"
  define r where "r = finish_node i (fs i) d"
  have szm [simp]: "size_of m = size_of d"
    by (simp add: m_def)
  note nth = ended_nth [OF a(1) i(1), where t = ?t, folded m_def]
  have r: "specs r = specs d" "helpers r = helpers d" "dag_done r = dag_done d" "nodes r = nodes m"
      "queue r = queue d" "terminal_count r = terminal_count m" "size_of r = size_of d"
    by (simp_all add: r_def finish_node_ended m_def Let_def)
  have accm: "accounted fs m"
    unfolding m_def using i node_ok_end [OF a(6) [OF i(1)] i(2) refl] by (intro accounted_ended acc) auto
  have accr: "accounted fs r"
    by (rule accounted_nodes [OF accm]) (simp_all add: r m_def)
  have qr: "queue_ok T r"
    using i nth(1) r(4,7) by (intro queue_ok_cong [OF q]) (simp_all add: r(1-3,5,7) r(4))
  have Tr: "\<forall>k \<in> T. k < size_of r \<longrightarrow> state_of r k \<noteq> Pending"
    using T nth(1) by (auto simp: r split: if_splits)
  have later: "i \<le> j" if "j < size_of r" "state_of r j = Pending" "remaining (nodes r ! j) = 0" for j
  proof (rule ccontr)
    assume "\<not> i \<le> j"
    have j: "j < size_of d" "j \<noteq> i"
      using that \<open>\<not> i \<le> j\<close> by (auto simp: r)
    have "i \<notin> set (preds_of d j)"
      using pred_less [OF a(1) j(1)] \<open>\<not> i \<le> j\<close> by force
    then have "remaining (nodes d ! j) = 0" "state_of d j = Pending"
      using that nth(1,2) [OF j(1)] j by (simp_all add: r count_list_0_iff)
    then show False
      using settled j by (simp add: settled_def)
  qed
  have later: "Suc i \<le> j" if "j < size_of r" "state_of r j = Pending" "remaining (nodes r ! j) = 0" for j
    using later [OF that] that nth(1) [of j] i(1) by (cases "j = i") (auto simp: r split: if_splits)
  define s where "s = finish_scan [Suc i..<size_of r] r"
  have "accounted fs s \<and> evolved r s \<and> queue_ok T s \<and> table_weight s \<le> table_weight r \<and> settled s"
    unfolding s_def by (rule finish_scan_spec [OF accr qr Tr later])
  then have s: "accounted fs s" "evolved r s" "queue_ok T s" "table_weight s \<le> table_weight r" "settled s"
    by simp_all
  have e: "e = refresh_local s" "c = (terminal_count e = size_of e)"
    using f by (auto simp: finish_def r_def [symmetric] s_def Let_def)
  have fe: "specs e = specs s" "helpers e = helpers s" "nodes e = nodes s" "queue e = queue s"
      "terminal_count e = terminal_count s" "dag_done e = dag_done s"
      "result_index e = result_index s" "result_status e = result_status s"
    by (simp_all add: e)
  show acce: "accounted fs e"
    by (rule accounted_nodes [OF s(1)]) (simp_all add: fe)
  show "settled e" "queue_ok T e"
    using s(5) queue_ok_nodes [OF s(3)] by (simp_all add: settled_def fe)
  show "specs e = specs d" "helpers e = helpers d" "dag_done e = dag_done d" "size_of e = size_of d"
    using s(2) by (simp_all add: evolved_def fe r)
  note sz = \<open>size_of e = size_of d\<close>
  have ev: "pending_status (nodes e ! j) = pending_status (nodes d ! j) \<and>
      (if state_of r j = Pending then state_of e j \<in> {Pending, Ready, Skipped} else state_of e j = state_of r j)"
    if "j < size_of d" for j
    using s(2) that nth(5) [OF that] unfolding evolved_def by (auto simp: fe r split: if_splits)
  have str: "state_of r j = (if j = i then ?t else state_of d j)" if "j < size_of d" for j
    using nth(1) [OF that] by (simp add: r)
  show "j < size_of d \<Longrightarrow> pending_status (nodes e ! j) = pending_status (nodes d ! j)"
    using ev by blast
  show st: "j < size_of d \<Longrightarrow> state_of e j =
      (if j = i then ?t else if state_of d j = Pending then state_of e j else state_of d j)" for j
    using ev [of j] str [of j] by (auto split: if_splits)
  show "j < size_of d \<Longrightarrow> state_of d j = Pending \<Longrightarrow> state_of e j \<in> {Pending, Ready, Skipped}"
    using ev [of j] str [of j] i(2) by (auto split: if_splits)
  show "local_ready e = local_work e"
    by (simp add: e)
  have "table_weight r + 2 \<le> table_weight d"
    using i str by (intro weight_drop [of _ _ i]) (auto simp: r)
  moreover have "table_weight e = table_weight s"
    by (simp add: table_weight_def fe)
  ultimately show "table_weight e + 2 \<le> table_weight d"
    using s(4) by simp
  show "c \<longleftrightarrow> (\<forall>j < size_of e. terminal (state_of e j))"
    unfolding e(2) by (rule all_ended [OF acce])
  have "result_ok fs r"
  proof (rule result_step [OF res i(1)])
    show "i < no_index"
      using i(1) a(2,3) by (simp add: wf_specs_def no_index_def)
  qed (use i str in \<open>simp_all add: r(7), simp_all add: r_def finish_node_ended Let_def\<close>)
  then show "result_ok fs e"
  proof (rule result_ok_cong)
    show "size_of e = size_of r"
      by (simp add: sz r(7))
    show "result_index e = result_index r" "result_status e = result_status r"
      using s(2) by (simp_all add: evolved_def fe)
    show "state_of e j = Failed \<longleftrightarrow> state_of r j = Failed" if "j < size_of r" for j
      using ev [of j] that by (auto simp: r(7) split: if_splits)
  qed
qed

definition active :: "node_state \<Rightarrow> bool" where
  "active st \<longleftrightarrow> st = Ready \<or> st = Running \<or> st = Finishing"

lemma node_ok_active: "node_ok fs d i st \<Longrightarrow> active st \<Longrightarrow> active st' \<Longrightarrow> node_ok fs d i st'"
  by (auto simp: node_ok_def active_def)

text \<open>A section that moves one node between the active states.\<close>

lemma accounted_active:
  assumes acc: "accounted fs d" and i: "i < size_of d" "active (state_of d i)"
    and e: "specs e = specs d" "terminal_count e = terminal_count d"
      "nodes e = (nodes d)[i := (nodes d ! i)\<lparr>pending_status := s, node_state := st\<rparr>]" "active st"
  shows "accounted fs e"
proof (rule accounted_cong [OF acc])
  fix j assume "j < size_of d"
  then show "remaining (nodes e ! j) = remaining (nodes d ! j) \<and> blocked (nodes e ! j) = blocked (nodes d ! j) \<and>
      successors (nodes e ! j) = successors (nodes d ! j) \<and>
      (state_of e j = state_of d j \<or>
       \<not> terminal (state_of d j) \<and> \<not> terminal (state_of e j) \<and> node_ok fs d j (state_of e j))"
    using i e node_ok_active [OF accountedD(6) [OF acc i(1)] i(2) e(4)]
    by (auto simp: nth_list_update_if active_def)
qed (simp_all add: e)

lemma first_finishing_Some:
  "first_finishing d = Some i \<Longrightarrow> i < size_of d \<and> state_of d i = Finishing"
  by (auto simp: first_finishing_def find_Some_iff)

lemma first_finishing_None: "first_finishing d = None \<Longrightarrow> i < size_of d \<Longrightarrow> state_of d i \<noteq> Finishing"
  by (auto simp: first_finishing_def find_None_iff)

lemma first_local_Some:
  "first_local d = Some i \<Longrightarrow> i < size_of d \<and> \<not> worker d i \<and> \<not> terminal (state_of d i) \<and>
    (\<forall>j < i. worker d j \<or> terminal (state_of d j))"
  by (auto simp: first_local_def find_Some_iff)

lemma first_local_None:
  "first_local d = None \<Longrightarrow> i < size_of d \<Longrightarrow> worker d i \<or> terminal (state_of d i)"
  by (auto simp: first_local_def find_None_iff)

text \<open>The choice of the calling thread: a node to join, one of its own nodes, or none it could run.\<close>

lemma choose_node_cases:
  obtains (join) i where "choose_node d = (Join_Node i, refresh_local (set_state i Running d))"
      "i < size_of d" "state_of d i = Finishing"
  | (own) i where "choose_node d = (Local_Node i, refresh_local (set_state i Running d))"
      "i < size_of d" "state_of d i = Ready" "\<not> worker d i"
  | (none) "choose_node d = (No_Choice, refresh_local d)" "\<not> local_work d"
proof (cases "first_finishing d")
  case (Some i)
  then show ?thesis
    using join first_finishing_Some [OF Some] by (simp add: choose_node_def)
next
  case n: None
  show ?thesis
  proof (cases "first_local d")
    case None
    then show ?thesis
      using none n by (simp add: choose_node_def local_work_def)
  next
    case (Some i)
    then show ?thesis
      using own none n first_local_Some [OF Some]
      by (cases "state_of d i = Ready") (simp_all add: choose_node_def local_work_def)
  qed
qed

section \<open>The construction and the start of a block\<close>

lemma link_predecessors_spec:
  assumes "\<forall>p \<in> set ps. p < i" "i \<le> length ns"
  shows "\<exists>ns'. link_predecessors i ps ns = Inr ns' \<and> length ns' = length ns \<and>
    (\<forall>k. ns' ! k = (ns ! k)\<lparr>successors := successors (ns ! k) @ replicate (count_list ps k) i\<rparr>)"
  using assms
proof (induction ps arbitrary: ns)
  case Nil
  then show ?case by simp
next
  case (Cons p ps)
  let ?ns = "ns[p := (ns ! p)\<lparr>successors := successors (ns ! p) @ [i]\<rparr>]"
  obtain ns' where ns': "link_predecessors i ps ?ns = Inr ns'" "length ns' = length ?ns"
    "\<forall>k. ns' ! k = (?ns ! k)\<lparr>successors := successors (?ns ! k) @ replicate (count_list ps k) i\<rparr>"
    using Cons.IH [of ?ns] Cons.prems by auto
  then have "ns' ! k = (ns ! k)\<lparr>successors := successors (ns ! k) @ replicate (count_list (p # ps) k) i\<rparr>" for k
    using Cons.prems by (auto simp: nth_list_update_if)
  then show ?case
    using ns' Cons.prems by auto
qed

lemma link_predecessors_error:
  "p \<in> set ps \<Longrightarrow> i \<le> p \<Longrightarrow> link_predecessors i ps ns = Inl Invalid_Parallel_Predecessor"
  by (induction ps arbitrary: ns) auto

definition spec_ok :: "nat \<Rightarrow> node_spec \<Rightarrow> bool" where
  "spec_ok i s \<longleftrightarrow> has_body s \<and> (predecessor_count s = 0 \<or> predecessors s \<noteq> None) \<and>
    (\<forall>p \<in> set (preds s). p < i)"

lemma build_nodes_spec:
  assumes "\<forall>k < length ss. spec_ok (i + k) (ss ! k)" "i + length ss = length ns"
  shows "\<exists>ns'. build_nodes i ss ns = Inr ns' \<and> length ns' = length ns \<and>
    (\<forall>j < length ns. ns' ! j = (ns ! j)
       \<lparr>remaining := (if i \<le> j then predecessor_count (ss ! (j - i)) else remaining (ns ! j)),
        successors := successors (ns ! j) @
          concat (map (\<lambda>k. replicate (count_list (preds (ss ! (k - i))) j) k) [i..<length ns])\<rparr>)"
  using assms
proof (induction ss arbitrary: i ns)
  case Nil
  then show ?case by auto
next
  case (Cons s ss)
  let ?ns = "ns[i := (ns ! i)\<lparr>remaining := predecessor_count s\<rparr>]"
  have s: "spec_ok i s"
    using Cons.prems(1) by force
  obtain ms where ms: "link_predecessors i (preds s) ?ns = Inr ms" "length ms = length ns"
      "\<And>k. ms ! k = (?ns ! k)\<lparr>successors := successors (?ns ! k) @ replicate (count_list (preds s) k) i\<rparr>"
    using link_predecessors_spec [of "preds s" i ?ns] s Cons.prems(2) by (auto simp: spec_ok_def)
  have "\<forall>k < length ss. spec_ok (Suc i + k) (ss ! k)"
    using Cons.prems(1) by force
  then obtain ns' where ns': "build_nodes (Suc i) ss ms = Inr ns'" "length ns' = length ms"
    "\<And>j. j < length ms \<Longrightarrow> ns' ! j = (ms ! j)
       \<lparr>remaining := (if Suc i \<le> j then predecessor_count (ss ! (j - Suc i)) else remaining (ms ! j)),
        successors := successors (ms ! j) @
          concat (map (\<lambda>k. replicate (count_list (preds (ss ! (k - Suc i))) j) k) [Suc i..<length ms])\<rparr>"
    using Cons.IH [of "Suc i" ms] Cons.prems(2) ms(2) by auto
  have "build_nodes i (s # ss) ns = Inr ns'"
    using s ms(1) ns'(1) by (auto simp: spec_ok_def)
  moreover have "ns' ! j = (ns ! j)
       \<lparr>remaining := (if i \<le> j then predecessor_count ((s # ss) ! (j - i)) else remaining (ns ! j)),
        successors := successors (ns ! j) @
          concat (map (\<lambda>k. replicate (count_list (preds ((s # ss) ! (k - i))) j) k) [i..<length ns])\<rparr>"
    if j: "j < length ns" for j
  proof -
    define R where "R = concat (map (\<lambda>k. replicate (count_list (preds (ss ! (k - Suc i))) j) k) [Suc i..<length ns])"
    have range: "[i..<length ns] = i # [Suc i..<length ns]"
      using Cons.prems(2) by (simp add: upt_conv_Cons)
    have tail: "map (\<lambda>k. replicate (count_list (preds ((s # ss) ! (k - i))) j) k) [Suc i..<length ns] =
        map (\<lambda>k. replicate (count_list (preds (ss ! (k - Suc i))) j) k) [Suc i..<length ns]"
      by (intro map_cong) (auto simp: nth_Cons')
    have row: "concat (map (\<lambda>k. replicate (count_list (preds ((s # ss) ! (k - i))) j) k) [i..<length ns]) =
        replicate (count_list (preds s) j) i @ R"
      unfolding range list.map concat.simps tail R_def by simp
    have rem: "(if i \<le> j then predecessor_count ((s # ss) ! (j - i)) else r) =
        (if Suc i \<le> j then predecessor_count (ss ! (j - Suc i)) else if j = i then predecessor_count s else r)" for r
      by (auto simp: nth_Cons')
    show ?thesis
      unfolding row rem using ns'(3) [of j, folded R_def] ms(2) ms(3) [of j] j Cons.prems(2)
      by (simp add: nth_list_update_if R_def)
  qed
  ultimately show ?case
    using ns'(2) ms(2) by auto
qed

lemma build_nodes_error:
  "k < length ss \<Longrightarrow> \<not> spec_ok (i + k) (ss ! k) \<Longrightarrow> \<exists>e. build_nodes i ss ns = Inl e"
proof (induction ss arbitrary: i k ns)
  case (Cons s ss)
  show ?case
  proof (cases "spec_ok i s")
    case True
    then obtain k' where k: "k = Suc k'"
      using Cons.prems by (cases k) auto
    then have "\<exists>e. build_nodes (Suc i) ss ms = Inl e" for ms
      using Cons.IH [of k' "Suc i" ms] Cons.prems by simp
    then show ?thesis
      by (cases "link_predecessors i (preds s) (ns[i := (ns ! i)\<lparr>remaining := predecessor_count s\<rparr>])") auto
  next
    case False
    then show ?thesis
      using link_predecessors_error by (auto simp: spec_ok_def not_less)
  qed
qed simp

lemma count_row: "count_list (concat (map (\<lambda>k. replicate (c k) k) [0..<n])) j = (if j < n then c j else 0)"
proof (induction n)
  case (Suc n)
  have "count_list (replicate m n) j = (if j = n then m else 0)" for m
    by (induction m) auto
  then show ?case
    using Suc.IH by auto
qed simp

text \<open>The arrays of predecessors are as long as their counts say.\<close>

definition arrays_ok :: "node_spec list \<Rightarrow> bool" where
  "arrays_ok sp \<longleftrightarrow> length sp < 4294967296 \<and>
    (\<forall>s \<in> set sp. case predecessors s of None \<Rightarrow> True | Some ps \<Rightarrow> unat (predecessor_count s) \<le> length ps)"

definition fresh :: "dag \<Rightarrow> bool" where
  "fresh d \<longleftrightarrow> table_ok d \<and> queue d = empty_queue (\<lambda>_. helpers d) \<and> \<not> dag_done d \<and> \<not> local_ready d \<and>
    terminal_count d = 0 \<and> result_index d = no_index \<and> result_status d = 0 \<and>
    (\<forall>j < size_of d. state_of d j = Pending \<and> \<not> blocked (nodes d ! j) \<and>
       remaining (nodes d ! j) = predecessor_count (specs d ! j))"

lemma wf_specs_iff: "arrays_ok sp \<Longrightarrow> wf_specs sp \<longleftrightarrow> (\<forall>k < length sp. spec_ok k (sp ! k))"
proof -
  assume a: "arrays_ok sp"
  have "length (preds (sp ! k)) = unat (predecessor_count (sp ! k)) \<longleftrightarrow>
      predecessor_count (sp ! k) = 0 \<or> predecessors (sp ! k) \<noteq> None" if "k < length sp" for k
    using a that nth_mem [OF that] by (fastforce simp: arrays_ok_def preds_def unat_eq_0 split: option.splits)
  then show ?thesis
    using a by (auto simp: wf_specs_def spec_ok_def arrays_ok_def)
qed

lemma dag_new_fresh:
  assumes "arrays_ok sp" "wf_specs sp"
  shows "\<exists>d. dag_new sp hs = Inr d \<and> specs d = sp \<and> helpers d = hs \<and> fresh d"
proof -
  let ?ns = "replicate (length sp) new_node"
  obtain ns where ns: "build_nodes 0 sp ?ns = Inr ns" "length ns = length sp"
    "\<And>j. j < length sp \<Longrightarrow> ns ! j = (?ns ! j)\<lparr>remaining := predecessor_count (sp ! j),
        successors := successors (?ns ! j) @
          concat (map (\<lambda>k. replicate (count_list (preds (sp ! k)) j) k) [0..<length sp])\<rparr>"
    using build_nodes_spec [of sp 0 ?ns] assms wf_specs_iff [OF assms(1)] by auto
  then show ?thesis
    using assms(2) by (auto simp: dag_new_def fresh_def table_ok_def new_node_def count_row)
qed

lemma fresh_accounted:
  assumes "fresh d"
  shows "accounted fs d" "queue_ok {} d" "result_ok fs d"
proof -
  have pl: "p \<in> set (preds_of d i) \<Longrightarrow> p < size_of d" if "i < size_of d" for i p
    using assms pred_in_table that by (auto simp: fresh_def)
  have "open_preds d i = preds_of d i" if "i < size_of d" for i
    using pl [OF that] assms by (auto simp: open_preds_def fresh_def filter_id_conv)
  moreover have "length (preds_of d i) = unat (predecessor_count (specs d ! i))" if "i < size_of d" for i
    using assms that by (simp add: fresh_def table_ok_def wf_specs_def)
  moreover have "\<not> stopped (state_of d p)" if "i < size_of d" "p \<in> set (preds_of d i)" for i p
    using pl [OF that] assms by (simp add: fresh_def stopped_def)
  moreover have "{i. i < size_of d \<and> terminal (state_of d i)} = {}"
    using assms by (auto simp: fresh_def)
  ultimately show "accounted fs d"
    using assms unfolding accounted_def by (auto simp: fresh_def node_ok_def)
  show "queue_ok {} d"
    using assms holds_empty by (auto simp: fresh_def queue_ok_def intro!: exI [of _ "[]"])
  show "result_ok fs d"
    using assms by (simp add: fresh_def result_ok_def)
qed

lemma start_loop_scan:
  "\<forall>j. k \<le> j \<and> j < n \<longrightarrow> state_of d j = Pending \<and> \<not> blocked (nodes d ! j) \<Longrightarrow> n = size_of d \<Longrightarrow>
   start_loop [k..<n] d = finish_scan [k..<n] d"
proof (induction "n - k" arbitrary: k d)
  case (Suc m)
  then have k: "k < n" "[k..<n] = k # [Suc k..<n]"
    by (simp_all add: upt_conv_Cons)
  have step: "(if remaining (nodes d ! k) = 0 then ready k d else d) = scan_node k d"
    using Suc.prems k(1) by (simp add: scan_node_def)
  have "start_loop [Suc k..<n] (scan_node k d) = finish_scan [Suc k..<n] (scan_node k d)"
    using Suc.prems k(1) Suc.hyps(2) by (intro Suc.hyps(1)) (auto simp: step [symmetric])
  then show ?case
    unfolding k(2) using step by simp
qed simp

lemma start_spec:
  assumes "fresh d"
  shows "accounted fs (start d) \<and> evolved d (start d) \<and> queue_ok {} (start d) \<and> settled (start d) \<and>
    result_ok fs (start d) \<and> table_weight (start d) \<le> table_weight d \<and> local_ready (start d) = local_work (start d)"
proof -
  define e where "e = finish_scan [0..<size_of d] d"
  have "start_loop [0..<size_of d] d = e"
    unfolding e_def using assms by (intro start_loop_scan) (auto simp: fresh_def)
  then have s: "start d = refresh_local e"
    by (simp add: start_def)
  have e: "accounted fs e \<and> evolved d e \<and> queue_ok {} e \<and> table_weight e \<le> table_weight d \<and> settled e"
    unfolding e_def by (rule finish_scan_spec) (use fresh_accounted [OF assms] in auto)
  then have "result_ok fs e"
    using assms by (intro result_ok_cong [OF fresh_accounted(3) [OF assms]]) (auto simp: evolved_def fresh_def)
  then have "result_ok fs (refresh_local e)"
    by (rule result_ok_cong) simp_all
  moreover have "accounted fs (refresh_local e)" "queue_ok {} (refresh_local e)"
    using e accounted_nodes [of fs e] queue_ok_nodes [of "{}" e] by auto
  moreover have "table_weight (refresh_local e) = table_weight e" "settled (refresh_local e)"
    using e by (simp_all add: table_weight_def settled_def)
  moreover have "evolved d (refresh_local e)"
    using e evolved_trans [of d e "refresh_local e"] by (simp add: evolved_def [of e])
  ultimately show ?thesis
    using e unfolding s by simp
qed

text \<open>
  C21: the constructor accepts a node table exactly when every node has a body, its predecessor array
  where it claims predecessors, and only predecessors of smaller index; otherwise it raises one of its
  two errors, before any work is published. The table it builds counts every predecessor entry once in
  the inverse adjacency, starts with every node pending, its counter at the number of its predecessor
  entries, and nothing queued or done.
\<close>

theorem dag_new_correct:
  assumes "arrays_ok sp"
  shows "if \<forall>i < length sp. has_body (sp ! i) \<and>
        (predecessor_count (sp ! i) = 0 \<or> predecessors (sp ! i) \<noteq> None) \<and>
        (\<forall>p \<in> set (preds (sp ! i)). p < i)
    then \<exists>d. dag_new sp hs = Inr d \<and> specs d = sp \<and> helpers d = hs \<and> fresh d \<and> accounted fs d
    else \<exists>e. dag_new sp hs = Inl e"
proof (cases "\<forall>i < length sp. spec_ok i (sp ! i)")
  case True
  then have "wf_specs sp"
    using wf_specs_iff [OF assms] by simp
  then show ?thesis
    using dag_new_fresh [OF assms, of hs] fresh_accounted(1) [of _ fs] True by (auto simp: spec_ok_def)
next
  case False
  then obtain k where k: "k < length sp" "\<not> spec_ok (0 + k) (sp ! k)"
    by auto
  have "\<exists>e. dag_new sp hs = Inl e"
    using build_nodes_error [OF k, of "replicate (length sp) new_node"] by (auto simp: dag_new_def)
  then show ?thesis
    using k by (auto simp: spec_ok_def)
qed

definition sample_specs :: "node_spec list" where
  "sample_specs =
    [\<lparr>has_body = True, predecessors = None, predecessor_count = 0, worker_safe = True, has_join = True\<rparr>,
     \<lparr>has_body = True, predecessors = Some [0], predecessor_count = 1, worker_safe = False, has_join = False\<rparr>,
     \<lparr>has_body = True, predecessors = Some [0, 1], predecessor_count = 2, worker_safe = True, has_join = False\<rparr>]"

lemma sample_specs_ok: "arrays_ok sample_specs" "\<forall>i < length sample_specs. spec_ok i (sample_specs ! i)"
  by (auto simp: arrays_ok_def spec_ok_def sample_specs_def preds_def less_Suc_eq numeral_3_eq_3 take_Cons')

theorem dag_new_correct_witness:
  "\<exists>d. dag_new sample_specs 2 = Inr d \<and> specs d = sample_specs \<and> helpers d = 2 \<and> fresh d \<and>
    accounted (\<lambda>_. 0) d"
  using dag_new_correct [OF sample_specs_ok(1), of 2 "\<lambda>_. 0"] sample_specs_ok(2)
  by (simp add: spec_ok_def split: if_splits)

end
