(* ===== verification/Node_Run.thy ===== *)
theory Node_Run
  imports Node_Sections
begin

text \<open>
  The threads of a parallel block. The calling thread runs the loop of \<open>NodeDag::run\<close>, the helpers
  of the pool call \<open>ReadyQueue::help\<close>; each is described by a program counter, and a step of the
  block is one critical section of one thread, with the code before the next lock that touches no
  shared state. A wait on the condition variable is a step that is enabled when its predicate holds:
  every section that changes the predicate notifies afterwards. The bodies and joins of the nodes are
  generated code: the functions \<open>body\<close> and \<open>joined\<close> give the status each returns. Any number of
  helpers and any interleaving is allowed; the queue serves this block only.

  The queue has a lock of its own, so a section that makes several nodes ready can be seen by other
  threads between two pushes. A helper takes the oldest entry, the same one after the section. The
  caller takes the youngest: \<open>complete_taken\<close> is the section of a helper during which the caller takes
  the entry pushed last so far, any one of the nodes the section makes ready. The caller then waits for
  the section to end, as it needs the lock of the table. Every other access between two pushes, a wake
  included, can be moved before or behind the section.
\<close>

section \<open>Threads and steps\<close>

datatype thread = Caller | Helper u64

datatype pc = Starting | Looking | Helping | Waiting | Returned | Idle
  | Taken nat | Executing nat | Joining nat | Publishing bool

record block_run =
  table :: dag
  pcs :: "thread \<Rightarrow> pc"

definition goto :: "thread \<Rightarrow> pc \<Rightarrow> dag \<Rightarrow> block_run \<Rightarrow> block_run" where
  "goto t p d s = \<lparr>table = d, pcs = (pcs s)(t := p)\<rparr>"

definition chosen_pc :: "choice \<Rightarrow> pc" where
  "chosen_pc c = (case c of Join_Node i \<Rightarrow> Joining i | Local_Node i \<Rightarrow> Taken i | No_Choice \<Rightarrow> Helping)"

definition after_publish :: "thread \<Rightarrow> pc" where
  "after_publish t = (if t = Caller then Looking else Idle)"

text \<open>\<open>queue_.wait_for_progress(done_, local_ready_)\<close> returns.\<close>

definition may_wake :: "dag \<Rightarrow> bool" where
  "may_wake d \<longleftrightarrow> dag_done d \<or> last_work (queue d) \<noteq> None \<or> local_ready d"

definition final_status :: "(nat \<Rightarrow> u8) \<Rightarrow> (nat \<Rightarrow> u8 \<Rightarrow> u8) \<Rightarrow> node_spec list \<Rightarrow> nat \<Rightarrow> u8" where
  "final_status body joined sp i = (if has_join (sp ! i) then joined i (body i) else body i)"

inductive step :: "(nat \<Rightarrow> u8) \<Rightarrow> (nat \<Rightarrow> u8 \<Rightarrow> u8) \<Rightarrow> block_run \<Rightarrow> block_run \<Rightarrow> bool"
  for body :: "nat \<Rightarrow> u8" and joined :: "nat \<Rightarrow> u8 \<Rightarrow> u8" where
  begin_run: "pcs s Caller = Starting \<Longrightarrow> nodes (table s) \<noteq> [] \<Longrightarrow>
    step body joined s (goto Caller Looking (start (table s)) s)"
| empty_run: "pcs s Caller = Starting \<Longrightarrow> nodes (table s) = [] \<Longrightarrow>
    step body joined s (goto Caller Returned (table s) s)"
| leave: "pcs s Caller = Looking \<Longrightarrow> dag_done (table s) \<Longrightarrow>
    step body joined s (goto Caller Returned (table s) s)"
| look: "pcs s Caller = Looking \<Longrightarrow> \<not> dag_done (table s) \<Longrightarrow> choose_node (table s) = (c, d) \<Longrightarrow>
    step body joined s (goto Caller (chosen_pc c) d s)"
| no_work: "pcs s Caller = Helping \<Longrightarrow> queue_help (queue (table s)) 0 True = Some (None, q) \<Longrightarrow>
    step body joined s (goto Caller Waiting ((table s)\<lparr>queue := q\<rparr>) s)"
| wake: "pcs s Caller = Waiting \<Longrightarrow> may_wake (table s) \<Longrightarrow>
    step body joined s (goto Caller Looking (table s) s)"
| take_caller: "pcs s Caller = Helping \<Longrightarrow> queue_help (queue (table s)) 0 True = Some (Some i, q) \<Longrightarrow>
    step body joined s (goto Caller (Taken i) ((table s)\<lparr>queue := q\<rparr>) s)"
| take_helper: "pcs s (Helper h) = Idle \<Longrightarrow> queue_help (queue (table s)) h False = Some (Some i, q) \<Longrightarrow>
    step body joined s (goto (Helper h) (Taken i) ((table s)\<lparr>queue := q\<rparr>) s)"
| mark: "pcs s t = Taken i \<Longrightarrow>
    step body joined s (goto t (Executing i) (set_state i Running (table s)) s)"
| hand: "pcs s (Helper h) = Executing i \<Longrightarrow> has_join (specs (table s) ! i) \<Longrightarrow>
    step body joined s (goto (Helper h) (Publishing False) (hand_over i (body i) (table s)) s)"
| complete: "pcs s t = Executing i \<Longrightarrow> t = Caller \<or> \<not> has_join (specs (table s) ! i) \<Longrightarrow>
    finish i (final_status body joined (specs (table s)) i) (table s) = (c, d) \<Longrightarrow>
    step body joined s (goto t (Publishing c) d s)"
| complete_taken: "pcs s (Helper h) = Executing i \<Longrightarrow> \<not> has_join (specs (table s) ! i) \<Longrightarrow> pcs s Caller = Helping \<Longrightarrow>
    finish i (final_status body joined (specs (table s)) i) (table s) = (c, d) \<Longrightarrow>
    k < length (nodes (table s)) \<Longrightarrow> node_state (nodes (table s) ! k) = Pending \<Longrightarrow>
    node_state (nodes d ! k) = Ready \<Longrightarrow> worker d k \<Longrightarrow>
    step body joined s
      (goto Caller (Taken k) (d\<lparr>queue := queue_unlink k (queue d)\<rparr>) (goto (Helper h) (Publishing c) d s))"
| join_node: "pcs s Caller = Joining i \<Longrightarrow>
    finish i (joined i (pending_status (nodes (table s) ! i))) (table s) = (c, d) \<Longrightarrow>
    step body joined s (goto Caller (Publishing c) d s)"
| publish: "pcs s t = Publishing c \<Longrightarrow>
    step body joined s (goto t (after_publish t)
      (if c then (table s)\<lparr>dag_done := True\<rparr> else table s) s)"

inductive_cases step_cases: "step body joined s s'"

definition new_run :: "dag \<Rightarrow> block_run" where
  "new_run d = \<lparr>table = d, pcs = (\<lambda>t. if t = Caller then Starting else Idle)\<rparr>"

text \<open>The reference: the nodes in order on one thread.\<close>

fun run_in_order :: "(nat \<Rightarrow> u8) \<Rightarrow> node_spec list \<Rightarrow> node_state list \<Rightarrow> node_state list" where
  "run_in_order fs [] os = os"
| "run_in_order fs (s # ss) os =
    run_in_order fs ss
      (os @ [if \<exists>p \<in> set (preds s). os ! p \<noteq> Succeeded then Skipped
             else if fs (length os) = 0 then Succeeded else Failed])"

definition first_failure :: "(nat \<Rightarrow> u8) \<Rightarrow> node_state list \<Rightarrow> nat \<times> u8" where
  "first_failure fs os =
    (case find (\<lambda>i. os ! i = Failed) [0..<length os] of None \<Rightarrow> (no_index, 0) | Some i \<Rightarrow> (i, fs i))"

section \<open>The invariant of a block\<close>

fun held :: "pc \<Rightarrow> nat option" where
  "held (Taken i) = Some i" | "held (Executing i) = Some i" | "held (Joining i) = Some i"
| "held _ = None"

definition taken :: "(thread \<Rightarrow> pc) \<Rightarrow> nat set" where
  "taken f = {i. \<exists>t. f t = Taken i}"

definition table_inv :: "(nat \<Rightarrow> u8) \<Rightarrow> nat set \<Rightarrow> dag \<Rightarrow> bool" where
  "table_inv fs T d \<longleftrightarrow> accounted fs d \<and> settled d \<and> result_ok fs d \<and> queue_ok T d \<and>
    local_ready d = local_work d"

fun pc_ok :: "(nat \<Rightarrow> u8) \<Rightarrow> dag \<Rightarrow> thread \<Rightarrow> pc \<Rightarrow> bool" where
  "pc_ok body d t (Taken i) \<longleftrightarrow> i < size_of d \<and>
     (worker d i \<and> state_of d i = Ready \<or> t = Caller \<and> \<not> worker d i \<and> state_of d i = Running)"
| "pc_ok body d t (Executing i) \<longleftrightarrow> i < size_of d \<and> state_of d i = Running \<and> (t = Caller \<or> worker d i)"
| "pc_ok body d t (Joining i) \<longleftrightarrow> i < size_of d \<and> state_of d i = Running \<and> t = Caller \<and>
     has_join (specs d ! i) \<and> pending_status (nodes d ! i) = body i"
| "pc_ok body d t (Publishing c) \<longleftrightarrow> 0 < size_of d \<and> (c \<longrightarrow> (\<forall>i < size_of d. terminal (state_of d i)))"
| "pc_ok body d t Returned \<longleftrightarrow> t = Caller \<and> (dag_done d \<or> nodes d = [])"
| "pc_ok body d t Idle \<longleftrightarrow> t \<noteq> Caller"
| "pc_ok body d t Starting \<longleftrightarrow> False"
| "pc_ok body d t _ \<longleftrightarrow> t = Caller \<and> 0 < size_of d"

definition run_ok :: "(nat \<Rightarrow> u8) \<Rightarrow> (nat \<Rightarrow> u8) \<Rightarrow> (thread \<Rightarrow> pc) \<Rightarrow> dag \<Rightarrow> bool" where
  "run_ok fs body f d \<longleftrightarrow> table_inv fs (taken f) d \<and> (\<forall>t. pc_ok body d t (f t)) \<and>
    (\<forall>t u i. held (f t) = Some i \<and> held (f u) = Some i \<longrightarrow> t = u) \<and>
    (\<forall>i < size_of d. state_of d i = Running \<longrightarrow> (\<exists>t. held (f t) = Some i)) \<and>
    (\<forall>i < size_of d. state_of d i = Finishing \<longrightarrow>
       has_join (specs d ! i) \<and> pending_status (nodes d ! i) = body i) \<and>
    (dag_done d \<longrightarrow> (\<forall>i < size_of d. terminal (state_of d i))) \<and>
    ((\<forall>i < size_of d. terminal (state_of d i)) \<longrightarrow> nodes d \<noteq> [] \<longrightarrow>
       dag_done d \<or> (\<exists>t. f t = Publishing True)) \<and>
    (\<forall>t u. f t = Publishing True \<and> f u = Publishing True \<longrightarrow> t = u) \<and>
    (\<forall>t. f t = Publishing True \<longrightarrow> \<not> dag_done d)"

definition block_ok :: "(nat \<Rightarrow> u8) \<Rightarrow> (nat \<Rightarrow> u8) \<Rightarrow> block_run \<Rightarrow> bool" where
  "block_ok fs body s \<longleftrightarrow>
    (if pcs s Caller = Starting then fresh (table s) \<and> (\<forall>h. pcs s (Helper h) = Idle)
     else run_ok fs body (pcs s) (table s))"

lemma goto_simps [simp]: "table (goto t p d s) = d" "pcs (goto t p d s) = (pcs s)(t := p)"
  by (simp_all add: goto_def)

section \<open>The sections under the invariant\<close>

lemma local_work_states:
  assumes "specs e = specs d" "helpers e = helpers d" "size_of e = size_of d"
    and "\<And>j. j < size_of d \<Longrightarrow> (state_of e j = Finishing) = (state_of d j = Finishing)"
    and "\<And>j. j < size_of d \<Longrightarrow> \<not> worker d j \<Longrightarrow> state_of e j = state_of d j"
  shows "local_work e = local_work d"
proof -
  have "first_finishing e = first_finishing d"
    unfolding first_finishing_def assms(3) using assms(4) by (intro find_cong) auto
  moreover have "first_local e = first_local d"
    unfolding first_local_def assms(3) using assms(5) worker_update [OF assms(1,2)]
    by (intro find_cong) auto
  moreover have "state_of e i = state_of d i" if "first_local d = Some i" for i
    using first_local_Some [OF that] assms(5) by blast
  ultimately show ?thesis
    by (auto simp: local_work_def split: option.split)
qed

text \<open>A node moves between the active states, and the set of taken nodes with it.\<close>

lemma table_inv_active:
  assumes inv: "table_inv fs T d" and i: "i < size_of d" "active (state_of d i)" "active st"
    and e: "specs e = specs d" "helpers e = helpers d" "terminal_count e = terminal_count d"
      "queue e = queue d" "result_index e = result_index d" "result_status e = result_status d"
      "nodes e = (nodes d)[i := (nodes d ! i)\<lparr>pending_status := p, node_state := st\<rparr>]"
    and T: "worker d i \<Longrightarrow> (st = Ready \<and> i \<notin> S) = (state_of d i = Ready \<and> i \<notin> T)"
      "\<And>j. j \<noteq> i \<Longrightarrow> j \<in> S \<longleftrightarrow> j \<in> T"
    and loc: "local_ready e = local_work e"
  shows "table_inv fs S e"
proof -
  have st: "state_of e j = (if j = i then st else state_of d j)"
      and rem: "remaining (nodes e ! j) = remaining (nodes d ! j)" for j
    using i(1) by (simp_all add: e(7) nth_list_update_if)
  have sz: "size_of e = size_of d"
    by (simp add: e(7))
  have d: "accounted fs d" "settled d" "result_ok fs d" "queue_ok T d"
    using inv by (simp_all add: table_inv_def)
  have "accounted fs e"
    by (intro accounted_active [OF d(1) i(1,2) e(1,3,7) i(3)])
  moreover have "settled e"
    unfolding settled_def sz st rem using d(2) i(3) by (auto simp: settled_def active_def)
  moreover have "result_ok fs e"
    using i st by (intro result_ok_cong [OF d(3) sz e(5,6)]) (auto simp: active_def)
  moreover have "queue_ok S e"
  proof (rule queue_ok_cong [OF d(4) e(4,2,1) sz])
    show "(state_of e j = Ready \<and> j \<notin> S) \<longleftrightarrow> (state_of d j = Ready \<and> j \<notin> T)" if "worker d j" for j
      using T(1) T(2) [of j] that unfolding st by (cases "j = i") auto
  qed
  ultimately show ?thesis
    using loc by (simp add: table_inv_def)
qed

lemma table_inv_refresh:
  "table_inv fs T d \<Longrightarrow> table_inv fs T (refresh_local d)"
  using accounted_nodes [of fs d "refresh_local d"] queue_ok_nodes [of T d "refresh_local d"]
    result_ok_cong [of fs d "refresh_local d"]
  by (simp add: table_inv_def settled_def)

lemma table_inv_done: "table_inv fs T d \<Longrightarrow> table_inv fs T (d\<lparr>dag_done := b\<rparr>)"
  using accounted_nodes [of fs d "d\<lparr>dag_done := b\<rparr>"] queue_ok_nodes [of T d "d\<lparr>dag_done := b\<rparr>"]
    result_ok_cong [of fs d "d\<lparr>dag_done := b\<rparr>"] local_work_cong [of "d\<lparr>dag_done := b\<rparr>" d]
  by (simp add: table_inv_def settled_def)

text \<open>Taking an entry off the queue.\<close>

lemma table_inv_unlink:
  assumes inv: "table_inv fs T d" and i: "i < size_of d" "state_of d i = Ready" "worker d i" "i \<notin> T"
  shows "table_inv fs (insert i T) (d\<lparr>queue := queue_unlink i (queue d)\<rparr>)" "queued (works (queue d) i)"
proof -
  obtain xs where xs: "holds (queue d) xs"
      "set xs = {i. i < size_of d \<and> state_of d i = Ready \<and> worker d i \<and> i \<notin> T}"
      "\<And>w. helper_bound (works (queue d) w) = helpers d"
    using inv by (auto simp: table_inv_def queue_ok_def)
  have mem: "i \<in> set xs"
    using i xs(2) by auto
  then show "queued (works (queue d) i)"
    using xs(1) by (simp add: holds_def)
  let ?q = "queue_unlink i (queue d)"
  have "set (remove1 i xs) = {k. k < size_of d \<and> state_of d k = Ready \<and> worker d k \<and> k \<notin> insert i T}"
    using xs(1,2) by (auto simp: holds_def)
  then have "queue_ok (insert i T) (d\<lparr>queue := ?q\<rparr>)"
    using rq.holds_remove [OF xs(1) mem] xs(3) by (auto simp: queue_ok_def worker_def)
  moreover have "accounted fs (d\<lparr>queue := ?q\<rparr>)" "result_ok fs (d\<lparr>queue := ?q\<rparr>)"
      "local_work (d\<lparr>queue := ?q\<rparr>) = local_work d"
    using inv accounted_nodes [of fs d "d\<lparr>queue := ?q\<rparr>"] result_ok_cong [of fs d "d\<lparr>queue := ?q\<rparr>"]
      local_work_cong [of "d\<lparr>queue := ?q\<rparr>" d] by (simp_all add: table_inv_def)
  ultimately show "table_inv fs (insert i T) (d\<lparr>queue := ?q\<rparr>)"
    using inv by (simp add: table_inv_def settled_def)
qed

lemma table_inv_take:
  assumes inv: "table_inv fs T d" and h: "queue_help (queue d) n j = Some (Some i, q)"
  shows "i < size_of d" "state_of d i = Ready" "worker d i" "i \<notin> T"
    "table_inv fs (insert i T) (d\<lparr>queue := q\<rparr>)"
    "\<not> j \<Longrightarrow> n < helpers d" "queued (works (queue d) i)" "q = queue_unlink i (queue d)"
proof -
  obtain xs where xs: "holds (queue d) xs"
      "set xs = {i. i < size_of d \<and> state_of d i = Ready \<and> worker d i \<and> i \<notin> T}"
      "\<And>w. helper_bound (works (queue d) w) = helpers d"
    using inv by (auto simp: table_inv_def queue_ok_def)
  note q = queue_help_holds [OF xs(1) h]
  show i: "i < size_of d" "state_of d i = Ready" "worker d i" "i \<notin> T"
    using q(1) xs(2) by auto
  show "\<not> j \<Longrightarrow> n < helpers d"
    using q(3) xs(3) by auto
  show unlink: "q = queue_unlink i (queue d)"
    using h by (auto simp: queue_help_def split: option.splits)
  show "table_inv fs (insert i T) (d\<lparr>queue := q\<rparr>)" "queued (works (queue d) i)"
    unfolding unlink by (rule table_inv_unlink [OF inv i])+
qed

lemma queue_help_none:
  assumes "table_inv fs T d" "queue_help (queue d) 0 True = Some (None, q)"
  shows "q = queue d" "last_work (queue d) = None"
  using assms(2) by (auto simp: queue_help_def queue_select_def split: option.splits)

text \<open>The marking of a taken node, and the change of a running node to finishing.\<close>

lemma table_inv_mark:
  assumes inv: "table_inv fs T d" and i: "i < size_of d" "worker d i" "state_of d i = Ready" "i \<in> T"
  shows "table_inv fs (T - {i}) (set_state i Running d)"
proof (rule table_inv_active [OF inv i(1)])
  have "local_work (set_state i Running d) = local_work d"
    using i by (intro local_work_states) auto
  then show "local_ready (set_state i Running d) = local_work (set_state i Running d)"
    using inv by (simp add: table_inv_def set_state_def)
  show "nodes (set_state i Running d) =
      (nodes d)[i := (nodes d ! i)\<lparr>pending_status := pending_status (nodes d ! i), node_state := Running\<rparr>]"
    by (simp add: set_state_def)
qed (use i in \<open>auto simp: active_def\<close>)

lemma table_inv_hand:
  assumes inv: "table_inv fs T d" and i: "i < size_of d" "state_of d i = Running"
  shows "table_inv fs T (hand_over i p d)"
  by (rule table_inv_active [OF inv i(1), where p = p and st = Finishing])
    (use i in \<open>auto simp: active_def hand_over_def\<close>)

lemma table_inv_choose:
  assumes inv: "table_inv fs T d" and i: "i < size_of d" "\<not> worker d i \<or> state_of d i = Finishing"
    and a: "active (state_of d i)" and S: "\<And>j. j \<noteq> i \<Longrightarrow> j \<in> S \<longleftrightarrow> j \<in> T"
  shows "table_inv fs S (refresh_local (set_state i Running d))"
proof (rule table_inv_active [OF inv i(1) a])
  show "nodes (refresh_local (set_state i Running d)) =
      (nodes d)[i := (nodes d ! i)\<lparr>pending_status := pending_status (nodes d ! i), node_state := Running\<rparr>]"
    by (simp add: set_state_def)
  show "j \<in> S \<longleftrightarrow> j \<in> T" if "j \<noteq> i" for j
    using S that .
qed (use i in \<open>auto simp: active_def\<close>)

lemma table_inv_own:
  assumes "table_inv fs T d" "\<not> worker d i"
  shows "table_inv fs (T - {i}) d"
  using assms queue_ok_cong [of T d d "T - {i}"] unfolding table_inv_def by blast

section \<open>Every step keeps the invariant\<close>

lemma taken_same:
  "(\<And>i. f t \<noteq> Taken i) \<Longrightarrow> (\<And>i. p \<noteq> Taken i) \<Longrightarrow> taken (f(t := p)) = taken f"
  unfolding taken_def by (auto split: if_splits) metis

lemma taken_insert: "(\<And>i. f t \<noteq> Taken i) \<Longrightarrow> taken (f(t := Taken i)) = insert i (taken f)"
  unfolding taken_def by (auto split: if_splits) (metis fun_upd_apply)

lemma taken_remove:
  "f t = Taken i \<Longrightarrow> (\<And>u. held (f u) = Some i \<Longrightarrow> u = t) \<Longrightarrow> (\<And>j. p \<noteq> Taken j) \<Longrightarrow>
   taken (f(t := p)) = taken f - {i}"
  unfolding taken_def by (auto split: if_splits) (metis held.simps(1) pc.inject(1))+

lemma pc_ok_frame:
  assumes "pc_ok body d u p" "specs e = specs d" "helpers e = helpers d" "size_of e = size_of d"
    "dag_done d \<Longrightarrow> dag_done e"
    "\<And>i. held p = Some i \<Longrightarrow> state_of e i = state_of d i \<and>
       pending_status (nodes e ! i) = pending_status (nodes d ! i)"
    "\<And>i. i < size_of d \<Longrightarrow> terminal (state_of d i) \<Longrightarrow> terminal (state_of e i)"
  shows "pc_ok body e u p"
  using assms worker_update [OF assms(2,3)] by (cases p) auto

lemma run_okD:
  assumes "run_ok fs body f d"
  shows "table_inv fs (taken f) d" "pc_ok body d t (f t)"
    "held (f t) = Some i \<Longrightarrow> held (f u) = Some i \<Longrightarrow> u = t"
    "i < size_of d \<Longrightarrow> state_of d i = Running \<Longrightarrow> \<exists>t. held (f t) = Some i"
    "i < size_of d \<Longrightarrow> state_of d i = Finishing \<Longrightarrow>
       has_join (specs d ! i) \<and> pending_status (nodes d ! i) = body i"
    "dag_done d \<Longrightarrow> i < size_of d \<Longrightarrow> terminal (state_of d i)"
    "(\<And>i. i < size_of d \<Longrightarrow> terminal (state_of d i)) \<Longrightarrow> nodes d \<noteq> [] \<Longrightarrow>
       dag_done d \<or> (\<exists>t. f t = Publishing True)"
    "f t = Publishing True \<Longrightarrow> f u = Publishing True \<Longrightarrow> u = t"
    "f t = Publishing True \<Longrightarrow> \<not> dag_done d"
  using assms unfolding run_ok_def by (blast, blast, metis, blast, blast, blast, blast, metis, metis)

lemma held_state:
  "run_ok fs body f d \<Longrightarrow> held (f t) = Some i \<Longrightarrow> i < size_of d \<and> (state_of d i = Ready \<or> state_of d i = Running)"
  using run_okD(2) [of fs body f d t] by (cases "f t") auto

lemma held_not_done: "run_ok fs body f d \<Longrightarrow> held (f t) = Some i \<Longrightarrow> \<not> dag_done d"
  using held_state [of fs body f d t i] run_okD(6) [of fs body f d i] by auto

text \<open>One thread moves; the others keep what they hold.\<close>

lemma run_ok_goto:
  assumes ok: "run_ok fs body f d"
    and e: "specs e = specs d" "helpers e = helpers d" "size_of e = size_of d" "dag_done d \<Longrightarrow> dag_done e"
    and inv: "table_inv fs (taken (f(t := p))) e"
    and pc: "pc_ok body e t p"
    and frame: "\<And>u i. u \<noteq> t \<Longrightarrow> held (f u) = Some i \<Longrightarrow> state_of e i = state_of d i \<and>
      pending_status (nodes e ! i) = pending_status (nodes d ! i)"
    and ends: "\<And>i. i < size_of d \<Longrightarrow> terminal (state_of d i) \<Longrightarrow> terminal (state_of e i)"
    and holding: "\<And>i. held p = Some i \<Longrightarrow> held (f t) = Some i \<or> (\<forall>u. held (f u) \<noteq> Some i)"
    and running: "\<And>i. i < size_of d \<Longrightarrow> state_of e i = Running \<Longrightarrow>
      held p = Some i \<or> state_of d i = Running \<and> held (f t) \<noteq> Some i"
    and finishing: "\<And>i. i < size_of d \<Longrightarrow> state_of e i = Finishing \<Longrightarrow>
      has_join (specs d ! i) \<and> pending_status (nodes e ! i) = body i"
    and over: "\<And>i. dag_done e \<Longrightarrow> i < size_of d \<Longrightarrow> terminal (state_of e i)"
    and all_ended: "(\<And>i. i < size_of d \<Longrightarrow> terminal (state_of e i)) \<Longrightarrow> nodes d \<noteq> [] \<Longrightarrow>
      dag_done e \<or> p = Publishing True \<or> (\<forall>i < size_of d. terminal (state_of d i)) \<and> f t \<noteq> Publishing True \<or>
      (\<exists>i < size_of d. \<not> terminal (state_of e i))"
    and publishing: "p = Publishing True \<Longrightarrow> \<not> dag_done e \<and> (\<forall>u. f u \<noteq> Publishing True)"
    and flag: "dag_done e \<Longrightarrow> dag_done d \<or> f t = Publishing True"
  shows "run_ok fs body (f(t := p)) e"
proof -
  have ne: "nodes e \<noteq> [] \<longleftrightarrow> nodes d \<noteq> []"
    using e(3) by (metis length_0_conv)
  have "pc_ok body e u ((f(t := p)) u)" for u
    using pc pc_ok_frame [OF run_okD(2) [OF ok, of u] e] frame [of u] ends by (cases "u = t") auto
  moreover have "u = v" if "held ((f(t := p)) u) = Some i" "held ((f(t := p)) v) = Some i" for u v i
    using that holding [of i] run_okD(3) [OF ok] by (auto split: if_splits)
  moreover have "\<exists>u. held ((f(t := p)) u) = Some i" if "i < size_of d" "state_of e i = Running" for i
    using running [OF that] run_okD(4) [OF ok that(1)] by (metis fun_upd_apply)
  moreover have "dag_done e \<or> (\<exists>u. (f(t := p)) u = Publishing True)"
    if "\<forall>i < size_of e. terminal (state_of e i)" "nodes e \<noteq> []"
  proof -
    have ended: "terminal (state_of e i)" if "i < size_of d" for i
      using \<open>\<forall>i < size_of e. terminal (state_of e i)\<close> that e(3) by simp
    from all_ended [OF this] that(2) ne
    consider "dag_done e" | "p = Publishing True"
      | "\<forall>i < size_of d. terminal (state_of d i)" "f t \<noteq> Publishing True"
      using ended by blast
    then show ?thesis
      using run_okD(7) [OF ok] that(2) ne e(4) by cases (auto, metis)
  qed
  moreover have "u = v" if "(f(t := p)) u = Publishing True" "(f(t := p)) v = Publishing True" for u v
    using that publishing run_okD(8) [OF ok] by (auto split: if_splits)
  moreover have "\<not> dag_done e" if "(f(t := p)) u = Publishing True" for u
    using that publishing flag run_okD(8,9) [OF ok] by (auto split: if_splits)
  ultimately show ?thesis
    using inv finishing over unfolding run_ok_def e(1,3) by blast
qed

text \<open>The sections, one lemma each.\<close>

lemma table_inv_specs: "table_inv fs T d \<Longrightarrow> length (specs d) = size_of d"
  by (auto simp: table_inv_def intro: accountedD)

lemma run_ok_move:
  assumes ok: "run_ok fs body f d" and "held p = None" "held (f t) = None" "f t \<noteq> Publishing True"
    "p \<noteq> Publishing True" "pc_ok body d t p"
  shows "run_ok fs body (f(t := p)) d"
proof (rule run_ok_goto [OF ok])
  have "taken (f(t := p)) = taken f"
    using assms by (intro taken_same) auto
  then show "table_inv fs (taken (f(t := p))) d"
    using run_okD(1) [OF ok] by simp
qed (use assms run_okD(5,6) [OF ok] in auto)

lemma run_ok_unlink:
  assumes ok: "run_ok fs body f d" and t: "held (f t) = None" "f t \<noteq> Publishing True"
    and i: "i < size_of d" "state_of d i = Ready" "worker d i" "i \<notin> taken f"
  shows "run_ok fs body (f(t := Taken i)) (d\<lparr>queue := queue_unlink i (queue d)\<rparr>)" (is "run_ok _ _ _ ?e")
proof (rule run_ok_goto [OF ok])
  show "table_inv fs (taken (f(t := Taken i))) ?e"
    using table_inv_unlink(1) [OF run_okD(1) [OF ok] i] t(1) by (subst taken_insert) auto
  show "pc_ok body ?e t (Taken i)"
    using i by (simp add: worker_def)
  have "held (f u) \<noteq> Some i" for u
    using run_okD(2) [OF ok, of u] i(2,4) by (cases "f u") (auto simp: taken_def)
  then show "held (f t) = Some k \<or> (\<forall>u. held (f u) \<noteq> Some k)" if "held (Taken i) = Some k" for k
    using that by auto
qed (use t run_okD(5,6) [OF ok] in auto)

lemma run_ok_take:
  assumes ok: "run_ok fs body f d" and t: "held (f t) = None" "f t \<noteq> Publishing True"
    and h: "queue_help (queue d) n j = Some (Some i, q)"
  shows "run_ok fs body (f(t := Taken i)) (d\<lparr>queue := q\<rparr>)"
  using run_ok_unlink [OF ok t] table_inv_take [OF run_okD(1) [OF ok] h] by simp

lemma run_ok_choose:
  assumes ok: "run_ok fs body f d" and f: "f Caller = Looking" "\<not> dag_done d"
    and c: "choose_node d = (c, e)"
  shows "run_ok fs body (f(Caller := chosen_pc c)) e"
  using c
proof (cases rule: choose_node_cases [of d])
  case (join i)
  then have ce: "c = Join_Node i" "e = refresh_local (set_state i Running d)"
    using c by auto
  have "held (f u) \<noteq> Some i" for u
    using held_state [OF ok, of u i] join by auto
  moreover have "taken (f(Caller := Joining i)) = taken f"
    using f by (intro taken_same) auto
  moreover have "table_inv fs (taken f) e"
    unfolding ce using join by (intro table_inv_choose [OF run_okD(1) [OF ok]]) (auto simp: active_def)
  moreover have "\<exists>k < size_of d. \<not> terminal (state_of e k)"
    unfolding ce using join by (intro exI [of _ i]) simp
  ultimately show ?thesis
    unfolding ce chosen_pc_def using join f run_okD(5,6) [OF ok]
    by (intro run_ok_goto [OF ok]) (auto split: if_splits)
next
  case (own i)
  then have ce: "c = Local_Node i" "e = refresh_local (set_state i Running d)"
    using c by auto
  have "held (f u) \<noteq> Some i" for u
    using run_okD(2) [OF ok, of u] own by (cases "f u") auto
  moreover have "taken (f(Caller := Taken i)) = insert i (taken f)"
    using f by (intro taken_insert) auto
  moreover have "table_inv fs (insert i (taken f)) e"
    unfolding ce using own by (intro table_inv_choose [OF run_okD(1) [OF ok]]) (auto simp: active_def)
  moreover have "\<exists>k < size_of d. \<not> terminal (state_of e k)"
    unfolding ce using own by (intro exI [of _ i]) simp
  moreover have "worker e i = worker d i"
    unfolding ce by (rule worker_update) auto
  ultimately show ?thesis
    unfolding ce chosen_pc_def using own f run_okD(5,6) [OF ok]
    by (intro run_ok_goto [OF ok]) (auto split: if_splits)
next
  case none
  then have ce: "c = No_Choice" "e = refresh_local d"
    using c by auto
  have "taken (f(Caller := Helping)) = taken f"
    using f by (intro taken_same) auto
  moreover have "table_inv fs (taken f) e"
    unfolding ce by (rule table_inv_refresh [OF run_okD(1) [OF ok]])
  ultimately show ?thesis
    unfolding ce chosen_pc_def using f run_okD(2) [OF ok, of Caller] run_okD(5,6) [OF ok] by (intro run_ok_goto [OF ok]) auto
qed

lemma set_state_same: "state_of d i = st \<Longrightarrow> set_state i st d = d"
proof -
  assume "state_of d i = st"
  then have "(nodes d ! i)\<lparr>node_state := st\<rparr> = nodes d ! i"
    by (cases "nodes d ! i") simp
  then show ?thesis
    by (cases d) (simp add: set_state_def)
qed

lemma run_ok_mark:
  assumes ok: "run_ok fs body f d" and f: "f t = Taken i"
  shows "run_ok fs body (f(t := Executing i)) (set_state i Running d)"
proof -
  have i: "i < size_of d" "i \<in> taken f"
    using run_okD(2) [OF ok, of t] f by (auto simp: taken_def)
  have tk: "taken (f(t := Executing i)) = taken f - {i}"
    by (rule taken_remove [where f = f, OF f]) (use run_okD(3) [OF ok, of t i] f in auto)
  have inv: "table_inv fs (taken f - {i}) (set_state i Running d)"
  proof (cases "worker d i")
    case True
    then show ?thesis
      using run_okD(1,2) [OF ok] f i by (intro table_inv_mark) (metis pc_ok.simps(1))+
  next
    case False
    then have "state_of d i = Running"
      using run_okD(2) [OF ok, of t] f by auto
    then have "set_state i Running d = d"
      by (rule set_state_same)
    then show ?thesis
      using table_inv_own [OF run_okD(1) [OF ok] False] by simp
  qed
  have other: "u = t" if "held (f u) = Some i" for u
    using run_okD(3) [OF ok, of t i u] f that by auto
  have "\<not> dag_done d"
    using held_not_done [OF ok, of t i] f by simp
  then show ?thesis
    by (intro run_ok_goto [OF ok])
      (use inv tk i other f run_okD(2) [OF ok, of t] run_okD(5,6) [OF ok] in \<open>auto split: if_splits\<close>)
qed

lemma run_ok_hand:
  assumes ok: "run_ok fs body f d" and f: "f (Helper h) = Executing i" "has_join (specs d ! i)"
  shows "run_ok fs body (f(Helper h := Publishing False)) (hand_over i (body i) d)"
proof -
  let ?e = "hand_over i (body i) d"
  have i: "i < size_of d" "state_of d i = Running"
    using run_okD(2) [OF ok, of "Helper h"] f by auto
  have e: "specs ?e = specs d" "helpers ?e = helpers d" "size_of ?e = size_of d" "dag_done ?e = dag_done d"
    by (simp_all add: hand_over_def)
  have st: "state_of ?e j = (if j = i then Finishing else state_of d j)"
    "pending_status (nodes ?e ! j) = (if j = i then body i else pending_status (nodes d ! j))" for j
    using i(1) by (simp_all add: hand_over_def nth_list_update_if)
  have other: "u = Helper h" if "held (f u) = Some i" for u
    using run_okD(3) [OF ok, of "Helper h" i u] f that by auto
  have "table_inv fs (taken (f(Helper h := Publishing False))) ?e"
    using table_inv_hand [OF run_okD(1) [OF ok] i] f by (subst taken_same) auto
  moreover have "\<exists>k < size_of d. \<not> terminal (state_of ?e k)"
    using i(1) st(1) by (intro exI [of _ i]) simp
  moreover have "\<not> dag_done d"
    using held_not_done [OF ok, of "Helper h" i] f by simp
  ultimately show ?thesis
    using i f st e other run_okD(5,6) [OF ok] by (intro run_ok_goto [OF ok]) (auto split: if_splits)
qed

lemma finish_premises:
  assumes ok: "run_ok fs body f d" and f: "f t = Executing i \<or> f t = Joining i"
  shows "accounted fs d" "i < size_of d" "state_of d i = Running" "settled d" "result_ok fs d"
    "queue_ok (taken f) d" "\<forall>k \<in> taken f. k < size_of d \<longrightarrow> state_of d k \<noteq> Pending" "held (f t) = Some i"
proof -
  show "i < size_of d" "state_of d i = Running" "held (f t) = Some i"
    using run_okD(2) [OF ok, of t] f by auto
  show "accounted fs d" "settled d" "result_ok fs d" "queue_ok (taken f) d"
    using run_okD(1) [OF ok] by (simp_all add: table_inv_def)
  show "\<forall>k \<in> taken f. k < size_of d \<longrightarrow> state_of d k \<noteq> Pending"
  proof (intro ballI impI)
    fix k assume "k \<in> taken f"
    then obtain u where "f u = Taken k"
      by (auto simp: taken_def)
    then show "state_of d k \<noteq> Pending"
      using held_state [OF ok, of u k] by auto
  qed
qed

lemmas finish_running = finish_spec [OF finish_premises(1-7)]

lemma run_ok_finish:
  assumes ok: "run_ok fs body f d" and f: "f t = Executing i \<or> f t = Joining i"
    and fin: "finish i (fs i) d = (c, e)"
  shows "run_ok fs body (f(t := Publishing c)) e"
proof -
  note i = finish_premises(2,3,8) [OF ok f]
  note s = finish_running [OF ok f ok f ok f ok f ok f ok f ok f fin]
  have other: "u = t" if "held (f u) = Some i" for u
    using run_okD(3) [OF ok, of t i u] i(3) that by auto
  have keep: "state_of e j = state_of d j" if "j < size_of d" "j \<noteq> i" "state_of d j \<noteq> Pending" for j
    using s(13) [OF that(1)] that by simp
  have new: "state_of e j = Pending \<or> state_of e j = Ready \<or> terminal (state_of e j) \<or>
      j \<noteq> i \<and> state_of e j = state_of d j" if "j < size_of d" for j
    using s(13,14) [OF that] i(2) by (auto split: if_splits)
  show ?thesis
  proof (rule run_ok_goto [OF ok s(8,9,11)])
    have "taken (f(t := Publishing c)) = taken f"
      using f by (intro taken_same) auto
    then show "table_inv fs (taken (f(t := Publishing c))) e"
      using s by (simp add: table_inv_def)
    show "pc_ok body e t (Publishing c)"
      using s(7,11) i(1) by (cases c) auto
    show "state_of e j = state_of d j \<and> pending_status (nodes e ! j) = pending_status (nodes d ! j)"
      if "u \<noteq> t" "held (f u) = Some j" for u j
    proof -
      have j: "j < size_of d" "j \<noteq> i" "state_of d j \<noteq> Pending"
        using held_state [OF ok that(2)] other [of u] that by auto
      show ?thesis
        using keep [OF j] s(12) [OF j(1)] by simp
    qed
    show "terminal (state_of e j)" if "j < size_of d" "terminal (state_of d j)" for j
    proof -
      have "j \<noteq> i" "state_of d j \<noteq> Pending"
        using that(2) i(2) by auto
      then show ?thesis
        using keep [OF that(1)] that(2) by simp
    qed
    show "held (Publishing c) = Some j \<or> state_of d j = Running \<and> held (f t) \<noteq> Some j"
      if "j < size_of d" "state_of e j = Running" for j
      using new [OF that(1)] that(2) i(3) by auto
    show "has_join (specs d ! j) \<and> pending_status (nodes e ! j) = body j"
      if "j < size_of d" "state_of e j = Finishing" for j
      using new [OF that(1)] that(2) run_okD(5) [OF ok that(1)] s(12) [OF that(1)] by auto
    show "terminal (state_of e j)" if "dag_done e" "j < size_of d" for j
      using run_okD(6) [OF ok, of i] that(1) i s(10) by simp
    show "dag_done e \<or> Publishing c = Publishing True \<or> (\<forall>i < size_of d. terminal (state_of d i)) \<and>
        f t \<noteq> Publishing True \<or> (\<exists>i < size_of d. \<not> terminal (state_of e i))"
      using s(7,11) by auto
    have "f u \<noteq> Publishing True" for u
    proof
      assume "f u = Publishing True"
      then have "terminal (state_of d i)"
        using run_okD(2) [OF ok, of u] i(1) by auto
      then show False
        using i(2) by simp
    qed
    then show "\<not> dag_done e \<and> (\<forall>u. f u \<noteq> Publishing True)"
      using held_not_done [OF ok i(3)] s(10) by simp
  qed (use s(10) in auto)
qed

lemma run_ok_publish:
  assumes ok: "run_ok fs body f d" and f: "f t = Publishing c"
  shows "run_ok fs body (f(t := after_publish t)) (if c then d\<lparr>dag_done := True\<rparr> else d)"
proof -
  let ?e = "if c then d\<lparr>dag_done := True\<rparr> else d"
  have tk: "taken (f(t := after_publish t)) = taken f"
    using f by (intro taken_same) (auto simp: after_publish_def)
  have c: "\<forall>i < size_of d. terminal (state_of d i)" if c
    using run_okD(2) [OF ok, of t] f that by simp
  have "table_inv fs (taken f) ?e"
    using run_okD(1) [OF ok] table_inv_done by simp
  moreover have "0 < size_of d"
    using run_okD(2) [OF ok, of t] f by simp
  ultimately show ?thesis
    using tk c f run_okD(5,6) [OF ok]
    by (intro run_ok_goto [OF ok]) (auto simp: after_publish_def split: if_splits)
qed

lemma run_ok_start:
  assumes "fresh d" "\<And>h. f (Helper h) = Idle" "nodes d \<noteq> []"
  shows "run_ok fs body (f(Caller := Looking)) (start d)"
proof -
  let ?f = "f(Caller := Looking)"
  have f: "?f t = (if t = Caller then Looking else Idle)" for t
    using assms(2) by (cases t) auto
  have s: "accounted fs (start d)" "evolved d (start d)" "queue_ok {} (start d)" "settled (start d)"
      "result_ok fs (start d)" "local_ready (start d) = local_work (start d)"
    using start_spec [OF assms(1)] by auto
  have st: "state_of (start d) j \<in> {Pending, Ready, Skipped}" if "j < size_of d" for j
    using s(2) assms(1) that by (simp add: evolved_def fresh_def)
  have sz: "size_of (start d) = size_of d" "dag_done (start d) = dag_done d" "nodes (start d) \<noteq> []"
    using s(2) assms(3) by (auto simp: evolved_def)
  have "\<not> terminal (state_of (start d) 0)"
  proof
    assume t: "terminal (state_of (start d) 0)"
    have n: "0 < size_of (start d)"
      using sz assms(3) by simp
    have "preds_of (start d) 0 = []"
      using pred_less [OF accountedD(1) [OF s(1)] n] by (cases "preds_of (start d) 0") auto
    then show False
      using accountedD(6) [OF s(1) n] t st [of 0] n sz(1) by (auto simp: node_ok_def)
  qed
  moreover have "0 < size_of d"
    using assms(3) by simp
  moreover have "state_of (start d) j \<noteq> Running" "state_of (start d) j \<noteq> Finishing" if "j < size_of d" for j
    using st [OF that] by auto
  moreover have "taken ?f = {}"
    unfolding taken_def f by auto
  ultimately show ?thesis
    unfolding run_ok_def table_inv_def f using s sz assms(1) by (auto simp: fresh_def split: if_splits)
qed

end
