(* ===== verification/Node_Progress.thy ===== *)
theory Node_Progress
  imports Node_Run
begin

text \<open>
  The properties of a parallel block over all interleavings of its threads: what a running node may
  rely on, what the block returns, and that it returns.
\<close>

section \<open>The invariant along a run\<close>

definition statuses :: "(nat \<Rightarrow> u8) \<Rightarrow> (nat \<Rightarrow> u8 \<Rightarrow> u8) \<Rightarrow> block_run \<Rightarrow> nat \<Rightarrow> u8" where
  "statuses body joined s = final_status body joined (specs (table s))"

lemma final_status_of:
  "run_ok fs body f d \<Longrightarrow> f t = Joining i \<Longrightarrow>
   joined i (pending_status (nodes d ! i)) = final_status body joined (specs d) i"
  using run_okD(2) [of fs body f d t] by (simp add: final_status_def)

lemma run_ok_empty:
  assumes "fresh d" "\<And>h. f (Helper h) = Idle" "nodes d = []"
  shows "run_ok fs body (f(Caller := Returned)) d"
proof -
  let ?f = "f(Caller := Returned)"
  have f: "?f t = (if t = Caller then Returned else Idle)" for t
    using assms(2) by (cases t) auto
  have "taken ?f = {}"
    unfolding taken_def f by auto
  then show ?thesis
    unfolding run_ok_def table_inv_def f using fresh_accounted [OF assms(1)] assms(1,3)
    by (auto simp: fresh_def settled_def local_work_def first_finishing_def first_local_def)
qed

lemma queue_help_fresh: "fresh d \<Longrightarrow> queue_help (queue d) n False \<noteq> Some (Some i, q)"
  using rq.pick_help [OF holds_empty, of "\<lambda>_. helpers d" n] by (auto simp: fresh_def queue_help_def)

lemma step_block_ok:
  assumes "step body joined s s'" "block_ok (statuses body joined s) body s"
  shows "block_ok (statuses body joined s) body s' \<and> specs (table s') = specs (table s) \<and>
    size_of (table s') = size_of (table s) \<and> helpers (table s') = helpers (table s)"
proof -
  let ?fs = "statuses body joined s" and ?d = "table s" and ?f = "pcs s"
  have run: "run_ok ?fs body ?f ?d" if "?f Caller \<noteq> Starting"
    using assms(2) that by (simp add: block_ok_def)
  have helper: "?f Caller \<noteq> Starting" if "?f (Helper h) \<noteq> Idle" for h
    using assms(2) that by (auto simp: block_ok_def)
  have any: "?f Caller \<noteq> Starting" if "?f t \<noteq> Starting" "?f t \<noteq> Idle" for t
    using that helper by (cases t) auto
  have new: "block_ok ?fs body (goto t p d s)"
    if "run_ok ?fs body (?f(t := p)) d" for t p d
    using run_okD(2) [OF that, of Caller] that
    by (cases "(?f(t := p)) Caller = Starting") (auto simp: block_ok_def)
  have fin: "block_ok ?fs body (goto t (Publishing c) d s) \<and> specs d = specs ?d \<and> size_of d = size_of ?d \<and>
      helpers d = helpers ?d"
    if f: "?f t = Executing i \<or> ?f t = Joining i" and fin: "finish i (?fs i) ?d = (c, d)" for t i c d
  proof -
    have ok: "run_ok ?fs body ?f ?d"
      using run any [of t] f by auto
    show ?thesis
      using new [OF run_ok_finish [OF ok f fin]] finish_running(8,9,11) [OF ok f ok f ok f ok f ok f ok f ok f fin]
      by simp
  qed
  show ?thesis
    using assms(1)
  proof (cases rule: step.cases)
    case begin_run
    then have f: "fresh ?d" "\<And>h. ?f (Helper h) = Idle"
      using assms(2) by (auto simp: block_ok_def)
    then show ?thesis
      using begin_run new [OF run_ok_start [where f = ?f, OF f begin_run(3)]] start_spec [OF f(1), of ?fs]
      by (auto simp: evolved_def)
  next
    case empty_run
    then have f: "fresh ?d" "\<And>h. ?f (Helper h) = Idle"
      using assms(2) by (auto simp: block_ok_def)
    then show ?thesis
      using empty_run new [OF run_ok_empty [where f = ?f, OF f empty_run(3)]] by auto
  next
    case leave
    then show ?thesis
      using new [OF run_ok_move [OF run, of Returned Caller]] by auto
  next
    case (look c d)
    then show ?thesis
      using new [OF run_ok_choose [OF run]] by (cases rule: choose_node_cases [of ?d]) auto
  next
    case (no_work q)
    then have "q = queue ?d"
      using queue_help_none run_okD(1) [OF run] by auto
    then show ?thesis
      using no_work new [OF run_ok_move [OF run, of Waiting Caller]] run_okD(2) [OF run, of Caller] by auto
  next
    case wake
    then show ?thesis
      using new [OF run_ok_move [OF run, of Looking Caller]] run_okD(2) [OF run, of Caller] by auto
  next
    case (take_caller i q)
    then show ?thesis
      using new [OF run_ok_take [OF run _ _ take_caller(3)]] by auto
  next
    case (take_helper h i q)
    then have "?f Caller \<noteq> Starting"
      using assms(2) queue_help_fresh [of ?d] by (auto simp: block_ok_def)
    then show ?thesis
      using take_helper new [OF run_ok_take [OF run _ _ take_helper(3)]] by auto
  next
    case (mark t i)
    then show ?thesis
      using any [of t] new [OF run_ok_mark [OF run]] by auto
  next
    case (hand h i)
    then show ?thesis
      using any [of "Helper h"] new [OF run_ok_hand [OF run]] by (auto simp: hand_over_def)
  next
    case (complete t i c d)
    then show ?thesis
      using fin [of t i c d] by (simp add: statuses_def)
  next
    case (complete_taken h i c d k)
    have ok: "run_ok ?fs body ?f ?d" and k: "k < size_of ?d" "state_of ?d k = Pending"
      using any [of "Helper h"] run complete_taken by auto
    let ?g = "?f(Helper h := Publishing c)"
    have f: "?f (Helper h) = Executing i \<or> ?f (Helper h) = Joining i" and fi: "finish i (?fs i) ?d = (c, d)"
      using complete_taken by (simp_all add: statuses_def)
    note g = run_ok_finish [OF ok f fi] and same = fin [OF f fi]
    have "k \<notin> taken ?g"
      using held_state [OF ok, of _ k] k(2) by (auto simp: taken_def split: if_splits) (metis held.simps(1) node_state.distinct)
    then have "run_ok ?fs body (?g(Caller := Taken k)) (d\<lparr>queue := queue_unlink k (queue d)\<rparr>)"
      using complete_taken same by (intro run_ok_unlink [OF g]) auto
    then show ?thesis
      using complete_taken same by (auto simp: block_ok_def)
  next
    case (join_node i c d)
    then show ?thesis
      using fin [of Caller i c d] final_status_of [OF run, of Caller i joined] by (simp add: statuses_def)
  next
    case (publish t c)
    then show ?thesis
      using any [of t] new [OF run_ok_publish [OF run]] by auto
  qed
qed

text \<open>A caller that has returned takes no further step of the block.\<close>

lemma returned_stays: "step body joined s s' \<Longrightarrow> pcs s Caller = Returned \<Longrightarrow> pcs s' Caller = Returned"
  by (elim step_cases) (auto simp: after_publish_def)

section \<open>Some thread can always move\<close>

lemma waiting_wakes:
  assumes ok: "run_ok fs body f d" and idle: "\<And>h. f (Helper h) = Idle" and f: "f Caller = Waiting"
  shows "may_wake d"
proof (rule ccontr)
  assume w: "\<not> may_wake d"
  have pc: "f t = (if t = Caller then Waiting else Idle)" for t
    using idle f by (cases t) auto
  have inv: "accounted fs d" "settled d" "queue_ok (taken f) d" "local_ready d = local_work d"
    using run_okD(1) [OF ok] by (simp_all add: table_inv_def)
  have no_local: "\<not> local_work d"
    using w inv(4) by (simp add: may_wake_def)
  have "taken f = {}"
    unfolding taken_def pc by auto
  then obtain xs where xs: "holds (queue d) xs"
      "set xs = {i. i < size_of d \<and> state_of d i = Ready \<and> worker d i}"
    using inv(3) by (auto simp: queue_ok_def)
  have "xs = []"
    using xs(1) w by (auto simp: holds_def may_wake_def last_or_def split: if_splits)
  then have no_queue: "\<not> (state_of d i = Ready \<and> worker d i)" if "i < size_of d" for i
    using xs(2) that by auto
  have no_run: "state_of d i \<noteq> Running" if "i < size_of d" for i
    using run_okD(4) [OF ok that] unfolding pc by (auto split: if_splits)
  have no_fin: "first_finishing d = None"
    using no_local by (auto simp: local_work_def split: if_splits)
  have "terminal (state_of d i)" if "i < size_of d" for i
    using that
  proof (induction i rule: less_induct)
    case (less i)
    have "open_preds d i = []"
      using less.IH pred_less [OF accountedD(1) [OF inv(1)] less.prems] less.prems
      by (force simp: open_preds_def filter_empty_conv)
    then have "remaining (nodes d ! i) = 0"
      using accountedD(4) [OF inv(1) less.prems] by (simp add: unat_eq_0)
    then have "state_of d i \<noteq> Pending"
      using inv(2) less.prems by (auto simp: settled_def)
    moreover have "state_of d i \<noteq> Ready"
    proof
      assume r: "state_of d i = Ready"
      then have "\<not> worker d i"
        using no_queue [OF less.prems] by simp
      then have "first_local d = Some i"
        unfolding first_local_def find_Some_iff using less r
        by (intro exI [of _ i]) (auto dest: order.strict_trans)
      then show False
        using no_local no_fin r by (simp add: local_work_def)
    qed
    moreover have "state_of d i \<noteq> Finishing"
      using first_finishing_None [OF no_fin less.prems] .
    ultimately show ?case
      using no_run [OF less.prems] by (cases "state_of d i") auto
  qed
  moreover have "nodes d \<noteq> []"
    using run_okD(2) [OF ok, of Caller] f by auto
  ultimately have "dag_done d \<or> (\<exists>t. f t = Publishing True)"
    by (rule run_okD(7) [OF ok])
  then show False
    using w unfolding pc by (auto simp: may_wake_def split: if_splits)
qed

lemma queue_help_total:
  "table_inv fs T d \<Longrightarrow> \<exists>w q. queue_help (queue d) n j = Some (w, q)"
  using rq.pick_total [of "queue d" _ n j]
  by (fastforce simp: table_inv_def queue_ok_def queue_help_def split: option.split)

lemma step_enabled:
  assumes ok: "block_ok fs body s" and nr: "pcs s Caller \<noteq> Returned"
  shows "\<exists>s'. step body joined s s'"
proof (cases "pcs s Caller = Starting")
  case True
  then show ?thesis
    using begin_run empty_run by (cases "nodes (table s) = []") blast+
next
  case False
  then have run: "run_ok fs body (pcs s) (table s)"
    using ok by (simp add: block_ok_def)
  have busy: "\<exists>s'. step body joined s s'" if t: "pcs s t = Taken i \<or> pcs s t = Executing i \<or> pcs s t = Publishing c" for t i c
  proof -
    consider "pcs s t = Taken i" | "pcs s t = Publishing c"
      | "pcs s t = Executing i" "t = Caller \<or> \<not> has_join (specs (table s) ! i)"
      | h where "t = Helper h" "pcs s (Helper h) = Executing i" "has_join (specs (table s) ! i)"
      using t by (cases t) auto
    then show ?thesis
      using mark publish hand complete by cases (metis surj_pair)+
  qed
  show ?thesis
  proof (cases "\<exists>h. pcs s (Helper h) \<noteq> Idle")
    case True
    then obtain h where h: "pcs s (Helper h) \<noteq> Idle"
      by blast
    then show ?thesis
      using run_okD(2) [OF run, of "Helper h"] busy by (cases "pcs s (Helper h)") auto
  next
    case idle: False
    show ?thesis
    proof (cases "pcs s Caller")
      case Looking
      then show ?thesis
        using leave look by (metis surj_pair)
    next
      case Helping
      obtain w q where "queue_help (queue (table s)) 0 True = Some (w, q)"
        using queue_help_total [OF run_okD(1) [OF run]] by blast
      then show ?thesis
        using no_work [OF Helping] take_caller [OF Helping] by (cases w) blast+
    next
      case Waiting
      then show ?thesis
        using wake waiting_wakes [OF run _ Waiting] idle by blast
    next
      case (Joining i)
      then show ?thesis
        using join_node by (metis surj_pair)
    qed (use False nr busy run_okD(2) [OF run, of Caller] in auto)
  qed
qed

section \<open>Every step brings the block nearer to its end\<close>

fun pc_weight :: "pc \<Rightarrow> nat" where
  "pc_weight (Taken i) = 5" | "pc_weight (Executing i) = 4" | "pc_weight (Joining i) = 1"
| "pc_weight (Publishing c) = 1" | "pc_weight Starting = 1" | "pc_weight _ = 0"

text \<open>The caller's own loop: how far it is from a choice, a taken entry or a wait.\<close>

definition caller_rank :: "pc \<Rightarrow> dag \<Rightarrow> nat" where
  "caller_rank p d =
    (case p of
       Looking \<Rightarrow> if may_wake d then 2 else 5
     | Helping \<Rightarrow> if last_work (queue d) \<noteq> None then 1 else 4
     | Waiting \<Rightarrow> 3
     | _ \<Rightarrow> 0)"

definition work_weight :: "(thread \<Rightarrow> pc) \<Rightarrow> dag \<Rightarrow> nat" where
  "work_weight f d = table_weight d + (\<Sum>t \<in> UNIV. pc_weight (f t))"

definition run_weight :: "block_run \<Rightarrow> nat" where
  "run_weight s = 10 * work_weight (pcs s) (table s) + caller_rank (pcs s Caller) (table s)"

lemma finite_threads: "finite (UNIV :: thread set)"
proof -
  have eq: "(UNIV :: thread set) = insert Caller (range Helper)"
    by (auto intro: thread.exhaust)
  show ?thesis
    by (subst eq) simp
qed

lemma pc_weight_goto:
  fixes f :: "thread \<Rightarrow> pc"
  shows "(\<Sum>u \<in> UNIV. pc_weight ((f(t := p)) u)) + pc_weight (f t) = (\<Sum>u \<in> UNIV. pc_weight (f u)) + pc_weight p"
proof -
  have "(\<Sum>u \<in> UNIV. pc_weight (g u)) = pc_weight (g t) + (\<Sum>u \<in> UNIV - {t}. pc_weight (g u))" for g :: "thread \<Rightarrow> pc"
    using finite_threads by (intro sum.remove) auto
  from this [of f] this [of "f(t := p)"] show ?thesis
    by simp
qed

lemma rank_bound: "caller_rank p d \<le> 5"
  by (simp add: caller_rank_def split: pc.split)

lemma progress_by_work:
  assumes "table_weight e + pc_weight p < table_weight (table s) + pc_weight (pcs s t)"
  shows "run_weight (goto t p e s) < run_weight s"
proof -
  have "work_weight ((pcs s)(t := p)) e < work_weight (pcs s) (table s)"
    using assms pc_weight_goto [of "pcs s" t p] by (simp add: work_weight_def)
  then show ?thesis
    using rank_bound [of "((pcs s)(t := p)) Caller" e] by (simp add: run_weight_def)
qed

lemma progress_by_rank:
  assumes "table_weight e + pc_weight p = table_weight (table s) + pc_weight (pcs s Caller)"
    "caller_rank p e < caller_rank (pcs s Caller) (table s)"
  shows "run_weight (goto Caller p e s) < run_weight s"
proof -
  have "work_weight ((pcs s)(Caller := p)) e = work_weight (pcs s) (table s)"
    using assms(1) pc_weight_goto [of "pcs s" Caller p] by (simp add: work_weight_def)
  then show ?thesis
    using assms(2) by (simp add: run_weight_def)
qed

lemma weight_state:
  assumes "i < size_of d" "size_of e = size_of d" "queue e = queue d"
    and "\<And>j. j < size_of d \<Longrightarrow> state_of e j = (if j = i then st else state_of d j)"
  shows "table_weight e + node_weight (state_of d i) = table_weight d + node_weight st"
proof -
  let ?g = "\<lambda>e j. node_weight (state_of e j) + (if queued (works (queue e) j) then 6 else 0)"
  have split: "(\<Sum>j < size_of d. ?g e j) = ?g e i + (\<Sum>j \<in> {..<size_of d} - {i}. ?g e j)" for e
    using assms(1) by (intro sum.remove) auto
  have same: "(\<Sum>j \<in> {..<size_of d} - {i}. ?g e j) = (\<Sum>j \<in> {..<size_of d} - {i}. ?g d j)"
    using assms(3,4) by (intro sum.cong) auto
  have here: "?g e i + node_weight (state_of d i) = ?g d i + node_weight st"
    using assms(1,3,4) by simp
  show ?thesis
    unfolding table_weight_def assms(2) using split [of e] split [of d] same here by linarith
qed

lemma weight_take:
  assumes "i < size_of d" "queued (works (queue d) i)"
  shows "table_weight (d\<lparr>queue := queue_unlink i (queue d)\<rparr>) + 6 \<le> table_weight d"
  by (rule weight_drop [of _ _ i]) (use assms in auto)

lemma step_progress:
  assumes "step body joined s s'" "block_ok (statuses body joined s) body s"
  shows "run_weight s' < run_weight s"
proof -
  let ?fs = "statuses body joined s" and ?d = "table s" and ?f = "pcs s"
  have run: "run_ok ?fs body ?f ?d" if "?f Caller \<noteq> Starting"
    using assms(2) that by (simp add: block_ok_def)
  have any: "run_ok ?fs body ?f ?d" if "?f t \<noteq> Starting" "?f t \<noteq> Idle" for t
    using that run assms(2) by (cases t) (auto simp: block_ok_def split: if_splits)
  have fin: "run_weight (goto t (Publishing c) d s) < run_weight s"
    if f: "?f t = Executing i \<or> ?f t = Joining i" and fin: "finish i (?fs i) ?d = (c, d)" for t i c d
  proof -
    have ok: "run_ok ?fs body ?f ?d"
      using any [of t] f by auto
    show ?thesis
      using finish_running(5) [OF ok f ok f ok f ok f ok f ok f ok f fin] f
      by (intro progress_by_work) auto
  qed
  show ?thesis
    using assms(1)
  proof (cases rule: step.cases)
    case begin_run
    then have "fresh ?d"
      using assms(2) by (auto simp: block_ok_def)
    then show ?thesis
      unfolding begin_run(1) using begin_run(2) start_spec [of ?d ?fs] by (intro progress_by_work) auto
  next
    case empty_run
    then show ?thesis
      by (auto intro!: progress_by_work)
  next
    case leave
    then show ?thesis
      by (auto intro!: progress_by_rank simp: caller_rank_def may_wake_def)
  next
    case (look c d)
    show ?thesis
    proof (cases rule: choose_node_cases [of ?d])
      case (join i)
      have "table_weight d + 4 = table_weight ?d + 2"
        using weight_state [of i ?d d Running] join look(4) by auto
      then show ?thesis
        using look join by (auto intro!: progress_by_work simp: chosen_pc_def)
    next
      case (own i)
      have "table_weight d + 8 = table_weight ?d + 2"
        using weight_state [of i ?d d Running] own look(4) by auto
      then show ?thesis
        using look own by (auto intro!: progress_by_work simp: chosen_pc_def)
    next
      case none
      have "local_ready ?d = local_work ?d"
        using run_okD(1) [OF run] look(2) by (simp add: table_inv_def)
      then show ?thesis
        using look none
        by (auto intro!: progress_by_rank simp: chosen_pc_def caller_rank_def may_wake_def table_weight_def)
    qed
  next
    case (no_work q)
    have "q = queue ?d" "last_work (queue ?d) = None"
      using queue_help_none [OF run_okD(1) [OF run]] no_work by auto
    then show ?thesis
      using no_work by (auto intro!: progress_by_rank simp: caller_rank_def)
  next
    case wake
    then show ?thesis
      by (auto intro!: progress_by_rank simp: caller_rank_def)
  next
    case (take_caller i q)
    note q = table_inv_take [OF run_okD(1) [OF run] take_caller(3)]
    show ?thesis
      unfolding take_caller(1) using weight_take [OF q(1,7)] q(8) take_caller(2)
      by (intro progress_by_work) auto
  next
    case (take_helper h i q)
    then have "?f Caller \<noteq> Starting"
      using assms(2) queue_help_fresh [of ?d] by (auto simp: block_ok_def)
    then show ?thesis
      unfolding take_helper(1) using weight_take [of i ?d] take_helper(2)
        table_inv_take [OF run_okD(1) [OF run] take_helper(3)]
      by (intro progress_by_work) auto
  next
    case (mark t i)
    have ok: "run_ok ?fs body ?f ?d"
      using any [of t] mark by auto
    have "i < size_of ?d" "state_of ?d i = Ready \<or> state_of ?d i = Running"
      using held_state [OF ok, of t i] mark(2) by auto
    then have "table_weight (set_state i Running ?d) \<le> table_weight ?d"
      using weight_state [of i ?d "set_state i Running ?d" Running] by auto
    then show ?thesis
      using mark by (auto intro!: progress_by_work)
  next
    case (hand h i)
    have ok: "run_ok ?fs body ?f ?d"
      using any [of "Helper h"] hand by auto
    have "i < size_of ?d" "state_of ?d i = Running"
      using run_okD(2) [OF ok, of "Helper h"] hand(2) by auto
    then have "table_weight (hand_over i (body i) ?d) + 2 = table_weight ?d + 4"
      using weight_state [of i ?d "hand_over i (body i) ?d" Finishing]
      by (simp add: hand_over_def nth_list_update_if)
    then show ?thesis
      using hand by (auto intro!: progress_by_work)
  next
    case (complete t i c d)
    then show ?thesis
      using fin [of t i c d] by (simp add: statuses_def)
  next
    case (complete_taken h i c d k)
    have ok: "run_ok ?fs body ?f ?d" and k: "k < size_of ?d" "state_of ?d k = Pending"
      using any [of "Helper h"] complete_taken by auto
    have f: "?f (Helper h) = Executing i \<or> ?f (Helper h) = Joining i" and fi: "finish i (?fs i) ?d = (c, d)"
      using complete_taken by (simp_all add: statuses_def)
    note e = finish_running [OF ok f ok f ok f ok f ok f ok f ok f fi]
    have free: "k \<notin> taken ?f"
      using held_state [OF ok, of _ k] k(2) by (auto simp: taken_def) (metis held.simps(1) node_state.distinct)
    have inv: "table_inv ?fs (taken ?f) d"
      using e(1-4,6) by (simp add: table_inv_def)
    have d: "k < size_of d" "queued (works (queue d) k)"
      using k(1) e(11) table_inv_unlink(2) [OF inv _ _ _ free] complete_taken by auto
    let ?s = "goto (Helper h) (Publishing c) d s"
    have "run_weight (goto Caller (Taken k) (d\<lparr>queue := queue_unlink k (queue d)\<rparr>) ?s) < run_weight ?s"
      using weight_take [OF d] complete_taken by (intro progress_by_work) auto
    then show ?thesis
      using fin [OF f fi] complete_taken by simp
  next
    case (join_node i c d)
    then show ?thesis
      using fin [of Caller i c d] final_status_of [OF run, of Caller i joined] by (simp add: statuses_def)
  next
    case (publish t c)
    then show ?thesis
      by (auto intro!: progress_by_work simp: after_publish_def table_weight_def)
  qed
qed

section \<open>The block over all its runs\<close>

lemma run_reaches_ok:
  assumes new: "fresh d" "length (specs d) = size_of d"
    and run: "(step body joined)\<^sup>*\<^sup>* (new_run d) s"
  shows "block_ok (statuses body joined s) body s \<and> specs (table s) = specs d \<and>
    size_of (table s) = size_of d \<and> helpers (table s) = helpers d"
  using run
proof (induction rule: rtranclp_induct)
  case base
  then show ?case
    using new by (simp add: block_ok_def new_run_def)
next
  case (step s s')
  then show ?case
    using step_block_ok [OF step.hyps(2)] unfolding statuses_def by metis
qed

lemma new_run_ok:
  assumes "arrays_ok sp" "dag_new sp hs = Inr d"
  shows "fresh d" "specs d = sp" "helpers d = hs" "length sp = size_of d"
proof -
  have "spec_ok k (sp ! k)" if "k < length sp" for k
    using build_nodes_error [OF that, of 0 "replicate (length sp) new_node"] assms(2)
    by (cases "spec_ok k (sp ! k)") (auto simp: dag_new_def)
  then have "\<exists>d. dag_new sp hs = Inr d \<and> specs d = sp \<and> helpers d = hs \<and> fresh d"
    using wf_specs_iff [OF assms(1)] by (intro dag_new_fresh [OF assms(1)]) simp
  then show "fresh d" "specs d = sp" "helpers d = hs"
    using assms(2) by auto
  then show "length sp = size_of d"
    using accountedD(3) fresh_accounted(1) by blast
qed

text \<open>When every node has ended, the states are those of the run in order.\<close>

lemma run_in_order_states:
  assumes acc: "accounted fs d" and all: "\<And>i. i < size_of d \<Longrightarrow> terminal (state_of d i)" and k: "k \<le> size_of d"
  shows "run_in_order fs (drop k (specs d)) (map (state_of d) [0..<k]) = map (state_of d) [0..<size_of d]"
  using k
proof (induction "size_of d - k" arbitrary: k)
  case 0
  then show ?case
    using accountedD(3) [OF acc] by simp
next
  case (Suc m)
  then have k: "k < size_of d"
    by simp
  have drop: "drop k (specs d) = specs d ! k # drop (Suc k) (specs d)"
    using k accountedD(3) [OF acc] by (simp add: Cons_nth_drop_Suc)
  have old: "map (state_of d) [0..<k] ! p = state_of d p" if "p \<in> set (preds_of d k)" for p
    using pred_less [OF accountedD(1) [OF acc] k that] by simp
  have "state_of d k = (if \<exists>p \<in> set (preds_of d k). state_of d p \<noteq> Succeeded then Skipped
      else if fs k = 0 then Succeeded else Failed)"
    using accountedD(6) [OF acc k] all [OF k]
    by (cases "state_of d k") (force simp: node_ok_def stopped_def)+
  then have next_state: "(if \<exists>p \<in> set (preds_of d k). map (state_of d) [0..<k] ! p \<noteq> Succeeded then Skipped
      else if fs (length (map (state_of d) [0..<k])) = 0 then Succeeded else Failed) = state_of d k"
    using old by (simp cong: bex_cong)
  have "run_in_order fs (drop (Suc k) (specs d)) (map (state_of d) [0..<Suc k]) =
      map (state_of d) [0..<size_of d]"
    using Suc.hyps(2) k by (intro Suc.hyps(1)) auto
  then show ?case
    unfolding drop run_in_order.simps next_state by simp
qed

lemma result_first_failure:
  assumes "result_ok fs d"
  shows "(result_index d, result_status d) = first_failure fs (map (state_of d) [0..<size_of d])"
proof (cases "find (\<lambda>i. map (state_of d) [0..<size_of d] ! i = Failed) [0..<size_of d]")
  case None
  then have "\<forall>i < size_of d. state_of d i \<noteq> Failed"
    by (auto simp: find_None_iff)
  then show ?thesis
    using assms None by (simp add: result_ok_def first_failure_def)
next
  case (Some i)
  then have i: "i < size_of d" "state_of d i = Failed" "\<And>j. j < i \<Longrightarrow> state_of d j \<noteq> Failed"
    by (auto simp: find_Some_iff)
  have "\<not> (\<forall>i < size_of d. state_of d i \<noteq> Failed)"
    using i by blast
  then have r: "state_of d (result_index d) = Failed" "result_status d = fs (result_index d)"
      "\<forall>i < size_of d. state_of d i = Failed \<longrightarrow> result_index d \<le> i"
    using assms by (simp_all add: result_ok_def)
  have "result_index d = i"
    using r(1,3) i by (meson le_antisym not_le)
  with r(2) show ?thesis
    using Some by (simp add: first_failure_def)
qed

lemma run_returns:
  assumes "block_ok (statuses body joined s) body s"
  shows "\<exists>s'. (step body joined)\<^sup>*\<^sup>* s s' \<and> pcs s' Caller = Returned"
  using assms
proof (induction "run_weight s" arbitrary: s rule: less_induct)
  case less
  show ?case
  proof (cases "pcs s Caller = Returned")
    case False
    then obtain s1 where s1: "step body joined s s1"
      using step_enabled [OF less.prems] by blast
    then have "block_ok (statuses body joined s1) body s1"
      using step_block_ok [OF s1 less.prems] unfolding statuses_def by simp
    then show ?thesis
      using less.hyps [of s1] step_progress [OF s1 less.prems] converse_rtranclp_into_rtranclp [of "step body joined" s s1] s1
      by blast
  qed blast
qed

lemma no_infinite_run:
  assumes "block_ok (statuses body joined (f 0)) body (f 0)" "\<And>k. step body joined (f k) (f (Suc k))"
  shows False
proof -
  have ok: "block_ok (statuses body joined (f k)) body (f k)" for k
  proof (induction k)
    case (Suc k)
    then show ?case
      using step_block_ok [OF assms(2)] unfolding statuses_def by metis
  qed (rule assms(1))
  have "run_weight (f k) + k \<le> run_weight (f 0)" for k
  proof (induction k)
    case (Suc k)
    then show ?case
      using step_progress [OF assms(2) ok, of k] by simp
  qed simp
  from this [of "Suc (run_weight (f 0))"] show False
    by simp
qed

lemma returned_quiet:
  assumes ok: "run_ok fs body f d" and r: "f Caller = Returned"
  shows "held (f t) = None \<and> f t \<noteq> Publishing True"
proof -
  have ended: "dag_done d \<or> nodes d = []"
    using run_okD(2) [OF ok, of Caller] r by auto
  have "held (f t) = None"
    using held_not_done [OF ok, of t] held_state [OF ok, of t] ended by (cases "held (f t)") fastforce+
  moreover have "f t \<noteq> Publishing True"
    using run_okD(2) [OF ok, of t] run_okD(9) [OF ok, of t] ended by auto
  ultimately show ?thesis
    by blast
qed

lemma run_preds:
  "run_ok fs body f d \<Longrightarrow> i < size_of d \<Longrightarrow> state_of d i = Running \<Longrightarrow> p \<in> set (preds_of d i) \<Longrightarrow>
   state_of d p = Succeeded"
  using accountedD(6) [of fs d i] by (auto simp: run_ok_def table_inv_def node_ok_def)

lemma returned_all_ended:
  "run_ok fs body f d \<Longrightarrow> f Caller = Returned \<Longrightarrow> i < size_of d \<Longrightarrow> terminal (state_of d i)"
  using run_okD(2) [of fs body f d Caller] run_okD(6) [of fs body f d i] by auto

lemma sample_new: "\<exists>d. dag_new sample_specs hs = Inr d"
  using dag_new_fresh [OF sample_specs_ok(1)] wf_specs_iff [OF sample_specs_ok(1)] sample_specs_ok(2) by blast

lemma sample_run:
  "\<exists>d s. dag_new sample_specs hs = Inr d \<and> (step body joined)\<^sup>*\<^sup>* (new_run d) s \<and> pcs s Caller = Returned"
proof -
  obtain d where d: "dag_new sample_specs hs = Inr d"
    using sample_new by blast
  note ok = new_run_ok [OF sample_specs_ok(1) d]
  have "block_ok (statuses body joined (new_run d)) body (new_run d)"
    using run_reaches_ok [OF ok(1) _ rtranclp.rtrancl_refl] ok by simp
  then show ?thesis
    using run_returns d by blast
qed

text \<open>
  C2: at every moment of every interleaving, a node whose body is running has only predecessors that
  succeeded; it runs on a helper only if it is worker-safe and helpers exist; no node is held by two
  threads; a node that a helper ran is joined on the calling thread only; and once \<open>run\<close> has returned,
  so that its caller may destroy the table, no thread holds a node of it or will still write to it.
\<close>

theorem node_run_safety:
  assumes "arrays_ok sp" "dag_new sp hs = Inr d" "(step body joined)\<^sup>*\<^sup>* (new_run d) s"
  shows "(\<forall>t i. pcs s t = Executing i \<longrightarrow> i < length sp \<and>
        (\<forall>p \<in> set (preds (sp ! i)). state_of (table s) p = Succeeded) \<and>
        (t = Caller \<or> hs \<noteq> 0 \<and> worker_safe (sp ! i))) \<and>
    (\<forall>t u i. held (pcs s t) = Some i \<and> held (pcs s u) = Some i \<longrightarrow> t = u) \<and>
    (\<forall>t i. pcs s t = Joining i \<longrightarrow> t = Caller \<and> has_join (sp ! i)) \<and>
    (pcs s Caller = Returned \<longrightarrow> (\<forall>t. held (pcs s t) = None \<and> pcs s t \<noteq> Publishing True))"
proof -
  note d = new_run_ok [OF assms(1,2)]
  have ok: "block_ok (statuses body joined s) body s" "specs (table s) = sp" "size_of (table s) = length sp"
    using run_reaches_ok [OF d(1) _ assms(3)] d by auto
  have hs: "helpers (table s) = hs"
    using run_reaches_ok [OF d(1) _ assms(3)] d by auto
  show ?thesis
  proof (cases "pcs s Caller = Starting")
    case True
    then have "pcs s t = (if t = Caller then Starting else Idle)" for t
      using ok(1) by (cases t) (auto simp: block_ok_def)
    then show ?thesis
      by (auto split: if_splits)
  next
    case False
    then have run: "run_ok (statuses body joined s) body (pcs s) (table s)"
      using ok(1) by (simp add: block_ok_def)
    note pc = run_okD(2) [OF run]
    have "i < length sp \<and> (\<forall>p \<in> set (preds (sp ! i)). state_of (table s) p = Succeeded) \<and>
        (t = Caller \<or> hs \<noteq> 0 \<and> worker_safe (sp ! i))" if "pcs s t = Executing i" for t i
      using pc [of t] that ok(2,3) hs run_preds [OF run, of i] by (auto simp: worker_def)
    moreover have "t = Caller \<and> has_join (sp ! i)" if "pcs s t = Joining i" for t i
      using pc [of t] that ok(2) by simp
    moreover have "held (pcs s t) = None \<and> pcs s t \<noteq> Publishing True" if "pcs s Caller = Returned" for t
      using returned_quiet [OF run that] by blast
    moreover have "t = u" if "held (pcs s t) = Some i" "held (pcs s u) = Some i" for t u i
      using run_okD(3) [OF run that(2,1)] .
    ultimately show ?thesis
      by blast
  qed
qed

theorem node_run_safety_witness:
  "\<exists>d s. dag_new sample_specs 2 = Inr d \<and> (step (\<lambda>i. of_nat i) (\<lambda>_ x. x))\<^sup>*\<^sup>* (new_run d) s \<and>
    pcs s Caller = Returned \<and> (\<forall>t. held (pcs s t) = None)"
proof -
  obtain d s where ds: "dag_new sample_specs 2 = Inr d"
      "(step (\<lambda>i. of_nat i) (\<lambda>_ x. x))\<^sup>*\<^sup>* (new_run d) s" "pcs s Caller = Returned"
    using sample_run by blast
  then show ?thesis
    using node_run_safety [OF sample_specs_ok(1) ds(1,2)] by blast
qed

text \<open>
  C1: the outcome of a block does not depend on the schedule. Whatever the interleaving and the number
  of helpers, when \<open>run\<close> returns, the states of the nodes are those of running the table in order on
  one thread (a node is skipped when a predecessor did not succeed), and the result is the first
  failing node of that run with its status, or the largest index and status 0 when none failed.
\<close>

theorem node_run_outcome:
  assumes "arrays_ok sp" "dag_new sp hs = Inr d" "(step body joined)\<^sup>*\<^sup>* (new_run d) s"
    and "pcs s Caller = Returned"
  shows "map node_state (nodes (table s)) = run_in_order (final_status body joined sp) sp [] \<and>
    (result_index (table s), result_status (table s)) =
      first_failure (final_status body joined sp) (run_in_order (final_status body joined sp) sp [])"
proof -
  note d = new_run_ok [OF assms(1,2)]
  have ok: "block_ok (statuses body joined s) body s" "specs (table s) = sp" "size_of (table s) = length sp"
    using run_reaches_ok [OF d(1) _ assms(3)] d by auto
  then have run: "run_ok (final_status body joined sp) body (pcs s) (table s)"
    using assms(4) by (simp add: block_ok_def statuses_def)
  have inv: "accounted (final_status body joined sp) (table s)" "result_ok (final_status body joined sp) (table s)"
    using run_okD(1) [OF run] by (simp_all add: table_inv_def)
  have "map (state_of (table s)) [0..<size_of (table s)] = run_in_order (final_status body joined sp) sp []"
    using run_in_order_states [OF inv(1) returned_all_ended [OF run assms(4)], of 0] ok(2) by simp
  moreover have "map node_state (nodes (table s)) = map (state_of (table s)) [0..<size_of (table s)]"
    by (intro nth_equalityI) auto
  ultimately show ?thesis
    using result_first_failure [OF inv(2)] by simp
qed

theorem node_run_outcome_witness:
  "\<exists>d s. dag_new sample_specs 2 = Inr d \<and> (step (\<lambda>i. of_nat i) (\<lambda>_ x. x))\<^sup>*\<^sup>* (new_run d) s \<and>
    map node_state (nodes (table s)) = [Succeeded, Failed, Skipped] \<and>
    (result_index (table s), result_status (table s)) = (1, 1)"
proof -
  obtain d s where ds: "dag_new sample_specs 2 = Inr d"
      "(step (\<lambda>i. of_nat i) (\<lambda>_ x. x))\<^sup>*\<^sup>* (new_run d) s" "pcs s Caller = Returned"
    using sample_run by blast
  have order: "run_in_order (final_status (\<lambda>i. of_nat i) (\<lambda>_ x. x) sample_specs) sample_specs [] =
      [Succeeded, Failed, Skipped]"
    by (simp add: sample_specs_def final_status_def preds_def take_Cons')
  have "first_failure (final_status (\<lambda>i. of_nat i) (\<lambda>_ x. x) sample_specs) [Succeeded, Failed, Skipped] = (1, 1)"
    by (simp add: first_failure_def sample_specs_def final_status_def upt_rec)
  then show ?thesis
    using node_run_outcome [OF sample_specs_ok(1) ds] ds(1,2) unfolding order by auto
qed

text \<open>
  C3: a block always returns. In every reachable state in which \<open>run\<close> has not returned some thread can
  take a step, so there is no deadlock, even with no helper at all; no run goes on for ever; and
  from every reachable state the return is reached.
\<close>

theorem node_run_returns:
  assumes "arrays_ok sp" "dag_new sp hs = Inr d" "(step body joined)\<^sup>*\<^sup>* (new_run d) s"
  shows "(pcs s Caller \<noteq> Returned \<longrightarrow> (\<exists>s'. step body joined s s')) \<and>
    \<not> (\<exists>f. f 0 = s \<and> (\<forall>k. step body joined (f k) (f (Suc k)))) \<and>
    (\<exists>s'. (step body joined)\<^sup>*\<^sup>* s s' \<and> pcs s' Caller = Returned)"
proof -
  note d = new_run_ok [OF assms(1,2)]
  have ok: "block_ok (statuses body joined s) body s"
    using run_reaches_ok [OF d(1) _ assms(3)] d by auto
  show ?thesis
    using step_enabled [OF ok] run_returns [OF ok] no_infinite_run ok by blast
qed

theorem node_run_returns_witness:
  "\<exists>d s. dag_new sample_specs 0 = Inr d \<and> (step (\<lambda>_. 0) (\<lambda>_ x. x))\<^sup>*\<^sup>* (new_run d) s \<and>
    pcs s Caller = Returned"
proof -
  obtain d where d: "dag_new sample_specs 0 = Inr d"
    using sample_new by blast
  then show ?thesis
    using node_run_returns [OF sample_specs_ok(1) d rtranclp.rtrancl_refl, of "\<lambda>_. 0" "\<lambda>_ x. x"] by blast
qed

end
