(* ===== verification/Strict_Json.thy ===== *)
theory Strict_Json
  imports Utf8 "HOL-Library.Char_ord" "HOL-Library.List_Lexorder"
begin

text \<open>
  The strict JSON reader for source patches and the run cache (\<open>src/platform/strict_json.cpp\<close>). The
  reader's text and position are one value here, the text not yet read: every operation of the
  class moves the position forward only. Errors are the messages it throws. An object is the list of
  its members in the order of their keys, as \<open>std::map\<close> keeps them.
\<close>

unbundle bit_operations_syntax

section \<open>Values, options and errors\<close>

datatype json_val =
  JNull | JBool bool | JInt int | JString string | JArray "json_val list"
| JObject "(string \<times> json_val) list"

record json_options =
  document :: string
  max_depth :: nat

definition to_upper :: "char \<Rightarrow> char" where
  "to_upper c = (if 97 \<le> (of_char c :: nat) \<and> of_char c \<le> (122 :: nat) then char_of (of_char c - 32 :: nat) else c)"

definition sentence_noun :: "json_options \<Rightarrow> string" where
  "sentence_noun opt = (case document opt of [] \<Rightarrow> [] | c # cs \<Rightarrow> to_upper c # cs)"

definition fail_in :: "json_options \<Rightarrow> string \<Rightarrow> string + 'a" where
  "fail_in opt what = Inl (what @ '' in '' @ document opt @ ''.'')"

definition fail_about :: "json_options \<Rightarrow> string \<Rightarrow> string + 'a" where
  "fail_about opt what = Inl (sentence_noun opt @ '' '' @ what @ ''.'')"

section \<open>The reader\<close>

abbreviation quote :: char where "quote \<equiv> CHR 0x22"
abbreviation backslash :: char where "backslash \<equiv> CHR 0x5C"

definition is_space :: "char \<Rightarrow> bool" where
  "is_space c \<longleftrightarrow> c = CHR 0x20 \<or> (9 \<le> (of_char c :: nat) \<and> of_char c \<le> (13 :: nat))"

definition peek_byte :: "string \<Rightarrow> char" where
  "peek_byte t = (case t of [] \<Rightarrow> CHR 0x00 | c # _ \<Rightarrow> c)"

definition skip_ws :: "string \<Rightarrow> string" where
  "skip_ws t = dropWhile is_space t"

definition expect :: "json_options \<Rightarrow> char \<Rightarrow> string \<Rightarrow> string + string" where
  "expect opt c t = (if peek_byte t \<noteq> c then fail_in opt (''Expected '' @ [CHR 0x27, c, CHR 0x27]) else Inr (tl t))"

definition consume :: "string \<Rightarrow> string \<Rightarrow> string option" where
  "consume token t = (if take (length token) t = token then Some (drop (length token) t) else None)"

definition append_utf8 :: "json_options \<Rightarrow> string \<Rightarrow> nat \<Rightarrow> string + string" where
  "append_utf8 opt out cp =
    (if cp \<le> 0x7f then Inr (out @ [char_of cp])
     else if cp \<le> 0x7ff then
       Inr (out @ [char_of (0xc0 OR (drop_bit 6 cp)), char_of (0x80 OR (cp AND 0x3f))])
     else if cp \<le> 0xffff then
       Inr (out @ [char_of (0xe0 OR (drop_bit 12 cp)), char_of (0x80 OR ((drop_bit 6 cp) AND 0x3f)),
         char_of (0x80 OR (cp AND 0x3f))])
     else if cp \<le> 0x10ffff then
       Inr (out @ [char_of (0xf0 OR (drop_bit 18 cp)), char_of (0x80 OR ((drop_bit 12 cp) AND 0x3f)),
         char_of (0x80 OR ((drop_bit 6 cp) AND 0x3f)), char_of (0x80 OR (cp AND 0x3f))])
     else fail_in opt ''Invalid Unicode code point'')"

definition hex_digit :: "char \<Rightarrow> nat option" where
  "hex_digit c =
    (let n = of_char c :: nat
     in if 48 \<le> n \<and> n \<le> 57 then Some (n - 48)
        else if 97 \<le> n \<and> n \<le> 102 then Some (n - 97 + 10)
        else if 65 \<le> n \<and> n \<le> 70 then Some (n - 65 + 10)
        else None)"

fun hex_loop :: "json_options \<Rightarrow> nat \<Rightarrow> nat \<Rightarrow> string \<Rightarrow> string + nat \<times> string" where
  "hex_loop opt 0 v t = Inr (v, t)"
| "hex_loop opt (Suc n) v t =
    (case hex_digit (peek_byte t) of
       None \<Rightarrow> fail_in opt ''Invalid Unicode escape''
     | Some d \<Rightarrow> hex_loop opt n (push_bit 4 v OR d) (tl t))"

definition hex4 :: "json_options \<Rightarrow> string \<Rightarrow> string + nat \<times> string" where
  "hex4 opt t = (if length t < 4 then fail_in opt ''Incomplete Unicode escape'' else hex_loop opt 4 0 t)"

text \<open>An escaped code point, a surrogate pair included.\<close>

definition unicode_escape :: "json_options \<Rightarrow> string \<Rightarrow> string \<Rightarrow> string + string \<times> string" where
  "unicode_escape opt out t =
    bind_r (hex4 opt t) (\<lambda>(cp, t).
      if 0xd800 \<le> cp \<and> cp \<le> 0xdbff then
        (case consume [backslash, CHR ''u''] t of
           None \<Rightarrow> Inl ''High surrogate must be followed by a low surrogate.''
         | Some t \<Rightarrow>
             bind_r (hex4 opt t) (\<lambda>(low, t).
               if low < 0xdc00 \<or> 0xdfff < low then fail_in opt ''Invalid low surrogate''
               else bind_r (append_utf8 opt out (0x10000 + push_bit 10 (cp - 0xd800) + (low - 0xdc00)))
                      (\<lambda>out. Inr (out, t))))
      else if 0xdc00 \<le> cp \<and> cp \<le> 0xdfff then fail_in opt ''Unexpected low surrogate''
      else bind_r (append_utf8 opt out cp) (\<lambda>out. Inr (out, t)))"

definition simple_escape :: "char \<Rightarrow> char option" where
  "simple_escape c =
    (if c = quote then Some quote
     else if c = backslash then Some backslash
     else if c = CHR ''/'' then Some (CHR ''/'')
     else if c = CHR ''b'' then Some (CHR 0x08)
     else if c = CHR ''f'' then Some (CHR 0x0C)
     else if c = CHR ''n'' then Some (CHR 0x0A)
     else if c = CHR ''r'' then Some (CHR 0x0D)
     else if c = CHR ''t'' then Some (CHR 0x09)
     else None)"

lemma hex_loop_length: "hex_loop opt n v t = Inr (w, u) \<Longrightarrow> length u \<le> length t"
  by (induction n arbitrary: v t) (fastforce simp: fail_in_def split: option.splits)+

lemma hex4_length: "hex4 opt t = Inr (w, u) \<Longrightarrow> length u \<le> length t"
  by (auto simp: hex4_def fail_in_def hex_loop_length split: if_splits)

lemma unicode_escape_length: "unicode_escape opt out t = Inr (w, u) \<Longrightarrow> length u \<le> length t"
  by (auto simp: unicode_escape_def bind_r_eq_Inr fail_in_def consume_def
      split: if_splits option.splits dest!: hex4_length)

lemma bind_r_cong [fundef_cong]:
  "m = m' \<Longrightarrow> (\<And>x. m' = Inr x \<Longrightarrow> f x = g x) \<Longrightarrow> bind_r m f = bind_r m' g"
  by (cases m') auto

text \<open>The loop of \<open>parse_string\<close> after the opening quote.\<close>

function string_chars :: "json_options \<Rightarrow> string \<Rightarrow> string \<Rightarrow> string + string \<times> string" where
  "string_chars opt out [] = Inl (''Unterminated '' @ document opt @ '' string.'')"
| "string_chars opt out (c # t) =
    (if c = quote then Inr (out, t)
     else if (of_char c :: nat) < 0x20 then Inl (''Control character in '' @ document opt @ '' string.'')
     else if c \<noteq> backslash then string_chars opt (out @ [c]) t
     else if t = [] then Inl (''Incomplete escape in '' @ document opt @ '' string.'')
     else if hd t = CHR ''u'' then
       bind_r (unicode_escape opt out (tl t)) (\<lambda>(out, t). string_chars opt out t)
     else (case simple_escape (hd t) of
             None \<Rightarrow> Inl (''Invalid escape in '' @ document opt @ '' string.'')
           | Some e \<Rightarrow> string_chars opt (out @ [e]) (tl t)))"
  by pat_completeness auto
termination
  by (relation "measure (\<lambda>(opt, out, t). length t)") (auto dest!: unicode_escape_length simp: length_tl)

definition parse_string :: "json_options \<Rightarrow> string \<Rightarrow> string + string \<times> string" where
  "parse_string opt t = bind_r (expect opt quote t) (string_chars opt [])"

definition int64_max :: int where
  "int64_max = 9223372036854775807"

fun integer_digits :: "json_options \<Rightarrow> int \<Rightarrow> string \<Rightarrow> string + int \<times> string" where
  "integer_digits opt v [] = Inr (v, [])"
| "integer_digits opt v (c # t) =
    (if is_digit c then
       if (int64_max - int (digit_val c)) div 10 < v then fail_about opt ''integer is out of range''
       else integer_digits opt (v * 10 + int (digit_val c)) t
     else Inr (v, c # t))"

definition parse_integer :: "json_options \<Rightarrow> string \<Rightarrow> string + int \<times> string" where
  "parse_integer opt t =
    (let negative = (peek_byte t = CHR ''-''); t = (if negative then tl t else t)
     in if t = [] \<or> \<not> is_digit (peek_byte t) then fail_in opt ''Invalid number''
        else bind_r (integer_digits opt 0 t) (\<lambda>(v, t).
          if t \<noteq> [] \<and> (peek_byte t = CHR ''.'' \<or> peek_byte t = CHR ''e'' \<or> peek_byte t = CHR ''E'')
          then fail_about opt ''requires integer schema values''
          else Inr (if negative then - v else v, t)))"

text \<open>\<open>std::map::emplace\<close>: nothing for a key that is there, else the member in its place.\<close>

definition emplace :: "string \<Rightarrow> json_val \<Rightarrow> (string \<times> json_val) list \<Rightarrow> (string \<times> json_val) list option" where
  "emplace k v ms = (if k \<in> fst ` set ms then None else Some (insort_key fst (k, v) ms))"

definition parse_word :: "json_options \<Rightarrow> string \<Rightarrow> string + json_val \<times> string" where
  "parse_word opt t =
    (case consume ''true'' t of Some t \<Rightarrow> Inr (JBool True, t) | None \<Rightarrow>
     (case consume ''false'' t of Some t \<Rightarrow> Inr (JBool False, t) | None \<Rightarrow>
     (case consume ''null'' t of Some t \<Rightarrow> Inr (JNull, t) | None \<Rightarrow> fail_in opt ''Invalid value'')))"

text \<open>
  Values, and the loops of arrays and objects. \<open>depth\<close> is the number of values that enclose the one
  read. The loops continue behind the value they have read, so the recursion ends because a value
  takes at least one character; that is shown before the functions are known to be total.
\<close>

function (domintros) parse_value :: "json_options \<Rightarrow> nat \<Rightarrow> string \<Rightarrow> string + json_val \<times> string"
  and array_loop :: "json_options \<Rightarrow> nat \<Rightarrow> json_val list \<Rightarrow> string \<Rightarrow> string + json_val \<times> string"
  and object_loop :: "json_options \<Rightarrow> nat \<Rightarrow> (string \<times> json_val) list \<Rightarrow> string \<Rightarrow> string + json_val \<times> string"
where
  "parse_value opt depth t0 =
    (let t = skip_ws t0
     in if max_depth opt \<le> depth then fail_about opt ''nesting is too deep''
        else if t = [] then Inl (''Unexpected end of '' @ document opt @ ''.'')
        else if peek_byte t = quote then bind_r (parse_string opt t) (\<lambda>(s, t). Inr (JString s, t))
        else if peek_byte t = CHR ''{'' then
          bind_r (expect opt (CHR ''{'') t) (\<lambda>t1.
            if peek_byte (skip_ws t1) = CHR ''}'' then Inr (JObject [], tl (skip_ws t1))
            else object_loop opt (Suc depth) [] (skip_ws t1))
        else if peek_byte t = CHR ''['' then
          bind_r (expect opt (CHR ''['') t) (\<lambda>t1.
            if peek_byte (skip_ws t1) = CHR '']'' then Inr (JArray [], tl (skip_ws t1))
            else array_loop opt (Suc depth) [] (skip_ws t1))
        else if peek_byte t = CHR ''-'' \<or> is_digit (peek_byte t) then
          bind_r (parse_integer opt t) (\<lambda>(v, t). Inr (JInt v, t))
        else parse_word opt t)"
| "array_loop opt depth vs t0 =
    bind_r (parse_value opt depth (skip_ws t0)) (\<lambda>(v, t1).
      if peek_byte (skip_ws t1) = CHR '']'' then Inr (JArray (vs @ [v]), tl (skip_ws t1))
      else bind_r (expect opt (CHR '','') (skip_ws t1)) (\<lambda>t2. array_loop opt depth (vs @ [v]) t2))"
| "object_loop opt depth ms t0 =
    (let t = skip_ws t0
     in if peek_byte t \<noteq> quote then fail_about opt ''object keys must be strings''
        else
          bind_r (parse_string opt t) (\<lambda>(k, t1).
          bind_r (expect opt (CHR '':'') (skip_ws t1)) (\<lambda>t2.
          bind_r (parse_value opt depth (skip_ws t2)) (\<lambda>(v, t3).
            case emplace k v ms of
              None \<Rightarrow> Inl (''Duplicate key in '' @ document opt @ '' object.'')
            | Some ms' \<Rightarrow>
                if peek_byte (skip_ws t3) = CHR ''}'' then Inr (JObject ms', tl (skip_ws t3))
                else bind_r (expect opt (CHR '','') (skip_ws t3)) (\<lambda>t4. object_loop opt depth ms' t4)))))"
  by pat_completeness auto

lemma length_skip_ws: "length (skip_ws t) \<le> length t"
  by (simp add: skip_ws_def length_dropWhile_le)

lemma expect_length: "expect opt c t = Inr u \<Longrightarrow> c \<noteq> CHR 0x00 \<Longrightarrow> length u < length t"
  by (cases t) (auto simp: expect_def peek_byte_def fail_in_def split: if_splits)

lemma string_chars_length: "string_chars opt out t = Inr (s, u) \<Longrightarrow> length u < length t"
proof (induction opt out t rule: string_chars.induct)
  case (2 opt out c t)
  consider "c = quote" | "c \<noteq> quote" "c \<noteq> backslash"
    | out' t' where "c = backslash" "t \<noteq> []" "hd t = CHR ''u''" "unicode_escape opt out (tl t) = Inr (out', t')"
        "string_chars opt out' t' = Inr (s, u)"
    | e where "c = backslash" "t \<noteq> []" "hd t \<noteq> CHR ''u''" "simple_escape (hd t) = Some e"
        "string_chars opt (out @ [e]) (tl t) = Inr (s, u)"
    using 2(4) by (auto split: if_splits option.splits simp: bind_r_eq_Inr)
  then show ?case
  proof cases
    case 1
    then show ?thesis using 2(4) by simp
  next
    case 2
    then show ?thesis using "2.IH"(1) "2.prems" by (auto split: if_splits)
  next
    case (3 out' t')
    have "length u < length t'"
      by (rule "2.IH"(2) [OF _ _ _ _ _ 3(4) refl 3(5)]) (use 3 in auto)
    then show ?thesis
      using unicode_escape_length [OF 3(4)] by simp
  next
    case (4 e)
    have "length u < length (tl t)"
      by (rule "2.IH"(3) [OF _ _ _ _ _ 4(4,5)]) (use 4 in auto)
    then show ?thesis
      by simp
  qed
qed simp

lemma parse_string_length: "parse_string opt t = Inr (s, u) \<Longrightarrow> length u < length t"
  by (auto simp: parse_string_def bind_r_eq_Inr dest!: expect_length string_chars_length)

lemma integer_digits_length: "integer_digits opt v t = Inr (w, u) \<Longrightarrow> length u \<le> length t"
  by (induction opt v t rule: integer_digits.induct) (auto simp: fail_about_def split: if_splits)

lemma parse_integer_length:
  assumes "parse_integer opt t = Inr (v, u)"
  shows "length u < length t"
proof -
  define t' where "t' = (if peek_byte t = CHR ''-'' then tl t else t)"
  note e = assms [unfolded parse_integer_def Let_def, folded t'_def]
  have "t' \<noteq> []" "is_digit (peek_byte t')"
    using e by (auto simp: fail_in_def split: if_splits)
  moreover obtain w where "integer_digits opt 0 t' = Inr (w, u)"
    using e by (auto simp: fail_in_def fail_about_def bind_r_eq_Inr split: if_splits)
  ultimately obtain c cs where t': "t' = c # cs" "is_digit c" "integer_digits opt 0 t' = Inr (w, u)"
    by (cases t') (auto simp: peek_byte_def)
  then have "integer_digits opt (int (digit_val c)) cs = Inr (w, u)"
    by (auto simp: fail_about_def split: if_splits)
  then have "length u < length t'"
    using integer_digits_length t'(1) by fastforce
  then show ?thesis
    by (simp add: t'_def split: if_splits)
qed

lemma consume_Some: "consume token t = Some u \<longleftrightarrow> t = token @ u"
  by (auto simp: consume_def) (metis append_take_drop_id)

lemma parse_word_length: "parse_word opt t = Inr (v, u) \<Longrightarrow> length u < length t"
  by (auto simp: parse_word_def consume_Some fail_in_def split: option.splits)

lemmas parts_length = length_skip_ws expect_length parse_string_length parse_integer_length parse_word_length

lemma parse_length:
  "parse_value_array_loop_object_loop_dom (Inl (opt, depth, t)) \<Longrightarrow>
    parse_value opt depth t = Inr (v, u) \<Longrightarrow> length u < length t"
  "parse_value_array_loop_object_loop_dom (Inr (Inl (opt, depth, vs, t))) \<Longrightarrow>
    array_loop opt depth vs t = Inr (v, u) \<Longrightarrow> length u < length t"
  "parse_value_array_loop_object_loop_dom (Inr (Inr (opt, depth, ms, t))) \<Longrightarrow>
    object_loop opt depth ms t = Inr (v, u) \<Longrightarrow> length u < length t"
proof (induction opt depth t and opt depth vs t and opt depth ms t arbitrary: v u and v u and v u
    rule: parse_value_array_loop_object_loop.pinduct)
  case (1 opt depth t0)
  let ?t = "skip_ws t0"
  note e = 1(4) [unfolded parse_value.psimps [OF 1(1)] Let_def]
  have t: "length ?t \<le> length t0"
    by (rule length_skip_ws)
  show ?case
  proof (cases "peek_byte ?t = CHR ''{'' \<or> peek_byte ?t = CHR ''[''")
    case False
    then show ?thesis
      using e t by (fastforce simp: bind_r_eq_Inr fail_about_def split: if_splits
        dest: parse_string_length parse_integer_length parse_word_length)
  next
    case True
    have short: "length (skip_ws t1) < length t0" if "expect opt c ?t = Inr t1" "c \<noteq> CHR 0x00" for c t1
      using expect_length [OF that] t length_skip_ws [of t1] by simp
    consider (empty) c t1 where "expect opt c ?t = Inr t1" "c \<noteq> CHR 0x00" "u = tl (skip_ws t1)"
      | (object) t1 where "\<not> max_depth opt \<le> depth" "?t \<noteq> []" "peek_byte ?t \<noteq> quote" "peek_byte ?t = CHR ''{''"
        "expect opt (CHR ''{'') ?t = Inr t1" "peek_byte (skip_ws t1) \<noteq> CHR ''}''"
        "object_loop opt (Suc depth) [] (skip_ws t1) = Inr (v, u)"
      | (array) t1 where "\<not> max_depth opt \<le> depth" "?t \<noteq> []" "peek_byte ?t \<noteq> quote" "peek_byte ?t \<noteq> CHR ''{''"
        "peek_byte ?t = CHR ''[''" "expect opt (CHR ''['') ?t = Inr t1" "peek_byte (skip_ws t1) \<noteq> CHR '']''"
        "array_loop opt (Suc depth) [] (skip_ws t1) = Inr (v, u)"
      using e True by (fastforce simp: bind_r_eq_Inr fail_about_def split: if_splits)
    then show ?thesis
    proof cases
      case empty
      then show ?thesis using short [OF empty(1,2)] by simp
    next
      case object
      show ?thesis
        using 1(2) [OF refl object(1-6) object(7)] short [OF object(5)] by simp
    next
      case array
      show ?thesis
        using 1(3) [OF refl array(1-7) array(8)] short [OF array(6)] by simp
    qed
  qed
next
  case (2 opt depth vs t0)
  note e = 2(4) [unfolded array_loop.psimps [OF 2(1)]]
  then obtain x t1 where x: "parse_value opt depth (skip_ws t0) = Inr (x, t1)"
    by (auto simp: bind_r_eq_Inr)
  have t1: "length (skip_ws t1) < length t0"
    using 2(2) [OF x] length_skip_ws [of t1] length_skip_ws [of t0] by simp
  show ?case
  proof (cases "peek_byte (skip_ws t1) = CHR '']''")
    case True
    then show ?thesis using e x t1 by auto
  next
    case False
    then obtain t2 where t2: "expect opt (CHR '','') (skip_ws t1) = Inr t2"
        "array_loop opt depth (vs @ [x]) t2 = Inr (v, u)"
      using e x by (auto simp: bind_r_eq_Inr)
    show ?thesis
      using 2(3) [OF x refl False t2] expect_length [OF t2(1)] t1 by simp
  qed
next
  case (3 opt depth ms t0)
  let ?t = "skip_ws t0"
  note e = 3(4) [unfolded object_loop.psimps [OF 3(1)] Let_def]
  then obtain k t1 t2 x t3 ms' where k: "\<not> peek_byte ?t \<noteq> quote" "parse_string opt ?t = Inr (k, t1)"
      "expect opt (CHR '':'') (skip_ws t1) = Inr t2" "parse_value opt depth (skip_ws t2) = Inr (x, t3)"
      "emplace k x ms = Some ms'"
    by (auto simp: bind_r_eq_Inr fail_about_def split: if_splits option.splits)
  have "length t3 < length (skip_ws t2)"
    by (rule 3(2) [OF refl k(1,2) refl k(3,4)])
  then have t3: "length (skip_ws t3) < length t0"
    using length_skip_ws [of t3] length_skip_ws [of t2] expect_length [OF k(3)] length_skip_ws [of t1]
      parse_string_length [OF k(2)] length_skip_ws [of t0] by simp
  show ?case
  proof (cases "peek_byte (skip_ws t3) = CHR ''}''")
    case True
    then show ?thesis using e k t3 by auto
  next
    case False
    then obtain t4 where t4: "expect opt (CHR '','') (skip_ws t3) = Inr t4"
        "object_loop opt depth ms' t4 = Inr (v, u)"
      using e k by (auto simp: bind_r_eq_Inr)
    show ?thesis
      using 3(3) [OF refl k(1,2) refl k(3,4) refl k(5) False t4] expect_length [OF t4(1)] t3 by simp
  qed
qed

termination parse_value
proof (relation "measure (\<lambda>x. case x of Inl (opt, depth, t) \<Rightarrow> 2 * length t
    | Inr (Inl (opt, depth, vs, t)) \<Rightarrow> Suc (2 * length t)
    | Inr (Inr (opt, depth, ms, t)) \<Rightarrow> Suc (2 * length t))", goal_cases)
  case 1
  then show ?case by simp
next
  case (2 opt depth t0 x xa)
  then show ?case
    using expect_length [of opt "CHR ''{''" "skip_ws t0" xa] length_skip_ws [of t0] length_skip_ws [of xa] by simp
next
  case (3 opt depth t0 x xa)
  then show ?case
    using expect_length [of opt "CHR ''[''" "skip_ws t0" xa] length_skip_ws [of t0] length_skip_ws [of xa] by simp
next
  case (4 opt depth vs t0)
  then show ?case
    using length_skip_ws [of t0] by simp
next
  case (5 opt depth vs t0 x xa y xb)
  then show ?case
    using expect_length [of opt "CHR '',''" "skip_ws y" xb] length_skip_ws [of y] length_skip_ws [of t0]
      parse_length(1) [of opt depth "skip_ws t0" xa y] by simp
next
  case (6 opt depth ms t0 x xa xb y xc)
  then show ?case
    using expect_length [of opt "CHR '':''" "skip_ws y" xc] length_skip_ws [of y] length_skip_ws [of t0]
      parse_string_length [of opt "skip_ws t0" xb y] length_skip_ws [of xc] by simp
next
  case (7 opt depth ms t0 x xa xb y xc xd xe ya x2 xf)
  then show ?case
    using expect_length [of opt "CHR '':''" "skip_ws y" xc] length_skip_ws [of y] length_skip_ws [of t0]
      parse_string_length [of opt "skip_ws t0" xb y] length_skip_ws [of xc]
      expect_length [of opt "CHR '',''" "skip_ws ya" xf] length_skip_ws [of ya]
      parse_length(1) [of opt depth "skip_ws xc" xe ya] by simp
qed

declare parse_value.simps [simp del] array_loop.simps [simp del] object_loop.simps [simp del]

text \<open>\<open>read\<close>: one value, white space around it, and nothing else.\<close>

definition read_strict_json :: "string \<Rightarrow> json_options \<Rightarrow> string + json_val" where
  "read_strict_json text opt =
    bind_r (parse_value opt 0 (skip_ws text)) (\<lambda>(v, t).
      if skip_ws t \<noteq> [] then Inl ''Unexpected data after JSON value.'' else Inr v)"

end
