(* ===== verification/Json_Text.thy ===== *)
theory Json_Text
  imports Strict_Json
begin

text \<open>
  What the strict JSON reader accepts and returns: the values it can return, and a writer of their
  texts that it reads back.
\<close>

section \<open>Values within the schema limits\<close>

fun json_depth :: "json_val \<Rightarrow> nat" where
  "json_depth (JArray vs) = Suc (foldr (\<lambda>v. max (json_depth v)) vs 0)"
| "json_depth (JObject ms) = Suc (foldr (\<lambda>m. max (json_depth (snd m))) ms 0)"
| "json_depth _ = 1"

fun json_ok :: "json_val \<Rightarrow> bool" where
  "json_ok (JInt n) \<longleftrightarrow> - int64_max \<le> n \<and> n \<le> int64_max"
| "json_ok (JArray vs) \<longleftrightarrow> (\<forall>v \<in> set vs. json_ok v)"
| "json_ok (JObject ms) \<longleftrightarrow> sorted_wrt (<) (map fst ms) \<and> (\<forall>m \<in> set ms. json_ok (snd m))"
| "json_ok _ \<longleftrightarrow> True"

text \<open>\<open>fits_below opt d v\<close>: \<open>v\<close> may stand below \<open>d\<close> other values.\<close>

definition fits_below :: "json_options \<Rightarrow> nat \<Rightarrow> json_val \<Rightarrow> bool" where
  "fits_below opt d v \<longleftrightarrow> json_ok v \<and> d + json_depth v \<le> max_depth opt"

lemma foldr_max_le: "foldr (\<lambda>x. max (f x)) xs 0 \<le> (n :: nat) \<longleftrightarrow> (\<forall>x \<in> set xs. f x \<le> n)"
  by (induction xs) auto

lemma fits_below_array:
  "fits_below opt d (JArray vs) \<longleftrightarrow> Suc d \<le> max_depth opt \<and> (\<forall>v \<in> set vs. fits_below opt (Suc d) v)"
proof -
  have "d + Suc (foldr (\<lambda>v. max (json_depth v)) vs 0) \<le> m \<longleftrightarrow>
      Suc d \<le> m \<and> (\<forall>v \<in> set vs. Suc d + json_depth v \<le> m)" for m
    using foldr_max_le [of json_depth vs "m - Suc d"] by (cases "Suc d \<le> m") (auto simp: le_diff_conv2 add.commute)
  then show ?thesis
    by (auto simp: fits_below_def)
qed

lemma fits_below_object:
  "fits_below opt d (JObject ms) \<longleftrightarrow> Suc d \<le> max_depth opt \<and> sorted_wrt (<) (map fst ms) \<and>
    (\<forall>m \<in> set ms. fits_below opt (Suc d) (snd m))"
proof -
  have "d + Suc (foldr (\<lambda>v. max (json_depth (snd v))) ms 0) \<le> m \<longleftrightarrow>
      Suc d \<le> m \<and> (\<forall>v \<in> set ms. Suc d + json_depth (snd v) \<le> m)" for m
    using foldr_max_le [of "\<lambda>v. json_depth (snd v)" ms "m - Suc d"]
    by (cases "Suc d \<le> m") (auto simp: le_diff_conv2 add.commute)
  then show ?thesis
    by (auto simp: fits_below_def)
qed

section \<open>What the reader returns\<close>

lemma integer_digits_bound:
  "integer_digits opt v t = Inr (w, u) \<Longrightarrow> 0 \<le> v \<Longrightarrow> v \<le> int64_max \<Longrightarrow> 0 \<le> w \<and> w \<le> int64_max"
proof (induction opt v t rule: integer_digits.induct)
  case (2 opt v c t)
  have ten: "x div 10 * 10 \<le> x" for x :: int
    by presburger
  show ?case
  proof (cases "is_digit c \<and> \<not> (int64_max - int (digit_val c)) div 10 < v")
    case True
    then have "v * 10 + int (digit_val c) \<le> int64_max"
      using ten [of "int64_max - int (digit_val c)"] by linarith
    then show ?thesis
      using 2 True by auto
  next
    case False
    then show ?thesis
      using 2 by (auto simp: fail_about_def split: if_splits)
  qed
qed simp

lemma parse_integer_bound: "parse_integer opt t = Inr (n, u) \<Longrightarrow> json_ok (JInt n)"
  using integer_digits_bound [of opt 0 _ _ u]
  by (auto simp: parse_integer_def Let_def bind_r_eq_Inr fail_in_def fail_about_def int64_max_def split: if_splits)
    fastforce+

lemma parse_word_ok: "parse_word opt t = Inr (v, u) \<Longrightarrow> json_ok v \<and> json_depth v = 1"
  by (auto simp: parse_word_def fail_in_def split: option.splits)

lemma emplace_sorted:
  assumes "emplace k v ms = Some ms'" "sorted_wrt (<) (map fst ms)"
  shows "sorted_wrt (<) (map fst ms')" "set ms' = insert (k, v) (set ms)"
proof -
  have k: "k \<notin> fst ` set ms" "ms' = insort_key fst (k, v) ms"
    using assms(1) by (auto simp: emplace_def split: if_splits)
  show "set ms' = insert (k, v) (set ms)"
    by (simp add: k(2) set_insort_key)
  have "map fst ms' = insort k (map fst ms)"
    unfolding k(2) by (induction ms) auto
  then show "sorted_wrt (<) (map fst ms')"
    using assms(2) k(1) by (simp add: strict_sorted_iff sorted_insort distinct_insort)
qed

lemma reader_within:
  "parse_value opt d t = Inr (v, u) \<Longrightarrow> fits_below opt d v"
  "array_loop opt d vs t = Inr (v, u) \<Longrightarrow> d \<le> max_depth opt \<Longrightarrow> \<forall>x \<in> set vs. fits_below opt d x \<Longrightarrow>
    \<exists>ws. v = JArray ws \<and> (\<forall>x \<in> set ws. fits_below opt d x)"
  "object_loop opt d ms t = Inr (v, u) \<Longrightarrow> d \<le> max_depth opt \<Longrightarrow>
    sorted_wrt (<) (map fst ms) \<and> (\<forall>m \<in> set ms. fits_below opt d (snd m)) \<Longrightarrow>
    \<exists>ns. v = JObject ns \<and> sorted_wrt (<) (map fst ns) \<and> (\<forall>m \<in> set ns. fits_below opt d (snd m))"
proof (induction opt d t and opt d vs t and opt d ms t arbitrary: v u and v u and v u
    rule: parse_value_array_loop_object_loop.induct)
  case (1 opt d t0)
  let ?t = "skip_ws t0"
  note e = 1(3) [unfolded parse_value.simps [of opt d t0] Let_def]
  have d: "Suc d \<le> max_depth opt"
    using e by (auto simp: fail_about_def split: if_splits)
  consider (leaf) "json_ok v" "json_depth v = 1"
    | (object) t1 where "?t \<noteq> []" "peek_byte ?t \<noteq> quote" "peek_byte ?t = CHR ''{''"
      "expect opt (CHR ''{'') ?t = Inr t1" "peek_byte (skip_ws t1) \<noteq> CHR ''}''"
      "object_loop opt (Suc d) [] (skip_ws t1) = Inr (v, u)"
    | (array) t1 where "?t \<noteq> []" "peek_byte ?t \<noteq> quote" "peek_byte ?t \<noteq> CHR ''{''"
      "peek_byte ?t = CHR ''[''" "expect opt (CHR ''['') ?t = Inr t1" "peek_byte (skip_ws t1) \<noteq> CHR '']''"
      "array_loop opt (Suc d) [] (skip_ws t1) = Inr (v, u)"
    using e d parse_word_ok parse_integer_bound
    by (fastforce simp: bind_r_eq_Inr split: if_splits)
  then show ?case
  proof cases
    case leaf
    then show ?thesis using d by (simp add: fits_below_def)
  next
    case object
    have "\<exists>ns. v = JObject ns \<and> sorted_wrt (<) (map fst ns) \<and> (\<forall>m \<in> set ns. fits_below opt (Suc d) (snd m))"
      by (rule 1(1) [OF refl _ object(1-5) object(6)]) (use d in auto)
    then show ?thesis using d by (auto simp: fits_below_object)
  next
    case array
    have "\<exists>ws. v = JArray ws \<and> (\<forall>x \<in> set ws. fits_below opt (Suc d) x)"
      by (rule 1(2) [OF refl _ array(1-6) array(7)]) (use d in auto)
    then show ?thesis using d by (auto simp: fits_below_array)
  qed
next
  case (2 opt d vs t0)
  note e = 2(3) [unfolded array_loop.simps [of opt d vs t0]]
  then obtain x t1 where x: "parse_value opt d (skip_ws t0) = Inr (x, t1)"
    by (auto simp: bind_r_eq_Inr)
  have w: "\<forall>y \<in> set (vs @ [x]). fits_below opt d y"
    using 2(1) [OF x] 2(5) by simp
  show ?case
  proof (cases "peek_byte (skip_ws t1) = CHR '']''")
    case True
    then show ?thesis using e x w by auto
  next
    case False
    then obtain t2 where t2: "expect opt (CHR '','') (skip_ws t1) = Inr t2"
        "array_loop opt d (vs @ [x]) t2 = Inr (v, u)"
      using e x by (auto simp: bind_r_eq_Inr)
    show ?thesis
      by (rule 2(2) [OF x refl False t2 2(4) w])
  qed
next
  case (3 opt d ms t0)
  let ?t = "skip_ws t0"
  note e = 3(3) [unfolded object_loop.simps [of opt d ms t0] Let_def]
  then obtain k t1 t2 x t3 ms' where k: "\<not> peek_byte ?t \<noteq> quote" "parse_string opt ?t = Inr (k, t1)"
      "expect opt (CHR '':'') (skip_ws t1) = Inr t2" "parse_value opt d (skip_ws t2) = Inr (x, t3)"
      "emplace k x ms = Some ms'"
    by (auto simp: bind_r_eq_Inr fail_about_def split: if_splits option.splits)
  have "fits_below opt d x"
    by (rule 3(1) [OF refl k(1,2) refl k(3,4)])
  then have w: "sorted_wrt (<) (map fst ms') \<and> (\<forall>m \<in> set ms'. fits_below opt d (snd m))"
    using emplace_sorted [OF k(5)] 3(5) by auto
  show ?case
  proof (cases "peek_byte (skip_ws t3) = CHR ''}''")
    case True
    then show ?thesis using e k w by auto
  next
    case False
    then obtain t4 where t4: "expect opt (CHR '','') (skip_ws t3) = Inr t4"
        "object_loop opt d ms' t4 = Inr (v, u)"
      using e k by (auto simp: bind_r_eq_Inr)
    show ?thesis
      by (rule 3(2) [OF refl k(1,2) refl k(3,4) refl k(5) False t4 3(4) w])
  qed
qed

section \<open>A writer\<close>

definition hex_char :: "nat \<Rightarrow> char" where
  "hex_char n = (if n < 10 then char_of (48 + n) else char_of (87 + n))"

definition json_char :: "char \<Rightarrow> string" where
  "json_char c =
    (let n = of_char c :: nat
     in if c = quote \<or> c = backslash then [backslash, c]
        else if n < 0x20 then [backslash, CHR ''u'', CHR ''0'', CHR ''0'', hex_char (n div 16), hex_char (n mod 16)]
        else [c])"

definition json_string :: "string \<Rightarrow> string" where
  "json_string s = quote # concat (map json_char s) @ [quote]"

definition json_integer :: "int \<Rightarrow> string" where
  "json_integer n = (if n < 0 then ''-'' else []) @ nat_text (nat \<bar>n\<bar>)"

fun commas :: "string list \<Rightarrow> string" where
  "commas [] = []"
| "commas [x] = x"
| "commas (x # y # ys) = x @ '','' @ commas (y # ys)"

fun json_text :: "json_val \<Rightarrow> string" where
  "json_text JNull = ''null''"
| "json_text (JBool b) = (if b then ''true'' else ''false'')"
| "json_text (JInt n) = json_integer n"
| "json_text (JString s) = json_string s"
| "json_text (JArray vs) = ''['' @ commas (map json_text vs) @ '']''"
| "json_text (JObject ms) =
    ''{'' @ commas (map (\<lambda>m. json_string (fst m) @ '':'' @ json_text (snd m)) ms) @ ''}''"

section \<open>The reader reads what the writer writes\<close>

lemma hex_digit_char: "n < 16 \<Longrightarrow> hex_digit (hex_char n) = Some n"
  by (auto simp: hex_digit_def hex_char_def of_char_of Let_def)

lemma peek_byte_simps [simp]: "peek_byte (c # t) = c" "peek_byte [] = CHR 0x00"
  by (simp_all add: peek_byte_def)

lemma expect_same [simp]: "expect opt c (c # t) = Inr t"
  by (simp add: expect_def)

lemma or_below: "n < 2 ^ k \<Longrightarrow> m * 2 ^ k OR n = m * 2 ^ k + (n :: nat)"
proof -
  assume n: "n < 2 ^ k"
  have "\<not> bit (push_bit k m) i \<or> \<not> bit n i" for i
  proof (cases "i < k")
    case True
    then show ?thesis by (simp add: bit_push_bit_iff)
  next
    case False
    have "take_bit k n = n" using n by (simp add: take_bit_nat_eq_self_iff)
    then show ?thesis using False by (metis bit_take_bit_iff)
  qed
  then have "push_bit k m OR n = push_bit k m + n"
    by (intro disjunctive_add [symmetric]) auto
  then show ?thesis by (simp add: push_bit_eq_mult)
qed

lemma shift_or: "n < 16 \<Longrightarrow> push_bit 4 m OR n = m * 16 + (n :: nat)"
  using or_below [of n 4 m] by (simp add: push_bit_eq_mult)

lemma control_escape:
  assumes "n < 32"
  shows "unicode_escape opt out (CHR ''0'' # CHR ''0'' # hex_char (n div 16) # hex_char (n mod 16) # t) =
    Inr (out @ [char_of n], t)"
proof -
  have z: "hex_digit (CHR ''0'') = Some 0"
    by (simp add: hex_digit_def)
  have "hex4 opt (CHR ''0'' # CHR ''0'' # hex_char (n div 16) # hex_char (n mod 16) # t) = Inr (n, t)"
  proof -
    have four: "(4 :: nat) = Suc (Suc (Suc (Suc 0)))"
      by simp
    have d: "hex_digit (hex_char (n div 16)) = Some (n div 16)" "hex_digit (hex_char (n mod 16)) = Some (n mod 16)"
      using assms by (simp_all add: hex_digit_char)
    have "push_bit 4 (n div 16) OR n mod 16 = n"
      using shift_or [of "n mod 16" "n div 16"] by simp
    then show ?thesis
      unfolding hex4_def by (subst (2) four) (simp add: z d)
  qed
  then show ?thesis
    using assms by (simp add: unicode_escape_def append_utf8_def)
qed

lemma string_chars_text:
  "string_chars opt out (concat (map json_char s) @ quote # t) = Inr (out @ s, t)"
proof (induction s arbitrary: out)
  case (Cons c s)
  let ?r = "concat (map json_char s) @ quote # t"
  have "string_chars opt out (json_char c @ ?r) = string_chars opt (out @ [c]) ?r"
    using control_escape [of "of_char c" opt out ?r]
    by (auto simp: json_char_def Let_def simple_escape_def)
  then show ?case
    using Cons.IH [of "out @ [c]"] by simp
qed simp

lemma parse_string_text: "parse_string opt (json_string s @ t) = Inr (s, t)"
  using string_chars_text [of opt "[]" s t] by (simp add: parse_string_def json_string_def)

text \<open>What may follow a value: nothing, or a comma or a closing bracket.\<close>

definition ends_value :: "string \<Rightarrow> bool" where
  "ends_value t \<longleftrightarrow> t = [] \<or> hd t \<in> {CHR '','', CHR '']'', CHR ''}''}"

lemma integer_digits_text:
  "\<forall>c \<in> set ds. is_digit c \<Longrightarrow> ends_value t \<Longrightarrow>
   int (foldl (\<lambda>n c. 10 * n + digit_val c) m ds) \<le> int64_max \<Longrightarrow>
   integer_digits opt (int m) (ds @ t) = Inr (int (foldl (\<lambda>n c. 10 * n + digit_val c) m ds), t)"
proof (induction ds arbitrary: m)
  case Nil
  then show ?case
    by (cases t) (auto simp: ends_value_def is_digit_range)
next
  case (Cons c ds)
  have ge: "x \<le> x * 10 ^ length ds + digits_val ds" for x :: nat
  proof -
    have "x * 1 \<le> x * 10 ^ length ds"
      by (intro mult_le_mono2) simp
    then show ?thesis
      by linarith
  qed
  have "10 * m + digit_val c \<le> foldl (\<lambda>n c. 10 * n + digit_val c) (10 * m + digit_val c) ds"
    unfolding foldl_digits by (rule ge)
  then have "int m * 10 + int (digit_val c) \<le> int64_max"
    using Cons.prems(3) by simp
  then have "\<not> (int64_max - int (digit_val c)) div 10 < int m"
    by presburger
  then show ?case
    using Cons.IH [of "10 * m + digit_val c"] Cons.prems by (simp add: algebra_simps)
qed

lemma parse_integer_text:
  assumes "json_ok (JInt n)" "ends_value t"
  shows "parse_integer opt (json_integer n @ t) = Inr (n, t)"
proof -
  let ?ds = "nat_text (nat \<bar>n\<bar>)"
  have d: "\<forall>c \<in> set ?ds. is_digit c" "?ds \<noteq> []"
    using nat_text_digits by auto
  have "foldl (\<lambda>n c. 10 * n + digit_val c) 0 ?ds = nat \<bar>n\<bar>"
    using foldl_digits [of 0 ?ds] by simp
  then have digits: "integer_digits opt 0 (?ds @ t) = Inr (\<bar>n\<bar>, t)"
    using integer_digits_text [OF d(1) assms(2), of 0 opt] assms(1) by auto
  obtain c cs where c: "?ds = c # cs" "is_digit c"
    using d by (cases ?ds) auto
  have "t \<noteq> [] \<Longrightarrow> peek_byte t \<noteq> CHR ''.'' \<and> peek_byte t \<noteq> CHR ''e'' \<and> peek_byte t \<noteq> CHR ''E''"
    using assms(2) by (cases t) (auto simp: ends_value_def)
  moreover have "c \<noteq> CHR ''-''"
    using c(2) by (auto simp: is_digit_range)
  ultimately show ?thesis
    using digits c by (auto simp: parse_integer_def json_integer_def Let_def)
qed

lemma json_string_start: "json_string s @ t = quote # concat (map json_char s) @ quote # t"
  by (simp add: json_string_def)

lemma json_integer_start:
  obtains c cs where "json_integer n = c # cs" "c = CHR ''-'' \<or> is_digit c"
proof -
  have "\<forall>c \<in> set (nat_text (nat \<bar>n\<bar>)). is_digit c" "nat_text (nat \<bar>n\<bar>) \<noteq> []"
    using nat_text_digits by auto
  then have "\<exists>c cs. json_integer n = c # cs \<and> (c = CHR ''-'' \<or> is_digit c)"
    by (cases "nat_text (nat \<bar>n\<bar>)") (auto simp: json_integer_def)
  then show ?thesis
    using that by blast
qed

lemma skip_ws_keeps: "\<not> is_space (peek_byte t) \<Longrightarrow> skip_ws t = t"
  by (cases t) (simp_all add: skip_ws_def)

lemma no_space [simp]:
  "\<not> is_space quote" "\<not> is_space (CHR ''['')" "\<not> is_space (CHR ''{'')" "\<not> is_space (CHR '']'')"
  "\<not> is_space (CHR ''}'')" "\<not> is_space (CHR '','')" "\<not> is_space (CHR '':'')" "\<not> is_space (CHR ''n'')"
  "\<not> is_space (CHR ''t'')" "\<not> is_space (CHR ''f'')" "\<not> is_space (CHR ''-'')" "is_digit c \<Longrightarrow> \<not> is_space c"
  by (auto simp: is_space_def is_digit_range)

lemma skip_ws_Cons [simp]: "\<not> is_space c \<Longrightarrow> skip_ws (c # t) = c # t"
  by (simp add: skip_ws_def)

lemma skip_ws_Nil [simp]: "skip_ws [] = []"
  by (simp add: skip_ws_def)

lemma skip_ws_text: "skip_ws (json_text v @ t) = json_text v @ t"
  by (cases v; simp add: json_string_start skip_ws_def)
    (metis append_Cons dropWhile_eq_self_iff json_integer_start list.sel(1) list.distinct(1) no_space(11,12))

lemma json_text_start: "peek_byte (json_text v @ t) \<noteq> CHR '']''"
proof (cases v)
  case (JInt n)
  obtain c cs where "json_integer n = c # cs" "c = CHR ''-'' \<or> is_digit c"
    by (rule json_integer_start)
  then show ?thesis
    using JInt by (auto simp: is_digit_range)
qed (simp_all add: json_string_start)

definition reads :: "json_options \<Rightarrow> nat \<Rightarrow> json_val \<Rightarrow> bool" where
  "reads opt d v \<longleftrightarrow> (\<forall>t. ends_value t \<longrightarrow> parse_value opt d (json_text v @ t) = Inr (v, t))"

lemma array_loop_text:
  assumes "ws \<noteq> []" "\<forall>w \<in> set ws. reads opt d w"
  shows "array_loop opt d vs (commas (map json_text ws) @ CHR '']'' # t) = Inr (JArray (vs @ ws), t)"
  using assms
proof (induction ws arbitrary: vs rule: induct_list012)
  case (2 w)
  have "parse_value opt d (json_text w @ CHR '']'' # t) = Inr (w, CHR '']'' # t)"
    using 2(2) by (simp add: reads_def ends_value_def)
  then show ?case
    by (simp add: array_loop.simps [of opt d vs] skip_ws_text)
next
  case (3 w w' ws)
  let ?r = "commas (map json_text (w' # ws)) @ CHR '']'' # t"
  have "parse_value opt d (json_text w @ CHR '','' # ?r) = Inr (w, CHR '','' # ?r)"
    using 3(4) by (simp add: reads_def ends_value_def)
  moreover have "array_loop opt d (vs @ [w]) ?r = Inr (JArray ((vs @ [w]) @ w' # ws), t)"
    using 3(2) [of "vs @ [w]"] 3(4) by simp
  ultimately show ?case
    by (simp add: array_loop.simps [of opt d vs] skip_ws_text)
qed simp

lemma emplace_last:
  assumes "\<forall>x \<in> fst ` set ms. x < k"
  shows "emplace k v ms = Some (ms @ [(k, v)])"
proof -
  have "insort_key fst (k, v) ms = ms @ [(k, v)]"
    using assms by (induction ms) auto
  then show ?thesis
    using assms by (auto simp: emplace_def)
qed

lemma object_loop_text:
  assumes "ns \<noteq> []" "\<forall>m \<in> set ns. reads opt d (snd m)" "sorted_wrt (<) (map fst (ms @ ns))"
  shows "object_loop opt d ms
      (commas (map (\<lambda>m. json_string (fst m) @ '':'' @ json_text (snd m)) ns) @ CHR ''}'' # t) =
    Inr (JObject (ms @ ns), t)"
  using assms
proof (induction ns arbitrary: ms rule: induct_list012)
  case (2 m)
  have "emplace (fst m) (snd m) ms = Some (ms @ [m])"
    using 2(3) by (subst emplace_last) (auto simp: sorted_wrt_append)
  moreover have "parse_value opt d (json_text (snd m) @ CHR ''}'' # t) = Inr (snd m, CHR ''}'' # t)"
    using 2(2) by (simp add: reads_def ends_value_def)
  moreover have "parse_string opt (json_string (fst m) @ CHR '':'' # u) = Inr (fst m, CHR '':'' # u)" for u
    by (rule parse_string_text)
  ultimately show ?case
    by (simp add: object_loop.simps [of opt d ms] skip_ws_text json_string_start Let_def)
next
  case (3 m m' ns)
  let ?r = "commas (map (\<lambda>m. json_string (fst m) @ '':'' @ json_text (snd m)) (m' # ns)) @ CHR ''}'' # t"
  have "emplace (fst m) (snd m) ms = Some (ms @ [m])"
    using 3(5) by (subst emplace_last) (auto simp: sorted_wrt_append)
  moreover have "parse_value opt d (json_text (snd m) @ CHR '','' # ?r) = Inr (snd m, CHR '','' # ?r)"
    using 3(4) by (simp add: reads_def ends_value_def)
  moreover have "parse_string opt (json_string (fst m) @ CHR '':'' # u) = Inr (fst m, CHR '':'' # u)" for u
    by (rule parse_string_text)
  moreover have "object_loop opt d (ms @ [m]) ?r = Inr (JObject ((ms @ [m]) @ m' # ns), t)"
    using 3(2) [of "ms @ [m]"] 3(4,5) by simp
  ultimately show ?case
    by (simp add: object_loop.simps [of opt d ms] skip_ws_text json_string_start Let_def)
qed simp

lemma commas_start: "xs \<noteq> [] \<Longrightarrow> \<exists>u. commas xs @ t = hd xs @ u"
  by (induction xs rule: commas.induct) auto

lemma json_reads: "fits_below opt d v \<Longrightarrow> reads opt d v"
proof (induction v arbitrary: d)
  case JNull
  then show ?case
    by (auto simp: reads_def fits_below_def parse_value.simps [of opt d] Let_def parse_word_def consume_Some
        consume_def is_digit_range)
next
  case (JBool b)
  then show ?case
    by (cases b) (auto simp: reads_def fits_below_def parse_value.simps [of opt d] Let_def parse_word_def
        consume_def is_digit_range)
next
  case (JInt n)
  show ?case
    unfolding reads_def
  proof (intro allI impI)
    fix t assume t: "ends_value t"
    obtain c cs where c: "json_integer n = c # cs" "c = CHR ''-'' \<or> is_digit c"
      by (rule json_integer_start)
    have "parse_integer opt (json_integer n @ t) = Inr (n, t)"
      using JInt t by (intro parse_integer_text) (auto simp: fits_below_def)
    moreover have "skip_ws (json_integer n @ t) = json_integer n @ t"
      using skip_ws_text [of "JInt n" t] by simp
    moreover have "c \<noteq> quote" "c \<noteq> CHR ''{''" "c \<noteq> CHR ''[''"
      using c(2) by (auto simp: is_digit_range)
    ultimately show "parse_value opt d (json_text (JInt n) @ t) = Inr (JInt n, t)"
      using JInt c by (auto simp: fits_below_def parse_value.simps [of opt d] Let_def)
  qed
next
  case (JString s)
  show ?case
    unfolding reads_def
  proof (intro allI impI)
    fix t
    have "parse_string opt (json_string s @ t) = Inr (s, t)"
      by (rule parse_string_text)
    then show "parse_value opt d (json_text (JString s) @ t) = Inr (JString s, t)"
      using JString by (auto simp: fits_below_def parse_value.simps [of opt d] Let_def json_string_start)
  qed
next
  case (JArray vs)
  have d: "\<not> max_depth opt \<le> d" "\<forall>v \<in> set vs. reads opt (Suc d) v"
    using JArray by (auto simp: fits_below_array)
  show ?case
    unfolding reads_def
  proof (intro allI impI)
    fix t
    show "parse_value opt d (json_text (JArray vs) @ t) = Inr (JArray vs, t)"
    proof (cases "vs = []")
      case True
      then show ?thesis
        using d by (simp add: parse_value.simps [of opt d] Let_def)
    next
      case False
      let ?r = "commas (map json_text vs) @ CHR '']'' # t"
      obtain u where u: "?r = json_text (hd vs) @ u"
        using commas_start [of "map json_text vs"] False by (auto simp: hd_map)
      then have ws: "skip_ws ?r = ?r"
        using skip_ws_text by metis
      have "peek_byte ?r \<noteq> CHR '']''"
        unfolding u by (rule json_text_start)
      moreover have "array_loop opt (Suc d) [] ?r = Inr (JArray vs, t)"
        using array_loop_text [OF False d(2), of "[]" t] by simp
      ultimately show ?thesis
        using d ws by (simp add: parse_value.simps [of opt d] Let_def)
    qed
  qed
next
  case (JObject ms)
  have d: "\<not> max_depth opt \<le> d" "\<forall>m \<in> set ms. reads opt (Suc d) (snd m)" "sorted_wrt (<) (map fst ([] @ ms))"
    using JObject by (auto simp: fits_below_object snds.simps)
  show ?case
    unfolding reads_def
  proof (intro allI impI)
    fix t
    show "parse_value opt d (json_text (JObject ms) @ t) = Inr (JObject ms, t)"
    proof (cases "ms = []")
      case True
      then show ?thesis
        using d by (simp add: parse_value.simps [of opt d] Let_def)
    next
      case False
      let ?r = "commas (map (\<lambda>m. json_string (fst m) @ '':'' @ json_text (snd m)) ms) @ CHR ''}'' # t"
      obtain u where "?r = quote # u"
        using commas_start [of "map (\<lambda>m. json_string (fst m) @ '':'' @ json_text (snd m)) ms"] False
        by (auto simp: hd_map json_string_start)
      then have "skip_ws ?r = ?r" "peek_byte ?r \<noteq> CHR ''}''"
        by simp_all
      moreover have "object_loop opt (Suc d) [] ?r = Inr (JObject ms, t)"
        using object_loop_text [OF False d(2,3), of t] by simp
      ultimately show ?thesis
        using d by (simp add: parse_value.simps [of opt d] Let_def)
    qed
  qed
qed

definition sample_options :: json_options where
  "sample_options = \<lparr>document = ''patch JSON'', max_depth = 2\<rparr>"

text \<open>
  The smallest 64-bit integer is refused, though the header promises integers that fit in 64 bits: the
  digits are accumulated before the sign is applied.
\<close>

lemma int64_min_refused:
  "read_strict_json ''-9223372036854775808'' sample_options = Inl ''Patch JSON integer is out of range.''"
  by code_simp

text \<open>The other way to write a string: every scalar value escaped, in a surrogate pair above the basic plane.\<close>

definition hex4_text :: "nat \<Rightarrow> string" where
  "hex4_text n = [hex_char (n div 4096), hex_char (n div 256 mod 16), hex_char (n div 16 mod 16), hex_char (n mod 16)]"

definition json_scalar :: "nat \<Rightarrow> string" where
  "json_scalar cp =
    (if cp < 0x10000 then [backslash, CHR ''u''] @ hex4_text cp
     else [backslash, CHR ''u''] @ hex4_text (0xd800 + (cp - 0x10000) div 1024)
       @ [backslash, CHR ''u''] @ hex4_text (0xdc00 + (cp - 0x10000) mod 1024))"

definition json_escaped :: "nat list \<Rightarrow> string" where
  "json_escaped cps = quote # concat (map json_scalar cps) @ [quote]"

lemma hex4_text_read:
  assumes "n < 65536"
  shows "hex4 opt (hex4_text n @ t) = Inr (n, t)"
proof -
  have four: "(4 :: nat) = Suc (Suc (Suc (Suc 0)))" by simp
  have d: "hex_digit (hex_char (n div 4096)) = Some (n div 4096)"
    "hex_digit (hex_char (n div 256 mod 16)) = Some (n div 256 mod 16)"
    "hex_digit (hex_char (n div 16 mod 16)) = Some (n div 16 mod 16)" "hex_digit (hex_char (n mod 16)) = Some (n mod 16)"
    using assms by (simp_all add: hex_digit_char)
  have "((n div 4096 * 16 + n div 256 mod 16) * 16 + n div 16 mod 16) * 16 + n mod 16 = n"
    using div_mult_mod_eq [of "n div 256" 16] div_mult_mod_eq [of "n div 16" 16] div_mult_mod_eq [of n 16]
    by (simp add: div_mult2_eq [symmetric])
  then show ?thesis
    unfolding hex4_def hex4_text_def by (subst (2) four) (use assms in \<open>simp add: d shift_or\<close>)
qed

lemma append_utf8_scalar:
  assumes "scalar cp"
  shows "append_utf8 opt out cp = Inr (out @ utf8_encode cp)"
proof -
  have m: "n AND 0x3f = n mod 64" for n :: nat
    using take_bit_eq_mask [of 6 n] by (simp add: take_bit_eq_mod mask_eq_exp_minus_1)
  have tail: "0x80 OR n mod 64 = 0x80 + n mod 64" for n :: nat using or_below [of "n mod 64" 6 2] by simp
  have two: "0xc0 OR n = 0xc0 + n" if "n < 64" for n :: nat using or_below [of n 6 3] that by simp
  have three: "0xe0 OR n = 0xe0 + n" if "n < 16" for n :: nat using or_below [of n 4 14] that by simp
  have more: "0xf0 OR n = 0xf0 + n" if "n < 8" for n :: nat using or_below [of n 3 30] that by simp
  have lead: "cp \<le> 0x7ff \<Longrightarrow> cp div 64 < 64" "cp \<le> 0xffff \<Longrightarrow> cp div 4096 < 16" "cp \<le> 0x10ffff \<Longrightarrow> cp div 262144 < 8"
    by (simp_all add: less_mult_imp_div_less)
  have le: "cp \<le> 0x10ffff" using assms by (simp add: scalar_def)
  consider "cp \<le> 0x7f" | "0x7f < cp" "cp \<le> 0x7ff" | "0x7ff < cp" "cp \<le> 0xffff" | "0xffff < cp" by linarith
  then show ?thesis
    by cases (use le lead in \<open>simp_all add: append_utf8_def utf8_encode_def m tail two three more drop_bit_eq_div\<close>)
qed

lemma json_scalar_read:
  assumes "scalar cp"
  shows "string_chars opt out (json_scalar cp @ t) = string_chars opt (out @ utf8_encode cp) t"
proof (cases "cp < 0x10000")
  case True
  have "unicode_escape opt out (hex4_text cp @ t) = Inr (out @ utf8_encode cp, t)"
    using assms True hex4_text_read [of cp opt t] append_utf8_scalar [OF assms, of opt out]
    by (auto simp: unicode_escape_def scalar_def)
  then show ?thesis using True by (simp add: json_scalar_def)
next
  case False
  define hi where "hi = 0xd800 + (cp - 0x10000) div 1024"
  define lo where "lo = 0xdc00 + (cp - 0x10000) mod 1024"
  have le: "cp \<le> 0x10ffff" using assms by (simp add: scalar_def)
  have hi: "0xd800 \<le> hi" "hi \<le> 0xdbff" using le False by (auto simp: hi_def less_mult_imp_div_less less_Suc_eq_le [symmetric])
  have lo: "0xdc00 \<le> lo" "lo \<le> 0xdfff"
    using mod_less_divisor [of 1024 "cp - 0x10000"] by (simp_all add: lo_def)
  have cp: "0x10000 + push_bit 10 (hi - 0xd800) + (lo - 0xdc00) = cp"
    using False by (simp add: hi_def lo_def push_bit_eq_mult)
  have "unicode_escape opt out (hex4_text hi @ [backslash, CHR ''u''] @ hex4_text lo @ t) = Inr (out @ utf8_encode cp, t)"
    using hi lo hex4_text_read [of hi opt "[backslash, CHR ''u''] @ hex4_text lo @ t"] hex4_text_read [of lo opt t]
      append_utf8_scalar [OF assms, of opt out]
    by (simp add: unicode_escape_def consume_def cp)
  then show ?thesis using False by (simp add: json_scalar_def flip: hi_def lo_def)
qed

lemma json_escaped_read:
  assumes "\<forall>cp \<in> set cps. scalar cp"
  shows "parse_string opt (json_escaped cps @ t) = Inr (concat (map utf8_encode cps), t)"
proof -
  have "string_chars opt out (concat (map json_scalar cps) @ quote # t) = Inr (out @ concat (map utf8_encode cps), t)" for out
    using assms
  proof (induction cps arbitrary: out)
    case (Cons cp cps)
    then show ?case
      using json_scalar_read [of cp opt out "concat (map json_scalar cps) @ quote # t"] by simp
  qed simp
  then show ?thesis by (simp add: parse_string_def json_escaped_def)
qed

lemma json_escaped_value:
  assumes "\<forall>cp \<in> set cps. scalar cp" "0 < max_depth opt"
  shows "read_strict_json (json_escaped cps) opt = Inr (JString (concat (map utf8_encode cps)))"
proof -
  have ws: "skip_ws (json_escaped cps) = json_escaped cps"
    by (simp add: json_escaped_def skip_ws_def is_space_def)
  have "parse_value opt 0 (json_escaped cps) = Inr (JString (concat (map utf8_encode cps)), [])"
    using json_escaped_read [OF assms(1), of opt "[]"] assms(2) ws
    by (subst parse_value.simps) (simp add: Let_def, simp add: json_escaped_def)
  then show ?thesis using ws by (simp add: read_strict_json_def skip_ws_def)
qed

text \<open>
  C9: the reader reads back what was written: for every value within those limits, reading its compact
  text, with control characters, quotes and backslashes of strings escaped, gives the value itself,
  whatever the name of the document; and a string with every Unicode scalar value escaped in
  hexadecimal, as a surrogate pair beyond the basic plane, gives the UTF-8 encoding of the values.
\<close>

theorem json_text_roundtrip:
  assumes "json_ok v" "json_depth v \<le> max_depth opt" "\<forall>cp \<in> set cps. scalar cp"
  shows "read_strict_json (json_text v) opt = Inr v
    \<and> read_strict_json (json_escaped cps) opt = Inr (JString (concat (map utf8_encode cps)))"
proof -
  have "parse_value opt 0 (json_text v @ []) = Inr (v, [])"
    using json_reads [of opt 0 v] assms by (simp add: fits_below_def reads_def ends_value_def)
  moreover have "0 < json_depth v" by (cases v) simp_all
  ultimately show ?thesis
    using skip_ws_text [of v "[]"] json_escaped_value [OF assms(3)] assms(2) by (simp add: read_strict_json_def)
qed

theorem json_text_roundtrip_witness:
  "read_strict_json (json_text (JObject [(''a'', JInt (- 3)), (''b'', JString [CHR 0x0A, quote])])) sample_options =
    Inr (JObject [(''a'', JInt (- 3)), (''b'', JString [CHR 0x0A, quote])])
   \<and> read_strict_json (json_escaped [0x1F600]) sample_options
    = Inr (JString (concat (map utf8_encode [0x1F600])))"
  by (rule json_text_roundtrip) (simp_all add: sample_options_def int64_max_def scalar_def)

end
