(* ===== verification/Json_Grammar.thy ===== *)
theory Json_Grammar
  imports Json_Text
begin

text \<open>
  The documents the strict JSON reader accepts, as a grammar: what a document may be, without the loops
  and the accumulators of the reader. Strings and integers are those of \<open>parse_string\<close> and
  \<open>parse_integer\<close>; a member list is read whole before its object is formed.
\<close>

section \<open>The grammar\<close>

text \<open>
  \<open>json_value opt d t v u\<close>: below \<open>d\<close> other values, the text \<open>t\<close> is a value \<open>v\<close> and then the text \<open>u\<close>.
  The members of an object are in the order of the text, and no two of them have one key; the object
  holds exactly them, in the order of the keys.
\<close>

inductive json_value :: "json_options \<Rightarrow> nat \<Rightarrow> string \<Rightarrow> json_val \<Rightarrow> string \<Rightarrow> bool"
  and json_items :: "json_options \<Rightarrow> nat \<Rightarrow> string \<Rightarrow> json_val list \<Rightarrow> string \<Rightarrow> bool"
  and json_members :: "json_options \<Rightarrow> nat \<Rightarrow> string \<Rightarrow> (string \<times> json_val) list \<Rightarrow> string \<Rightarrow> bool"
  for opt :: json_options where
  true_word: "d < max_depth opt \<Longrightarrow> skip_ws t = ''true'' @ u \<Longrightarrow> json_value opt d t (JBool True) u"
| false_word: "d < max_depth opt \<Longrightarrow> skip_ws t = ''false'' @ u \<Longrightarrow> json_value opt d t (JBool False) u"
| null_word: "d < max_depth opt \<Longrightarrow> skip_ws t = ''null'' @ u \<Longrightarrow> json_value opt d t JNull u"
| integer_value: "d < max_depth opt \<Longrightarrow> parse_integer opt (skip_ws t) = Inr (n, u) \<Longrightarrow> json_value opt d t (JInt n) u"
| string_value: "d < max_depth opt \<Longrightarrow> parse_string opt (skip_ws t) = Inr (s, u) \<Longrightarrow> json_value opt d t (JString s) u"
| no_items: "d < max_depth opt \<Longrightarrow> skip_ws t = CHR ''['' # t1 \<Longrightarrow> skip_ws t1 = CHR '']'' # u \<Longrightarrow> json_value opt d t (JArray []) u"
| items: "d < max_depth opt \<Longrightarrow> skip_ws t = CHR ''['' # t1 \<Longrightarrow> json_items opt (Suc d) t1 vs u \<Longrightarrow> json_value opt d t (JArray vs) u"
| no_members: "d < max_depth opt \<Longrightarrow> skip_ws t = CHR ''{'' # t1 \<Longrightarrow> skip_ws t1 = CHR ''}'' # u \<Longrightarrow> json_value opt d t (JObject []) u"
| members: "d < max_depth opt \<Longrightarrow> skip_ws t = CHR ''{'' # t1 \<Longrightarrow> json_members opt (Suc d) t1 ms u \<Longrightarrow>
    distinct (map fst ms) \<Longrightarrow> sorted_wrt (<) (map fst os) \<Longrightarrow> set os = set ms \<Longrightarrow> json_value opt d t (JObject os) u"
| last_item: "json_value opt d t v t1 \<Longrightarrow> skip_ws t1 = CHR '']'' # u \<Longrightarrow> json_items opt d t [v] u"
| more_items: "json_value opt d t v t1 \<Longrightarrow> skip_ws t1 = CHR '','' # t2 \<Longrightarrow> json_items opt d t2 vs u \<Longrightarrow>
    json_items opt d t (v # vs) u"
| last_member: "parse_string opt (skip_ws t) = Inr (k, t1) \<Longrightarrow> skip_ws t1 = CHR '':'' # t2 \<Longrightarrow> json_value opt d t2 v t3 \<Longrightarrow>
    skip_ws t3 = CHR ''}'' # u \<Longrightarrow> json_members opt d t [(k, v)] u"
| more_members: "parse_string opt (skip_ws t) = Inr (k, t1) \<Longrightarrow> skip_ws t1 = CHR '':'' # t2 \<Longrightarrow> json_value opt d t2 v t3 \<Longrightarrow>
    skip_ws t3 = CHR '','' # t4 \<Longrightarrow> json_members opt d t4 ms u \<Longrightarrow> json_members opt d t ((k, v) # ms) u"

definition json_document :: "json_options \<Rightarrow> string \<Rightarrow> json_val \<Rightarrow> bool" where
  "json_document opt t v \<longleftrightarrow> (\<exists>u. json_value opt 0 t v u \<and> skip_ws u = [])"

section \<open>First characters\<close>

lemma skip_ws_idem [simp]: "skip_ws (skip_ws t) = skip_ws t"
  by (simp add: skip_ws_def)

lemma peek_byte_iff: "c \<noteq> CHR 0x00 \<Longrightarrow> peek_byte t = c \<longleftrightarrow> t = c # tl t"
  by (cases t) (auto simp: peek_byte_def)

lemma expect_iff: "c \<noteq> CHR 0x00 \<Longrightarrow> expect opt c t = Inr u \<longleftrightarrow> t = c # u"
  by (cases t) (auto simp: expect_def fail_in_def peek_byte_def)

lemma parse_string_first: "parse_string opt t = Inr (s, u) \<Longrightarrow> \<exists>r. t = quote # r"
  by (auto simp: parse_string_def bind_r_eq_Inr expect_iff)

lemma parse_integer_first: "parse_integer opt t = Inr (n, u) \<Longrightarrow> peek_byte t = CHR ''-'' \<or> is_digit (peek_byte t)"
  by (auto simp: parse_integer_def fail_in_def Let_def split: if_splits)

lemma parse_word_iff:
  "parse_word opt t = Inr (v, u) \<longleftrightarrow>
    t = ''true'' @ u \<and> v = JBool True \<or> t = ''false'' @ u \<and> v = JBool False \<or> t = ''null'' @ u \<and> v = JNull"
proof -
  have c: "consume w t = Some r \<longleftrightarrow> t = w @ r" for w r by (rule consume_Some)
  show ?thesis
    by (cases "consume ''true'' t"; cases "consume ''false'' t"; cases "consume ''null'' t")
      (auto simp: parse_word_def fail_in_def c, (simp add: consume_def)+)
qed

lemma json_value_first:
  assumes "json_value opt d t v u"
  shows "skip_ws t \<noteq> []" "hd (skip_ws t) \<notin> {CHR '']'', CHR ''}'', CHR '',''}"
proof -
  have "skip_ws t \<noteq> [] \<and> hd (skip_ws t) \<notin> {CHR '']'', CHR ''}'', CHR '',''}"
    using assms
  proof cases
    case (integer_value n)
    have "parse_integer opt [] \<noteq> Inr (n, u)" by (simp add: parse_integer_def fail_in_def Let_def peek_byte_def)
    then obtain c r where "skip_ws t = c # r" using integer_value by (cases "skip_ws t") auto
    then show ?thesis using parse_integer_first [OF integer_value(3)] by (auto simp: is_digit_range)
  next
    case (string_value s)
    then show ?thesis using parse_string_first by force
  qed simp_all
  then show "skip_ws t \<noteq> []" "hd (skip_ws t) \<notin> {CHR '']'', CHR ''}'', CHR '',''}" by blast+
qed

lemma json_items_first: "json_items opt d t vs u \<Longrightarrow> peek_byte (skip_ws t) \<noteq> CHR '']''"
  by (cases "skip_ws t"; erule json_items.cases) (auto dest: json_value_first)

lemma json_members_first: "json_members opt d t ms u \<Longrightarrow> peek_byte (skip_ws t) \<noteq> CHR ''}''"
  by (cases "skip_ws t"; erule json_members.cases) (auto dest: parse_string_first)

lemma json_value_skip: "json_value opt d (skip_ws t) v u \<longleftrightarrow> json_value opt d t v u"
  by (subst (1 2) json_value.simps) simp

lemma json_items_skip: "json_items opt d (skip_ws t) vs u \<longleftrightarrow> json_items opt d t vs u"
  by (subst (1 2) json_items.simps) (simp add: json_value_skip)

lemma json_members_skip: "json_members opt d (skip_ws t) ms u \<longleftrightarrow> json_members opt d t ms u"
  by (subst (1 2) json_members.simps) simp

lemma loop_skip:
  "array_loop opt d vs (skip_ws t) = array_loop opt d vs t"
  "object_loop opt d ms (skip_ws t) = object_loop opt d ms t"
  "parse_value opt d (skip_ws t) = parse_value opt d t"
  by (simp_all add: array_loop.simps [of opt d vs] object_loop.simps [of opt d ms] parse_value.simps [of opt d])

section \<open>What the reader accepts is a document\<close>

lemma reader_sound:
  "parse_value opt d t = Inr (v, u) \<Longrightarrow> json_value opt d t v u"
  "array_loop opt d vs t = Inr (v, u) \<Longrightarrow> \<exists>ws. v = JArray (vs @ ws) \<and> json_items opt d t ws u"
  "object_loop opt d ms t = Inr (v, u) \<Longrightarrow> sorted_wrt (<) (map fst ms) \<Longrightarrow>
    \<exists>ns os. v = JObject os \<and> json_members opt d t ns u \<and> distinct (map fst (ms @ ns)) \<and>
      sorted_wrt (<) (map fst os) \<and> set os = set ms \<union> set ns"
proof (induction opt d t and opt d vs t and opt d ms t arbitrary: v u and v u and v u
    rule: parse_value_array_loop_object_loop.induct)
  case (1 opt d t0)
  let ?t = "skip_ws t0"
  note e = 1(3) [unfolded parse_value.simps [of opt d t0] Let_def]
  have d: "d < max_depth opt"
    using e by (auto simp: fail_about_def split: if_splits)
  consider (leaf) "parse_word opt ?t = Inr (v, u)"
    | (string) s where "parse_string opt ?t = Inr (s, u)" "v = JString s"
    | (int) n where "parse_integer opt ?t = Inr (n, u)" "v = JInt n"
    | (no_members) t1 where "?t = CHR ''{'' # t1" "skip_ws t1 = CHR ''}'' # u" "v = JObject []"
    | (no_items) t1 where "?t = CHR ''['' # t1" "skip_ws t1 = CHR '']'' # u" "v = JArray []"
    | (object) t1 where "?t \<noteq> []" "peek_byte ?t \<noteq> quote" "peek_byte ?t = CHR ''{''"
      "expect opt (CHR ''{'') ?t = Inr t1" "peek_byte (skip_ws t1) \<noteq> CHR ''}''"
      "object_loop opt (Suc d) [] (skip_ws t1) = Inr (v, u)"
    | (array) t1 where "?t \<noteq> []" "peek_byte ?t \<noteq> quote" "peek_byte ?t \<noteq> CHR ''{''"
      "peek_byte ?t = CHR ''[''" "expect opt (CHR ''['') ?t = Inr t1" "peek_byte (skip_ws t1) \<noteq> CHR '']''"
      "array_loop opt (Suc d) [] (skip_ws t1) = Inr (v, u)"
    using e d
    by (fastforce simp: bind_r_eq_Inr peek_byte_iff expect_iff split: if_splits)
  then show ?case
  proof cases
    case leaf
    then show ?thesis using d by (auto simp: parse_word_iff intro: true_word false_word null_word)
  next
    case object
    have "\<exists>ns os. v = JObject os \<and> json_members opt (Suc d) (skip_ws t1) ns u \<and> distinct (map fst ([] @ ns)) \<and>
        sorted_wrt (<) (map fst os) \<and> set os = set [] \<union> set ns"
      by (rule 1(1) [OF refl _ object(1-5) object(6)]) (use d in auto)
    then show ?thesis
      using members [of d opt t0] d object(3,4) by (auto simp: expect_iff json_members_skip)
  next
    case array
    have "\<exists>ws. v = JArray ([] @ ws) \<and> json_items opt (Suc d) (skip_ws t1) ws u"
      by (rule 1(2) [OF refl _ array(1-6) array(7)]) (use d in auto)
    then show ?thesis
      using items [of d opt t0] d array(5) by (auto simp: expect_iff json_items_skip)
  qed (use d in \<open>auto intro: string_value integer_value no_members no_items\<close>)
next
  case (2 opt d vs t0)
  note e = 2(3) [unfolded array_loop.simps [of opt d vs t0]]
  then obtain x t1 where x: "parse_value opt d (skip_ws t0) = Inr (x, t1)"
    by (auto simp: bind_r_eq_Inr)
  have xv: "json_value opt d t0 x t1" using 2(1) [OF x] by (simp add: json_value_skip)
  show ?case
  proof (cases "peek_byte (skip_ws t1) = CHR '']''")
    case True
    then have "skip_ws t1 = CHR '']'' # u" "v = JArray (vs @ [x])" using e x by (auto simp: peek_byte_iff)
    then show ?thesis using last_item [OF xv] by blast
  next
    case False
    then obtain t2 where t2: "expect opt (CHR '','') (skip_ws t1) = Inr t2"
        "array_loop opt d (vs @ [x]) t2 = Inr (v, u)"
      using e x by (auto simp: bind_r_eq_Inr)
    obtain ws where "v = JArray ((vs @ [x]) @ ws)" "json_items opt d t2 ws u"
      using 2(2) [OF x refl False t2] by blast
    moreover have "skip_ws t1 = CHR '','' # t2" using t2(1) by (simp add: expect_iff)
    ultimately show ?thesis using more_items [OF xv] by auto
  qed
next
  case (3 opt d ms t0)
  let ?t = "skip_ws t0"
  note e = 3(3) [unfolded object_loop.simps [of opt d ms t0] Let_def]
  then obtain k t1 t2 x t3 ms' where k: "\<not> peek_byte ?t \<noteq> quote" "parse_string opt ?t = Inr (k, t1)"
      "expect opt (CHR '':'') (skip_ws t1) = Inr t2" "parse_value opt d (skip_ws t2) = Inr (x, t3)"
      "emplace k x ms = Some ms'"
    by (auto simp: bind_r_eq_Inr fail_about_def split: if_splits option.splits)
  have xv: "json_value opt d t2 x t3" using 3(1) [OF refl k(1,2) refl k(3,4)] by (simp add: json_value_skip)
  have colon: "skip_ws t1 = CHR '':'' # t2" using k(3) by (simp add: expect_iff)
  have new: "k \<notin> fst ` set ms" using k(5) by (auto simp: emplace_def split: if_splits)
  have dist: "distinct (map fst ms)" using 3(4) by (simp add: strict_sorted_iff)
  show ?case
  proof (cases "peek_byte (skip_ws t3) = CHR ''}''")
    case True
    then have "skip_ws t3 = CHR ''}'' # u" "v = JObject ms'" using e k by (auto simp: peek_byte_iff)
    then show ?thesis
      using last_member [OF k(2) colon xv] emplace_sorted [OF k(5) 3(4)] new dist
      by (intro exI [of _ "[(k, x)]"] exI [of _ ms']) auto
  next
    case False
    then obtain t4 where t4: "expect opt (CHR '','') (skip_ws t3) = Inr t4"
        "object_loop opt d ms' t4 = Inr (v, u)"
      using e k by (auto simp: bind_r_eq_Inr)
    obtain ns os where ns: "v = JObject os" "json_members opt d t4 ns u" "distinct (map fst (ms' @ ns))"
        "sorted_wrt (<) (map fst os)" "set os = set ms' \<union> set ns"
      using 3(2) [OF refl k(1,2) refl k(3,4) refl k(5) False t4 emplace_sorted(1) [OF k(5) 3(4)]] by blast
    have comma: "skip_ws t3 = CHR '','' # t4" using t4(1) by (simp add: expect_iff)
    have "distinct (map fst (ms @ (k, x) # ns))"
      using ns(3) emplace_sorted(2) [OF k(5) 3(4)] new dist by auto
    then show ?thesis
      using more_members [OF k(2) colon xv comma ns(2)] ns emplace_sorted(2) [OF k(5) 3(4)]
      by (intro exI [of _ "(k, x) # ns"] exI [of _ os]) auto
  qed
qed

section \<open>The reader accepts every document\<close>

text \<open>An object is determined by its members.\<close>

lemma members_unique:
  assumes "sorted_wrt (<) (map fst ms)" "sorted_wrt (<) (map fst ns)" "set ms = set (ns :: (string \<times> json_val) list)"
  shows "ms = ns"
proof (rule map_sorted_distinct_set_unique [of fst])
  show "inj_on fst (set ms \<union> set ns)"
    using assms by (auto simp: strict_sorted_iff distinct_map)
qed (use assms in \<open>auto simp: strict_sorted_iff\<close>)

lemma reader_complete:
  "json_value opt d t v u \<Longrightarrow> parse_value opt d t = Inr (v, u)"
  "json_items opt d t vs u \<Longrightarrow> \<forall>ws. array_loop opt d ws t = Inr (JArray (ws @ vs), u)"
  "json_members opt d t ns u \<Longrightarrow> \<forall>ms. sorted_wrt (<) (map fst ms) \<and> distinct (map fst (ms @ ns)) \<longrightarrow>
    (\<exists>os. object_loop opt d ms t = Inr (JObject os, u) \<and> sorted_wrt (<) (map fst os) \<and> set os = set ms \<union> set ns)"
proof (induction rule: json_value_json_items_json_members.inducts)
  case (true_word d t u)
  then show ?case by (simp add: parse_value.simps [of opt d] Let_def parse_word_iff is_digit_range)
next
  case (false_word d t u)
  then show ?case by (simp add: parse_value.simps [of opt d] Let_def parse_word_iff is_digit_range)
next
  case (null_word d t u)
  then show ?case by (simp add: parse_value.simps [of opt d] Let_def parse_word_iff is_digit_range)
next
  case (integer_value d t n u)
  have "skip_ws t \<noteq> []" "peek_byte (skip_ws t) \<notin> {quote, CHR ''{'', CHR ''[''}"
    using parse_integer_first [OF integer_value(2)] integer_value(2)
    by (auto simp: is_digit_range parse_integer_def fail_in_def Let_def peek_byte_def)
  then show ?case
    using integer_value parse_integer_first [OF integer_value(2)] by (auto simp: parse_value.simps [of opt d] Let_def)
next
  case (string_value d t s u)
  then obtain r where "skip_ws t = quote # r" using parse_string_first by blast
  then show ?case using string_value by (auto simp: parse_value.simps [of opt d] Let_def)
next
  case (no_items d t t1 u)
  then show ?case by (simp add: parse_value.simps [of opt d] Let_def)
next
  case (items d t t1 vs u)
  then show ?case using json_items_first [of opt "Suc d" t1 vs u] by (simp add: parse_value.simps [of opt d] Let_def loop_skip)
next
  case (no_members d t t1 u)
  then show ?case by (simp add: parse_value.simps [of opt d] Let_def)
next
  case (members d t t1 ns u os)
  have facts: "d < max_depth opt" "skip_ws t = CHR ''{'' # t1" "distinct (map fst ns)" "sorted_wrt (<) (map fst os)"
      "set os = set ns"
    and IH: "\<forall>ms. sorted_wrt (<) (map fst ms) \<and> distinct (map fst (ms @ ns)) \<longrightarrow>
      (\<exists>os. object_loop opt (Suc d) ms t1 = Inr (JObject os, u) \<and> sorted_wrt (<) (map fst os) \<and> set os = set ms \<union> set ns)"
    by (rule members)+
  have q: "peek_byte (skip_ws t1) \<noteq> CHR ''}''" using members by (auto dest: json_members_first)
  obtain os' where "object_loop opt (Suc d) [] t1 = Inr (JObject os', u)" "sorted_wrt (<) (map fst os')" "set os' = set ns"
    using IH [THEN spec, of "[]"] facts(3) by auto
  moreover have "os' = os" using members_unique calculation(2,3) facts(4,5) by metis
  ultimately show ?case using facts(1,2) q by (simp add: parse_value.simps [of opt d] Let_def loop_skip)
next
  case (last_item d t v t1 u)
  then show ?case by (simp add: array_loop.simps [of opt d] loop_skip)
next
  case (more_items d t v t1 t2 vs u)
  then show ?case by (simp add: array_loop.simps [of opt d _ t] loop_skip)
next
  case (last_member t k t1 t2 d v t3 u)
  show ?case
  proof (intro allI impI)
    fix ms :: "(string \<times> json_val) list"
    assume ms: "sorted_wrt (<) (map fst ms) \<and> distinct (map fst (ms @ [(k, v)]))"
    then have "emplace k v ms = Some (insort_key fst (k, v) ms)" by (auto simp: emplace_def)
    then show "\<exists>os. object_loop opt d ms t = Inr (JObject os, u) \<and> sorted_wrt (<) (map fst os) \<and> set os = set ms \<union> set [(k, v)]"
      using last_member parse_string_first [of opt "skip_ws t" k t1] ms emplace_sorted [of k v ms]
      by (auto simp: object_loop.simps [of opt d] Let_def loop_skip)
  qed
next
  case (more_members t k t1 t2 d v t3 t4 ns u)
  show ?case
  proof (intro allI impI)
    fix ms :: "(string \<times> json_val) list"
    assume ms: "sorted_wrt (<) (map fst ms) \<and> distinct (map fst (ms @ (k, v) # ns))"
    then have e: "emplace k v ms = Some (insort_key fst (k, v) ms)" by (auto simp: emplace_def)
    note ms' = emplace_sorted [OF e conjunct1 [OF ms]]
    have "distinct (map fst (insort_key fst (k, v) ms @ ns))"
      using ms ms' by (auto simp: strict_sorted_iff)
    then obtain os where "object_loop opt d (insort_key fst (k, v) ms) t4 = Inr (JObject os, u)"
        "sorted_wrt (<) (map fst os)" "set os = set (insort_key fst (k, v) ms) \<union> set ns"
      using more_members ms'(1) by blast
    then show "\<exists>os. object_loop opt d ms t = Inr (JObject os, u) \<and> sorted_wrt (<) (map fst os) \<and> set os = set ms \<union> set ((k, v) # ns)"
      using more_members parse_string_first [of opt "skip_ws t" k t1] e ms'(2)
      by (auto simp: object_loop.simps [of opt d ms] Let_def loop_skip)
  qed
qed

text \<open>
  C16: the strict reader accepts exactly the documents of its grammar, with the value the grammar gives
  them: words, integers of the schema, strings, arrays and objects, where the members of an object
  have different keys and are all kept, and values nest at most \<open>max_depth\<close> deep. A document in which
  an object repeats a key, or that nests deeper, is refused. Every value returned is within the
  limits: its integers are in the symmetric 64-bit range and its nesting is at most \<open>max_depth\<close>.
\<close>

theorem read_strict_json_limits:
  "(read_strict_json text opt = Inr v \<longleftrightarrow> json_document opt text v)
    \<and> (read_strict_json text opt = Inr v \<longrightarrow> json_ok v \<and> json_depth v \<le> max_depth opt)"
proof (intro conjI impI)
  have read: "read_strict_json text opt = Inr v \<longleftrightarrow> (\<exists>u. parse_value opt 0 text = Inr (v, u) \<and> skip_ws u = [])"
    by (auto simp: read_strict_json_def bind_r_eq_Inr loop_skip)
  show "read_strict_json text opt = Inr v \<longleftrightarrow> json_document opt text v"
    unfolding read json_document_def using reader_sound(1) reader_complete(1) by blast
  show "json_ok v" "json_depth v \<le> max_depth opt" if "read_strict_json text opt = Inr v"
    using that reader_within(1) unfolding read fits_below_def by fastforce+
qed

text \<open>A repeated key, whatever the values, is no document; different keys are put in order.\<close>

theorem read_strict_json_limits_witness:
  "json_document sample_options ''{\"b\": 1, \"a\": 2}'' (JObject [(''a'', JInt 2), (''b'', JInt 1)])
    \<and> (\<nexists>v. json_document sample_options ''{\"a\": 1, \"a\": 1}'' v)
    \<and> json_depth (JObject [(''a'', JInt 2), (''b'', JInt 1)]) \<le> max_depth sample_options"
proof -
  let ?t = "''{\"b\": 1, \"a\": 2}''" and ?u = "''{\"a\": 1, \"a\": 1}''"
  have t: "read_strict_json ?t sample_options = Inr (JObject [(''a'', JInt 2), (''b'', JInt 1)])"
    and u: "read_strict_json ?u sample_options = Inl ''Duplicate key in patch JSON object.''"
    by code_simp+
  have "json_document sample_options ?t (JObject [(''a'', JInt 2), (''b'', JInt 1)])"
    by (rule read_strict_json_limits [THEN conjunct1, THEN iffD1, OF t])
  moreover have "\<not> json_document sample_options ?u v" for v
    using read_strict_json_limits [of ?u sample_options v] u by (metis Inl_Inr_False)
  moreover note read_strict_json_limits [THEN conjunct2, THEN mp, OF t]
  ultimately show ?thesis by blast
qed

end
