(* ===== verification/Sha256.thy ===== *)
theory Sha256
  imports Prelude
begin

text \<open>
  The incremental SHA-256 of the compiler and its tools (\<open>src/platform/sha256.cpp\<close>): the portable
  engine, the buffering of \<open>update\<close>, the padding of \<open>finish\<close> and the hexadecimal text. The object
  calls its engine through a pointer; here the engine is an argument of \<open>update\<close> and \<open>finish\<close>, and
  what they need of it is the locale \<open>block_engine\<close>. The engines built on CPU instructions are not
  code that can be read here.
\<close>

unbundle bit_operations_syntax

section \<open>The portable engine\<close>

definition round_constants :: "u32 list" where
  "round_constants = concat
    [[0x428a2f98, 0x71374491, 0xb5c0fbcf, 0xe9b5dba5], [0x3956c25b, 0x59f111f1, 0x923f82a4, 0xab1c5ed5],
     [0xd807aa98, 0x12835b01, 0x243185be, 0x550c7dc3], [0x72be5d74, 0x80deb1fe, 0x9bdc06a7, 0xc19bf174],
     [0xe49b69c1, 0xefbe4786, 0x0fc19dc6, 0x240ca1cc], [0x2de92c6f, 0x4a7484aa, 0x5cb0a9dc, 0x76f988da],
     [0x983e5152, 0xa831c66d, 0xb00327c8, 0xbf597fc7], [0xc6e00bf3, 0xd5a79147, 0x06ca6351, 0x14292967],
     [0x27b70a85, 0x2e1b2138, 0x4d2c6dfc, 0x53380d13], [0x650a7354, 0x766a0abb, 0x81c2c92e, 0x92722c85],
     [0xa2bfe8a1, 0xa81a664b, 0xc24b8b70, 0xc76c51a3], [0xd192e819, 0xd6990624, 0xf40e3585, 0x106aa070],
     [0x19a4c116, 0x1e376c08, 0x2748774c, 0x34b0bcb5], [0x391c0cb3, 0x4ed8aa4a, 0x5b9cca4f, 0x682e6ff3],
     [0x748f82ee, 0x78a5636f, 0x84c87814, 0x8cc70208], [0x90befffa, 0xa4506ceb, 0xbef9a3f7, 0xc67178f2]]"

definition initial_state :: "u32 list" where
  "initial_state =
    [0x6a09e667, 0xbb67ae85, 0x3c6ef372, 0xa54ff53a, 0x510e527f, 0x9b05688c, 0x1f83d9ab, 0x5be0cd19]"

text \<open>The longest message whose length in bits fits the 64-bit length field.\<close>

definition maximum_bytes :: u64 where
  "maximum_bytes = 0xffffffffffffffff div 8"

definition rotate_right :: "u32 \<Rightarrow> nat \<Rightarrow> u32" where
  "rotate_right v n = drop_bit n v OR push_bit (32 - n) v"

definition load_word :: "u8 list \<Rightarrow> nat \<Rightarrow> u32" where
  "load_word bs i =
    push_bit 24 (ucast (bs ! (i * 4))) OR push_bit 16 (ucast (bs ! (i * 4 + 1))) OR
    push_bit 8 (ucast (bs ! (i * 4 + 2))) OR ucast (bs ! (i * 4 + 3))"

definition schedule_word :: "u32 list \<Rightarrow> nat \<Rightarrow> u32 list" where
  "schedule_word w i =
    (let s0 = rotate_right (w ! (i - 15)) 7 XOR rotate_right (w ! (i - 15)) 18 XOR drop_bit 3 (w ! (i - 15));
         s1 = rotate_right (w ! (i - 2)) 17 XOR rotate_right (w ! (i - 2)) 19 XOR drop_bit 10 (w ! (i - 2))
     in w[i := w ! (i - 16) + s0 + w ! (i - 7) + s1])"

definition message_schedule :: "u8 list \<Rightarrow> u32 list" where
  "message_schedule bs =
    foldl schedule_word (map (load_word bs) [0..<16] @ replicate 48 0) [16..<64]"

fun sha_round :: "u32 list \<Rightarrow> u32 list \<Rightarrow> nat \<Rightarrow> u32 list" where
  "sha_round w [a, b, c, d, e, f, g, h] i =
    (let s1 = rotate_right e 6 XOR rotate_right e 11 XOR rotate_right e 25;
         ch = (e AND f) XOR (NOT e AND g);
         temp1 = h + s1 + ch + round_constants ! i + w ! i;
         s0 = rotate_right a 2 XOR rotate_right a 13 XOR rotate_right a 22;
         maj = (a AND b) XOR (a AND c) XOR (b AND c);
         temp2 = s0 + maj
     in [temp1 + temp2, a, b, c, d + temp1, e, f, g])"
| "sha_round w s i = s"

definition compress_block :: "u32 list \<Rightarrow> u8 list \<Rightarrow> u32 list" where
  "compress_block st bs = map2 (+) st (foldl (sha_round (message_schedule bs)) st [0..<64])"

fun compress_portable :: "u32 list \<Rightarrow> u8 list \<Rightarrow> nat \<Rightarrow> u32 list" where
  "compress_portable st bs 0 = st"
| "compress_portable st bs (Suc n) = compress_portable (compress_block st (take 64 bs)) (drop 64 bs) n"

section \<open>The object\<close>

record sha256 =
  sha_state :: "u32 list"
  buffer :: "u8 list"
  buffered :: nat
  sha_bytes :: u64

datatype sha_error = Message_Too_Long

definition new_sha256 :: sha256 where
  "new_sha256 = \<lparr>sha_state = initial_state, buffer = replicate 64 0, buffered = 0, sha_bytes = 0\<rparr>"

text \<open>\<open>std::copy_n\<close> of \<open>xs\<close> to the buffer from an offset.\<close>

definition copy_at :: "nat \<Rightarrow> u8 list \<Rightarrow> u8 list \<Rightarrow> u8 list" where
  "copy_at n xs buf = take n buf @ xs @ drop (n + length xs) buf"

type_synonym engine = "u32 list \<Rightarrow> u8 list \<Rightarrow> nat \<Rightarrow> u32 list"

text \<open>\<open>update\<close> behind its length check: the buffer first, then whole blocks, then the rest.\<close>

definition update_blocks :: "engine \<Rightarrow> u8 list \<Rightarrow> sha256 \<Rightarrow> sha256" where
  "update_blocks compress data s =
    (let n = length data div 64;
         s = (if 64 \<le> length data then s\<lparr>sha_state := compress (sha_state s) data n\<rparr> else s);
         rest = (if 64 \<le> length data then drop (n * 64) data else data)
     in s\<lparr>buffer := copy_at 0 rest (buffer s), buffered := length rest\<rparr>)"

definition update_buffer :: "engine \<Rightarrow> u8 list \<Rightarrow> sha256 \<Rightarrow> sha256" where
  "update_buffer compress data s =
    (if 0 < buffered s then
       let n = min (length data) (64 - buffered s);
           s = s\<lparr>buffer := copy_at (buffered s) (take n data) (buffer s), buffered := buffered s + n\<rparr>
       in if buffered s < 64 then s
          else update_blocks compress (drop n data)
                 (s\<lparr>sha_state := compress (sha_state s) (buffer s) 1, buffered := 0\<rparr>)
     else update_blocks compress data s)"

definition sha_update :: "engine \<Rightarrow> u8 list \<Rightarrow> sha256 \<Rightarrow> sha_error + sha256" where
  "sha_update compress data s =
    (if unat (maximum_bytes - sha_bytes s) < length data then Inl Message_Too_Long
     else Inr (update_buffer compress data (s\<lparr>sha_bytes := sha_bytes s + of_nat (length data)\<rparr>)))"

text \<open>The length field: \<open>bits\<close> in the last eight bytes, most significant first.\<close>

definition store_length :: "u64 \<Rightarrow> u8 list \<Rightarrow> u8 list" where
  "store_length bits buf =
    foldl (\<lambda>buf i. buf[63 - i := ucast (drop_bit (i * 8) bits AND 0xff)]) buf [0..<8]"

definition digest_bytes :: "u32 list \<Rightarrow> u8 list" where
  "digest_bytes st =
    concat (map (\<lambda>w. [ucast (drop_bit 24 w), ucast (drop_bit 16 w), ucast (drop_bit 8 w), ucast w]) st)"

definition sha_finish :: "engine \<Rightarrow> sha256 \<Rightarrow> u8 list" where
  "sha_finish compress s =
    (let bits = sha_bytes s * 8;
         s = s\<lparr>buffer := (buffer s)[buffered s := 0x80], buffered := Suc (buffered s)\<rparr>;
         s = (if 56 < buffered s then
                let buf = copy_at (buffered s) (replicate (64 - buffered s) 0) (buffer s)
                in s\<lparr>buffer := buf, sha_state := compress (sha_state s) buf 1, buffered := 0\<rparr>
              else s);
         buf = copy_at (buffered s) (replicate (56 - buffered s) 0) (buffer s);
         buf = store_length bits buf
     in digest_bytes (compress (sha_state s) buf 1))"

definition hex_digits :: string where
  "hex_digits = ''0123456789abcdef''"

definition finish_hex :: "engine \<Rightarrow> sha256 \<Rightarrow> string" where
  "finish_hex compress s =
    concat (map (\<lambda>b. [hex_digits ! unat (drop_bit 4 b), hex_digits ! unat (b AND 0xf)]) (sha_finish compress s))"

definition sha256_hex :: "u8 list \<Rightarrow> sha_error + string" where
  "sha256_hex data =
    bind_r (sha_update compress_portable data new_sha256) (\<lambda>s. Inr (finish_hex compress_portable s))"

section \<open>The reference\<close>

text \<open>The padded message of the standard, and its digest.\<close>

definition length_field :: "nat \<Rightarrow> u8 list" where
  "length_field n = map (\<lambda>i. ucast (drop_bit (8 * (7 - i)) (of_nat (8 * n) :: u64))) [0..<8]"

definition padded :: "u8 list \<Rightarrow> u8 list" where
  "padded msg = msg @ [0x80] @ replicate ((119 - length msg mod 64) mod 64) 0 @ length_field (length msg)"

definition digest_of :: "engine \<Rightarrow> u8 list \<Rightarrow> u8 list" where
  "digest_of compress msg =
    digest_bytes (compress initial_state (padded msg) (length (padded msg) div 64))"

text \<open>A sequence of updates.\<close>

fun sha_updates :: "engine \<Rightarrow> u8 list list \<Rightarrow> sha256 \<Rightarrow> sha_error + sha256" where
  "sha_updates compress [] s = Inr s"
| "sha_updates compress (d # ds) s = bind_r (sha_update compress d s) (sha_updates compress ds)"

section \<open>What the object needs of an engine\<close>

text \<open>The object has processed the whole blocks of \<open>msg\<close> and keeps the rest in its buffer.\<close>

definition absorbed :: "engine \<Rightarrow> u8 list \<Rightarrow> sha256 \<Rightarrow> bool" where
  "absorbed compress msg s \<longleftrightarrow> length (buffer s) = 64 \<and> buffered s = length msg mod 64 \<and>
    take (buffered s) (buffer s) = drop (64 * (length msg div 64)) msg \<and>
    sha_state s = compress initial_state (take (64 * (length msg div 64)) msg) (length msg div 64)"

lemma absorbedD:
  assumes "absorbed compress msg s"
  shows "length (buffer s) = 64" "buffered s = length msg mod 64"
    "take (buffered s) (buffer s) = drop (64 * (length msg div 64)) msg"
    "sha_state s = compress initial_state (take (64 * (length msg div 64)) msg) (length msg div 64)"
  using assms unfolding absorbed_def by blast+

lemma div_mod_64: "n = 64 * m + x \<Longrightarrow> x < 64 \<Longrightarrow> n div 64 = m" "n = 64 * m + x \<Longrightarrow> x < 64 \<Longrightarrow> n mod 64 = (x :: nat)"
  by simp_all

lemma absorbed_bytes: "absorbed compress msg (s\<lparr>sha_bytes := n\<rparr>) = absorbed compress msg s"
  unfolding absorbed_def by simp

lemma store_length_field:
  assumes "length buf = 64"
  shows "store_length (of_nat (8 * n)) buf = take 56 buf @ length_field n"
proof -
  have byte: "(ucast (x AND 0xff) :: u8) = ucast x" for x :: u64
  proof -
    have "(0xff :: u64) = mask 8"
      by (simp add: mask_eq_exp_minus_1)
    then have "bit (0xff :: u64) n" if "n < 8" for n
      using that by (simp only: bit_mask_iff possible_bit_word) simp
    then show ?thesis
      by (intro bit_word_eqI) (auto simp: bit_simps)
  qed
  have "[0..<8] = [0, 1, 2, 3, 4, 5, 6, 7 :: nat]"
    by (simp add: upt_rec)
  note upto8 = this
  have store: "store_length bits buf = buf[63 := ucast bits, 62 := ucast (drop_bit 8 bits), 61 := ucast (drop_bit 16 bits),
      60 := ucast (drop_bit 24 bits), 59 := ucast (drop_bit 32 bits), 58 := ucast (drop_bit 40 bits),
      57 := ucast (drop_bit 48 bits), 56 := ucast (drop_bit 56 bits)]" for bits
    by (simp add: store_length_def upto8 byte)
  have field: "length_field n = map ucast [drop_bit 56 v, drop_bit 48 v, drop_bit 40 v, drop_bit 32 v,
        drop_bit 24 v, drop_bit 16 v, drop_bit 8 v, v]" if "v = (of_nat (8 * n) :: u64)" for v
    unfolding length_field_def that upto8 by simp
  obtain b0 b1 b2 b3 b4 b5 b6 b7 where tail: "drop 56 buf = [b0, b1, b2, b3, b4, b5, b6, b7]"
    using assms length_drop [of 56 buf] by (auto simp: numeral_eq_Suc length_Suc_conv)
  have buf: "buf = take 56 buf @ [b0, b1, b2, b3, b4, b5, b6, b7]"
    by (subst tail [symmetric]) simp
  have len: "length (take 56 buf) = 56"
    using assms by simp
  show ?thesis
    unfolding store field [OF refl] by (subst (1) buf) (simp add: list_update_append len assms)
qed

lemma zero_count: "r < 56 \<Longrightarrow> (119 - r) mod 64 = 55 - (r :: nat)" "56 \<le> r \<Longrightarrow> r < 64 \<Longrightarrow> (119 - r) mod 64 = 119 - r"
proof -
  assume r: "r < 56"
  then obtain k where k: "55 - r = k" "k < 64"
    by simp
  have "119 - r = k + 64"
    using r k(1) by linarith
  then show "(119 - r) mod 64 = 55 - r"
    unfolding k(1) using k(2) by simp
qed simp

lemma padded_blocks: "length (padded msg) mod 64 = 0"
proof -
  let ?r = "length msg mod 64"
  have r: "?r < 64"
    by simp
  have "?r + 9 + (119 - ?r) mod 64 = (if ?r < 56 then 64 else 128)"
  proof (cases "?r < 56")
    case True
    then show ?thesis unfolding zero_count(1) [OF True] by simp
  next
    case False
    then have "56 \<le> ?r"
      by simp
    then show ?thesis using False r unfolding zero_count(2) [OF \<open>56 \<le> ?r\<close> r] by simp
  qed
  then have total: "?r + (9 + (119 - ?r) mod 64) = (if ?r < 56 then 64 else 128)"
    by (simp only: add.assoc)
  have "(?r + (9 + (119 - ?r) mod 64)) mod 64 = 0"
    unfolding total by simp
  then have "(length msg + (9 + (119 - ?r) mod 64)) mod 64 = 0"
    by (simp only: mod_add_left_eq)
  moreover have "length (padded msg) = length msg + (9 + (119 - ?r) mod 64)"
    by (simp add: padded_def length_field_def)
  ultimately show ?thesis
    by simp
qed

locale block_engine =
  fixes compress :: engine
  assumes compress_none: "compress st bs 0 = st"
    and compress_append: "length as = 64 * m \<Longrightarrow> compress st (as @ bs) (m + n) = compress (compress st as m) bs n"
begin

lemma compress_prefix: "length as = 64 * m \<Longrightarrow> compress st (as @ bs) m = compress st as m"
  using compress_append [of as m st bs 0] by (simp add: compress_none)

lemma compress_step:
  "length full = 64 * m \<Longrightarrow> compress (compress initial_state full m) bs n = compress initial_state (full @ bs) (m + n)"
  using compress_append [of full m initial_state bs n] by simp

lemma absorbed_new: "absorbed compress [] new_sha256"
  by (simp add: absorbed_def new_sha256_def compress_none)

lemma absorbed_blocks:
  assumes full: "length full = 64 * m" "sha_state s = compress initial_state full m" and buf: "length (buffer s) = 64"
  shows "absorbed compress (full @ data) (update_blocks compress data s)"
proof -
  let ?n = "length data div 64"
  define rest where "rest = drop (?n * 64) data"
  have rest: "(if 64 \<le> length data then drop (?n * 64) data else data) = rest"
    by (auto simp: rest_def)
  have len: "length rest = length data mod 64"
    by (simp add: rest_def minus_div_mult_eq_mod)
  have upd: "sha_state (update_blocks compress data s) = compress (sha_state s) data ?n"
      "buffer (update_blocks compress data s) = copy_at 0 rest (buffer s)"
      "buffered (update_blocks compress data s) = length rest"
    unfolding update_blocks_def Let_def rest by (simp_all add: compress_none)
  have pre: "data = take (64 * ?n) data @ rest"
    by (simp add: rest_def mult.commute)
  have "compress (sha_state s) data ?n = compress (sha_state s) (take (64 * ?n) data) ?n"
    by (subst pre) (rule compress_prefix, simp)
  then have "compress (sha_state s) data ?n = compress initial_state (full @ take (64 * ?n) data) (m + ?n)"
    using full by (simp add: compress_step)
  moreover have "take (64 * (m + ?n)) (full @ data) = full @ take (64 * ?n) data"
      "drop (64 * (m + ?n)) (full @ data) = rest"
    using full(1) by (simp_all add: rest_def mult.commute algebra_simps)
  moreover have "length (full @ data) div 64 = m + ?n" "length (full @ data) mod 64 = length data mod 64"
    using full(1) by simp_all
  moreover have "take (length rest) (copy_at 0 rest (buffer s)) = rest" "length (copy_at 0 rest (buffer s)) = 64"
    using len buf by (simp_all add: copy_at_def)
  ultimately show ?thesis
    using len buf unfolding absorbed_def upd by metis
qed

lemma absorbed_buffer:
  assumes a: "absorbed compress msg s"
  shows "absorbed compress (msg @ data) (update_buffer compress data s)"
proof -
  let ?m = "length msg div 64" and ?b = "buffered s"
  define full where "full = take (64 * ?m) msg"
  have full: "length full = 64 * ?m" "sha_state s = compress initial_state full ?m" "length (buffer s) = 64"
    using absorbedD(1,4) [OF a] by (simp_all add: full_def)
  have msg: "msg = full @ take ?b (buffer s)" "?b < 64" "?b = length msg mod 64"
    using absorbedD(2) [OF a] unfolding absorbedD(3) [OF a] by (simp_all add: full_def)
  show ?thesis
  proof (cases "?b = 0")
    case True
    then show ?thesis
      using absorbed_blocks [OF full, of data] msg(1) by (simp add: update_buffer_def)
  next
    case False
    let ?n = "min (length data) (64 - ?b)"
    let ?buf = "copy_at ?b (take ?n data) (buffer s)"
    have buf: "length ?buf = 64" "take (?b + ?n) ?buf = take ?b (buffer s) @ take ?n data"
      using full(3) msg(2) by (auto simp: copy_at_def)
    show ?thesis
    proof (cases "?b + ?n < 64")
      case True
      then have n: "?n = length data"
        by linarith
      have "length (msg @ data) = 64 * ?m + (?b + ?n)"
        using n msg(3) mult_div_mod_eq [of 64 "length msg"] by (simp only: length_append)
      then have "length (msg @ data) div 64 = ?m" "length (msg @ data) mod 64 = ?b + ?n"
        using div_mod_64 True by blast+
      moreover have "update_buffer compress data s = s\<lparr>buffer := ?buf, buffered := ?b + ?n\<rparr>"
        using False True by (simp add: update_buffer_def Let_def)
      moreover have "take (64 * ?m) (msg @ data) = full" "drop (64 * ?m) (msg @ data) = take ?b (buffer s) @ take ?n data"
      proof -
        have "msg @ data = full @ (take ?b (buffer s) @ take ?n data)"
          using msg(1) n by (metis append_assoc order_refl take_all)
        then show "take (64 * ?m) (msg @ data) = full" "drop (64 * ?m) (msg @ data) = take ?b (buffer s) @ take ?n data"
          using full(1) by (metis append_eq_conv_conj)+
      qed
      ultimately show ?thesis
        unfolding absorbed_def using buf full by simp
    next
      case fill: False
      then have n: "?b + ?n = 64"
        using msg(2) by linarith
      have b64: "?buf = take ?b (buffer s) @ take ?n data"
        using buf n by simp
      let ?s = "s\<lparr>buffer := ?buf, sha_state := compress (sha_state s) ?buf 1, buffered := 0\<rparr>"
      have "absorbed compress ((full @ ?buf) @ drop ?n data) (update_blocks compress (drop ?n data) ?s)"
        by (rule absorbed_blocks [where m = "Suc ?m"]) (use full buf compress_step [OF full(1), of ?buf 1] in auto)
      moreover have "(full @ ?buf) @ drop ?n data = msg @ data"
        unfolding b64 using msg(1) by (metis append.assoc append_take_drop_id)
      ultimately show ?thesis
        using False n by (simp add: update_buffer_def Let_def)
    qed
  qed
qed

lemma update_absorbed:
  assumes "absorbed compress msg s" "sha_bytes s = of_nat (length msg)" "length msg \<le> 2305843009213693951"
  shows "sha_update compress data s =
    (if length (msg @ data) \<le> 2305843009213693951
     then Inr (update_buffer compress data (s\<lparr>sha_bytes := of_nat (length (msg @ data))\<rparr>))
     else Inl Message_Too_Long)"
proof -
  have m: "unat (of_nat (length msg) :: u64) = length msg"
    using assms(3) by (intro unat_of_nat_u64) simp
  have "unat (maximum_bytes - of_nat (length msg)) = 2305843009213693951 - length msg"
    using assms(3) m by (subst unat_sub_small) (simp_all add: maximum_bytes_def word_le_nat_alt)
  then show ?thesis
    using assms(2,3) by (auto simp: sha_update_def)
qed

lemma updates_absorbed:
  assumes "absorbed compress msg s" "sha_bytes s = of_nat (length msg)" "length msg \<le> 2305843009213693951"
  shows "if length (msg @ concat ds) \<le> 2305843009213693951
    then \<exists>s'. sha_updates compress ds s = Inr s' \<and> absorbed compress (msg @ concat ds) s' \<and>
      sha_bytes s' = of_nat (length (msg @ concat ds))
    else sha_updates compress ds s = Inl Message_Too_Long"
  using assms
proof (induction ds arbitrary: msg s)
  case (Cons d ds)
  note u = update_absorbed [OF Cons.prems, of d]
  show ?case
  proof (cases "length (msg @ d) \<le> 2305843009213693951")
    case True
    let ?s = "update_buffer compress d (s\<lparr>sha_bytes := of_nat (length (msg @ d))\<rparr>)"
    have "absorbed compress (msg @ d) ?s"
      using Cons.prems(1) by (intro absorbed_buffer) (simp add: absorbed_bytes)
    moreover have "sha_bytes ?s = of_nat (length (msg @ d))"
      by (simp add: update_buffer_def update_blocks_def Let_def)
    ultimately have "if length ((msg @ d) @ concat ds) \<le> 2305843009213693951
      then \<exists>s'. sha_updates compress ds ?s = Inr s' \<and> absorbed compress ((msg @ d) @ concat ds) s' \<and>
        sha_bytes s' = of_nat (length ((msg @ d) @ concat ds))
      else sha_updates compress ds ?s = Inl Message_Too_Long"
      using True by (rule Cons.IH)
    moreover have "sha_updates compress (d # ds) s = sha_updates compress ds ?s"
      using True u by simp
    ultimately show ?thesis
      by (simp only: concat.simps append_assoc)
  qed (use u in auto)
qed simp

lemma finish_digest:
  assumes a: "absorbed compress msg s" and n: "sha_bytes s = of_nat (length msg)"
  shows "sha_finish compress s = digest_of compress msg"
proof -
  let ?m = "length msg div 64" and ?b = "buffered s"
  define full where "full = take (64 * ?m) msg"
  define rest where "rest = take ?b (buffer s)"
  have full: "length full = 64 * ?m" "sha_state s = compress initial_state full ?m" "length (buffer s) = 64"
    using absorbedD(1,4) [OF a] by (simp_all add: full_def)
  have msg: "msg = full @ rest" "?b < 64" "?b = length msg mod 64"
    using absorbedD(2) [OF a] unfolding rest_def absorbedD(3) [OF a] by (simp_all add: full_def)
  have "length rest = ?b"
    using full(3) msg(2) by (simp add: rest_def)
  note msg = msg this
  have bits: "sha_bytes s * 8 = of_nat (8 * length msg)"
    using n by (simp add: mult.commute)
  have mark: "(buffer s)[?b := 0x80] = rest @ 0x80 # drop (Suc ?b) (buffer s)"
    using full(3) msg(2) by (simp add: upd_conv_take_nth_drop rest_def)
  show ?thesis
  proof (cases "56 \<le> ?b")
    case False
    let ?buf = "rest @ 0x80 # replicate (55 - ?b) 0 @ length_field (length msg)"
    have pad: "padded msg = full @ ?buf"
      using False msg(1) unfolding padded_def msg(3) [symmetric] by (simp add: zero_count)
    have tail: "56 - ?b = Suc (55 - ?b)"
      using False by simp
    have "store_length (of_nat (8 * length msg)) (copy_at (Suc ?b) (replicate (55 - ?b) 0) ((buffer s)[?b := 0x80])) = ?buf"
      unfolding mark using False full(3) msg(4)
      by (subst store_length_field) (simp_all add: copy_at_def tail)
    then have "sha_finish compress s = digest_bytes (compress (sha_state s) ?buf 1)"
      using False unfolding sha_finish_def bits by (simp add: Let_def)
    moreover have "length (padded msg) div 64 = ?m + 1"
      unfolding pad using False full(1) msg(4) by (simp add: length_field_def)
    ultimately show ?thesis
      unfolding digest_of_def pad full(2) using compress_step [OF full(1), of ?buf 1] by simp
  next
    case True
    let ?buf = "rest @ 0x80 # replicate (63 - ?b) 0" and ?last = "replicate 56 0 @ length_field (length msg)"
    have "(119 - ?b) mod 64 = (63 - ?b) + 56"
      using zero_count(2) [OF True msg(2)] True msg(2) by linarith
    moreover have "replicate (63 - ?b + 56) (0 :: u8) = replicate (63 - ?b) 0 @ replicate 56 0"
      by (rule replicate_add)
    ultimately have pad: "padded msg = full @ ?buf @ ?last"
      using msg(1) unfolding padded_def msg(3) [symmetric] by simp
    have buf: "copy_at (Suc ?b) (replicate (63 - ?b) 0) ((buffer s)[?b := 0x80]) = ?buf" "length ?buf = 64"
      unfolding mark using True full(3) msg(2,4) by (simp_all add: copy_at_def)
    have last: "store_length (of_nat (8 * length msg)) (copy_at 0 (replicate 56 0) ?buf) = ?last"
      using buf(2) by (subst store_length_field) (simp_all add: copy_at_def)
    have "sha_finish compress s = digest_bytes (compress (compress (sha_state s) ?buf 1) ?last 1)"
      using True last unfolding sha_finish_def bits by (simp add: Let_def buf(1))
    moreover have "length (padded msg) div 64 = ?m + 2"
      unfolding pad using True full(1) msg(2,4) by (simp add: length_field_def)
    moreover have "compress (compress (sha_state s) ?buf 1) ?last 1 = compress initial_state (full @ ?buf @ ?last) (?m + 2)"
      using compress_append [of ?buf 1 "sha_state s" ?last 1] buf(2)
        compress_step [OF full(1), of "?buf @ ?last" 2] full(2) by (simp add: numeral_2_eq_2)
    ultimately show ?thesis
      unfolding digest_of_def pad by simp
  qed
qed

end

interpretation portable: block_engine compress_portable
proof
  show "compress_portable st bs 0 = st" for st bs
    by simp
  show "compress_portable st (as @ bs) (m + n) = compress_portable (compress_portable st as m) bs n"
    if "length as = 64 * m" for as m st bs n
    using that
  proof (induction m arbitrary: st as)
    case (Suc m)
    then show ?case
      using Suc.IH [of "drop 64 as"] by simp
  qed simp
qed

text \<open>
  C10: hashing in pieces is hashing the whole. Whatever the pieces the message is fed in, the object
  accepts them exactly while their total is at most 2^61 - 1 bytes and fails with its overflow error
  otherwise, and the digest is that of the concatenated message padded as the standard says: a one
  bit, zeros up to a whole number of blocks, and the length in bits in the last eight bytes.
\<close>

theorem sha256_incremental:
  "if length (concat ds) \<le> 2 ^ 61 - 1
   then \<exists>s. sha_updates compress_portable ds new_sha256 = Inr s \<and>
     sha_finish compress_portable s = digest_of compress_portable (concat ds) \<and>
     length (padded (concat ds)) mod 64 = 0
   else sha_updates compress_portable ds new_sha256 = Inl Message_Too_Long"
proof -
  have "length (padded (concat ds)) mod 64 = 0"
    by (rule padded_blocks)
  then show ?thesis
    using portable.updates_absorbed [OF portable.absorbed_new, of ds] portable.finish_digest
    by (fastforce simp: new_sha256_def split: if_splits)
qed

end
