(* ===== verification/Storage_Path.thy ===== *)
theory Storage_Path
  imports Prelude "HOL-Library.Char_ord" "HOL-Library.List_Lexorder" "HOL-Library.Product_Lexorder"
begin

text \<open>
  Storage paths (\<open>src/semantics/storage_path.cpp\<close>): the roots and steps the analyses after type
  checking name storage by, the order that \<open>std::set\<close> keeps them in, the overlap rule that argument
  isolation and conflict detection rest on, and the text of a path in a diagnostic. A name is a
  list of bytes, compared as \<open>std::string\<close> compares it; an index is an unbounded number where the
  code never computes with it, and \<open>tuple_element\<close> writes out its conversion to 64 bits.

  The order is an instance of \<open>linorder\<close> for each of the three structs, so the analyses' sets of
  paths are ordered without ties between different paths. The overlap rule is compared with the
  locations a path may denote: a path with an unknown element denotes one location per index.
\<close>

section \<open>Kinds\<close>

text \<open>The C++ order of an enumeration is the order of its enumerators.\<close>

datatype resource_kind =
  Stdout | Stdin | Stderr | FileSystem | Process | Network | Clock | Environment

datatype root_kind = Local | Parameter | Shared | Ambient | Resource

datatype step_kind = Field | Element | AnyElement | TupleElement

fun resource_rank :: "resource_kind \<Rightarrow> nat" where
  "resource_rank Stdout = 0"
| "resource_rank Stdin = 1"
| "resource_rank Stderr = 2"
| "resource_rank FileSystem = 3"
| "resource_rank Process = 4"
| "resource_rank Network = 5"
| "resource_rank Clock = 6"
| "resource_rank Environment = 7"

fun root_rank :: "root_kind \<Rightarrow> nat" where
  "root_rank Local = 0"
| "root_rank Parameter = 1"
| "root_rank Shared = 2"
| "root_rank Ambient = 3"
| "root_rank Resource = 4"

fun step_rank :: "step_kind \<Rightarrow> nat" where
  "step_rank Field = 0"
| "step_rank Element = 1"
| "step_rank AnyElement = 2"
| "step_rank TupleElement = 3"

lemma rank_inject [simp]:
  "resource_rank a = resource_rank b \<longleftrightarrow> a = b"
  "root_rank c = root_rank d \<longleftrightarrow> c = d"
  "step_rank e = step_rank f \<longleftrightarrow> e = f"
    apply (cases a; cases b; simp)
   apply (cases c; cases d; simp)
  apply (cases e; cases f; simp)
  done

instantiation resource_kind :: linorder
begin

definition less_eq_resource_kind :: "resource_kind \<Rightarrow> resource_kind \<Rightarrow> bool" where
  "less_eq_resource_kind a b \<longleftrightarrow> resource_rank a \<le> resource_rank b"

definition less_resource_kind :: "resource_kind \<Rightarrow> resource_kind \<Rightarrow> bool" where
  "less_resource_kind a b \<longleftrightarrow> resource_rank a < resource_rank b"

instance
  by standard (auto simp: less_eq_resource_kind_def less_resource_kind_def)

end

instantiation root_kind :: linorder
begin

definition less_eq_root_kind :: "root_kind \<Rightarrow> root_kind \<Rightarrow> bool" where
  "less_eq_root_kind a b \<longleftrightarrow> root_rank a \<le> root_rank b"

definition less_root_kind :: "root_kind \<Rightarrow> root_kind \<Rightarrow> bool" where
  "less_root_kind a b \<longleftrightarrow> root_rank a < root_rank b"

instance
  by standard (auto simp: less_eq_root_kind_def less_root_kind_def)

end

instantiation step_kind :: linorder
begin

definition less_eq_step_kind :: "step_kind \<Rightarrow> step_kind \<Rightarrow> bool" where
  "less_eq_step_kind a b \<longleftrightarrow> step_rank a \<le> step_rank b"

definition less_step_kind :: "step_kind \<Rightarrow> step_kind \<Rightarrow> bool" where
  "less_step_kind a b \<longleftrightarrow> step_rank a < step_rank b"

instance
  by standard (auto simp: less_eq_step_kind_def less_step_kind_def)

end

section \<open>Roots and steps\<close>

datatype storage_root = Storage_Root
  (root_kind: root_kind) (root_name: string) (root_index: nat) (root_resource: resource_kind)

definition root_local :: "string \<Rightarrow> storage_root" where
  "root_local name = Storage_Root Local name 0 Stdout"

definition root_parameter :: "nat \<Rightarrow> storage_root" where
  "root_parameter index = Storage_Root Parameter [] index Stdout"

definition root_shared :: "string \<Rightarrow> storage_root" where
  "root_shared provenance = Storage_Root Shared provenance 0 Stdout"

definition root_ambient :: storage_root where
  "root_ambient = Storage_Root Ambient [] 0 Stdout"

definition root_of_resource :: "resource_kind \<Rightarrow> storage_root" where
  "root_of_resource kind = Storage_Root Resource [] 0 kind"

definition root_eq :: "storage_root \<Rightarrow> storage_root \<Rightarrow> bool" where
  "root_eq l r \<longleftrightarrow> root_kind l = root_kind r \<and> root_name l = root_name r \<and>
    root_index l = root_index r \<and> root_resource l = root_resource r"

text \<open>\<open>std::tie\<close> compares component by component, which is the order of the library's pairs.\<close>

definition root_less :: "storage_root \<Rightarrow> storage_root \<Rightarrow> bool" where
  "root_less l r \<longleftrightarrow> (root_kind l, root_name l, root_index l, root_resource l)
    < (root_kind r, root_name r, root_index r, root_resource r)"

datatype path_step = Path_Step (step_kind: step_kind) (step_field: string) (step_index: int)

definition field_named :: "string \<Rightarrow> path_step" where
  "field_named name = Path_Step Field name 0"

definition element :: "int \<Rightarrow> path_step" where
  "element index = Path_Step Element [] index"

definition tuple_element :: "nat \<Rightarrow> path_step" where
  "tuple_element index = Path_Step TupleElement [] (wrap_i64 (int index))"

definition any_element :: path_step where
  "any_element = Path_Step AnyElement [] 0"

definition step_eq :: "path_step \<Rightarrow> path_step \<Rightarrow> bool" where
  "step_eq l r \<longleftrightarrow> step_kind l = step_kind r \<and> step_field l = step_field r \<and> step_index l = step_index r"

definition step_less :: "path_step \<Rightarrow> path_step \<Rightarrow> bool" where
  "step_less l r \<longleftrightarrow> (step_kind l, step_field l, step_index l) < (step_kind r, step_field r, step_index r)"

lemma root_eq_iff [simp]: "root_eq l r \<longleftrightarrow> l = r"
  by (cases l; cases r) (auto simp: root_eq_def)

lemma step_eq_iff [simp]: "step_eq l r \<longleftrightarrow> l = r"
  by (cases l; cases r) (auto simp: step_eq_def)

instantiation storage_root :: linorder
begin

definition less_storage_root :: "storage_root \<Rightarrow> storage_root \<Rightarrow> bool" where
  "less_storage_root = root_less"

definition less_eq_storage_root :: "storage_root \<Rightarrow> storage_root \<Rightarrow> bool" where
  "less_eq_storage_root l r \<longleftrightarrow> \<not> root_less r l"

instance
  by standard (auto simp: less_storage_root_def less_eq_storage_root_def root_less_def not_less
      intro: storage_root.expand)

end

instantiation path_step :: linorder
begin

definition less_path_step :: "path_step \<Rightarrow> path_step \<Rightarrow> bool" where
  "less_path_step = step_less"

definition less_eq_path_step :: "path_step \<Rightarrow> path_step \<Rightarrow> bool" where
  "less_eq_path_step l r \<longleftrightarrow> \<not> step_less r l"

instance
  by standard (auto simp: less_path_step_def less_eq_path_step_def step_less_def not_less
      intro: path_step.expand)

end

section \<open>Paths\<close>

datatype storage_path = Storage_Path (path_root: storage_root) (path_steps: "path_step list")

definition child :: "storage_path \<Rightarrow> path_step \<Rightarrow> storage_path" where
  "child path s = Storage_Path (path_root path) (path_steps path @ [s])"

definition extended_by :: "storage_path \<Rightarrow> path_step list \<Rightarrow> storage_path" where
  "extended_by path more = Storage_Path (path_root path) (path_steps path @ more)"

definition path_eq :: "storage_path \<Rightarrow> storage_path \<Rightarrow> bool" where
  "path_eq l r \<longleftrightarrow> root_eq (path_root l) (path_root r) \<and> list_all2 step_eq (path_steps l) (path_steps r)"

text \<open>\<open>std::lexicographical_compare\<close> on the steps.\<close>

fun lexicographical_compare :: "path_step list \<Rightarrow> path_step list \<Rightarrow> bool" where
  "lexicographical_compare xs [] = False"
| "lexicographical_compare [] (y # ys) = True"
| "lexicographical_compare (x # xs) (y # ys) =
    (if step_less x y then True else if step_less y x then False else lexicographical_compare xs ys)"

definition path_less :: "storage_path \<Rightarrow> storage_path \<Rightarrow> bool" where
  "path_less l r = (if root_less (path_root l) (path_root r) then True
    else if root_less (path_root r) (path_root l) then False
    else lexicographical_compare (path_steps l) (path_steps r))"

lemma path_eq_iff [simp]: "path_eq l r \<longleftrightarrow> l = r"
proof -
  have "step_eq = (=)" by (intro ext) simp
  then show ?thesis by (cases l; cases r) (simp add: path_eq_def list.rel_eq)
qed

lemma lexicographical_compare_less: "lexicographical_compare xs ys \<longleftrightarrow> xs < ys"
  by (induction xs ys rule: lexicographical_compare.induct)
    (auto simp: less_path_step_def [symmetric] neq_iff)

lemma path_less_pair: "path_less l r \<longleftrightarrow> (path_root l, path_steps l) < (path_root r, path_steps r)"
  by (auto simp: path_less_def lexicographical_compare_less less_storage_root_def [symmetric])

instantiation storage_path :: linorder
begin

definition less_storage_path :: "storage_path \<Rightarrow> storage_path \<Rightarrow> bool" where
  "less_storage_path = path_less"

definition less_eq_storage_path :: "storage_path \<Rightarrow> storage_path \<Rightarrow> bool" where
  "less_eq_storage_path l r \<longleftrightarrow> \<not> path_less r l"

instance
  by standard (auto simp: less_storage_path_def less_eq_storage_path_def path_less_pair not_less
      intro: storage_path.expand)

end

section \<open>The overlap rule\<close>

definition is_element :: "path_step \<Rightarrow> bool" where
  "is_element s \<longleftrightarrow> step_kind s = Element \<or> step_kind s = AnyElement"

definition steps_may_meet :: "path_step \<Rightarrow> path_step \<Rightarrow> bool" where
  "steps_may_meet l r =
    (if step_kind l = TupleElement \<or> step_kind r = TupleElement
     then step_kind l = step_kind r \<and> step_index l = step_index r
     else if step_kind l = Field \<or> step_kind r = Field
     then step_kind l = step_kind r \<and> step_field l = step_field r
     else if step_kind l = AnyElement \<or> step_kind r = AnyElement
     then is_element l \<and> is_element r
     else step_index l = step_index r)"

text \<open>The loop over the common prefix ends at the shorter path.\<close>

fun common_steps_meet :: "path_step list \<Rightarrow> path_step list \<Rightarrow> bool" where
  "common_steps_meet (x # xs) (y # ys) = (if \<not> steps_may_meet x y then False else common_steps_meet xs ys)"
| "common_steps_meet _ _ = True"

definition overlaps :: "storage_path \<Rightarrow> storage_path \<Rightarrow> bool" where
  "overlaps l r = (if \<not> root_eq (path_root l) (path_root r) then False
    else common_steps_meet (path_steps l) (path_steps r))"

text \<open>A \<open>PathSet\<close> is the list of its elements in the order of the set.\<close>

definition overlaps_any :: "storage_path list \<Rightarrow> storage_path \<Rightarrow> bool" where
  "overlaps_any paths path = list_ex (\<lambda>candidate. overlaps candidate path) paths"

text \<open>The locations of a path: one concrete selection for each of its steps.\<close>

datatype location_step = At_Field string | At_Element int | At_Tuple int

fun selects :: "path_step \<Rightarrow> location_step \<Rightarrow> bool" where
  "selects s (At_Field f) \<longleftrightarrow> step_kind s = Field \<and> step_field s = f"
| "selects s (At_Element i) \<longleftrightarrow> step_kind s = AnyElement \<or> step_kind s = Element \<and> step_index s = i"
| "selects s (At_Tuple i) \<longleftrightarrow> step_kind s = TupleElement \<and> step_index s = i"

definition denotes :: "storage_path \<Rightarrow> storage_root \<Rightarrow> location_step list \<Rightarrow> bool" where
  "denotes p r loc \<longleftrightarrow> path_root p = r \<and> list_all2 selects (path_steps p) loc"

text \<open>Two steps may meet exactly when one selection belongs to both.\<close>

lemma steps_may_meet_iff: "steps_may_meet l r \<longleftrightarrow> (\<exists>c. selects l c \<and> selects r c)"
proof
  assume m: "steps_may_meet l r"
  show "\<exists>c. selects l c \<and> selects r c"
  proof (cases "step_kind l")
    case Field
    with m show ?thesis
      by (intro exI [of _ "At_Field (step_field l)"]) (simp add: steps_may_meet_def split: if_splits)
  next
    case TupleElement
    with m show ?thesis
      by (intro exI [of _ "At_Tuple (step_index l)"]) (simp add: steps_may_meet_def split: if_splits)
  next
    case Element
    with m show ?thesis
      by (intro exI [of _ "At_Element (step_index l)"])
        (cases "step_kind r"; simp add: steps_may_meet_def)
  next
    case AnyElement
    with m show ?thesis
      by (intro exI [of _ "At_Element (step_index r)"])
        (cases "step_kind r"; simp add: steps_may_meet_def is_element_def)
  qed
next
  assume "\<exists>c. selects l c \<and> selects r c"
  then obtain c where "selects l c" "selects r c" by blast
  then show "steps_may_meet l r"
    by (cases c) (auto simp: steps_may_meet_def is_element_def)
qed

lemma selects_some: "\<exists>c. selects s c"
  using steps_may_meet_iff [of s s] by (cases "step_kind s") (auto simp: steps_may_meet_def is_element_def)

lemma steps_denote: "\<exists>loc. list_all2 selects ss loc"
proof (induction ss)
  case (Cons s ss)
  then obtain loc where "list_all2 selects ss loc" by blast
  moreover obtain c where "selects s c" using selects_some by blast
  ultimately show ?case by (auto intro!: exI [of _ "c # loc"])
qed simp

text \<open>One of two locations contains the other.\<close>

definition nested :: "location_step list \<Rightarrow> location_step list \<Rightarrow> bool" where
  "nested a b \<longleftrightarrow> (\<exists>c. a = b @ c \<or> b = a @ c)"

lemma nested_simps [simp]:
  "nested [] b" "nested a []" "nested (x # a) (y # b) \<longleftrightarrow> x = y \<and> nested a b"
  by (auto simp: nested_def)

lemma common_steps_meet_iff:
  "common_steps_meet xs ys \<longleftrightarrow> (\<exists>a b. list_all2 selects xs a \<and> list_all2 selects ys b \<and> nested a b)"
proof (induction xs ys rule: common_steps_meet.induct)
  case (1 x xs y ys)
  show ?case
  proof
    assume "common_steps_meet (x # xs) (y # ys)"
    then obtain a b where "steps_may_meet x y" "list_all2 selects xs a" "list_all2 selects ys b" "nested a b"
      using 1 by (auto split: if_splits)
    moreover from this(1) obtain c where "selects x c" "selects y c"
      unfolding steps_may_meet_iff by blast
    ultimately show "\<exists>a b. list_all2 selects (x # xs) a \<and> list_all2 selects (y # ys) b \<and> nested a b"
      by (intro exI [of _ "c # a"] exI [of _ "c # b"]) simp
  next
    assume "\<exists>a b. list_all2 selects (x # xs) a \<and> list_all2 selects (y # ys) b \<and> nested a b"
    then obtain a b where "list_all2 selects (x # xs) a" "list_all2 selects (y # ys) b" "nested a b"
      by blast
    then obtain c a' b' where "selects x c" "selects y c"
      "list_all2 selects xs a'" "list_all2 selects ys b'" "nested a' b'"
      by (auto simp: list_all2_Cons1)
    then show "common_steps_meet (x # xs) (y # ys)"
      using 1 steps_may_meet_iff by auto
  qed
qed (auto simp: steps_denote)

text \<open>The relation is reflexive and symmetric, and a path overlaps everything below it.\<close>

lemma steps_may_meet_refl [simp]: "steps_may_meet s s"
  by (cases "step_kind s") (simp_all add: steps_may_meet_def is_element_def)

lemma common_steps_meet_extended [simp]: "common_steps_meet ss (ss @ more)"
  by (induction ss) (cases more; simp)+

lemma overlaps_extended: "overlaps p (extended_by p more)"
  by (simp add: overlaps_def extended_by_def)

lemma overlaps_refl: "overlaps p p"
  using overlaps_extended [of p "[]"] by (simp add: extended_by_def)

lemma overlaps_sym: "overlaps p q \<Longrightarrow> overlaps q p"
proof -
  have n: "nested a b \<longleftrightarrow> nested b a" for a b by (auto simp: nested_def)
  show "overlaps p q \<Longrightarrow> overlaps q p"
    by (auto simp: overlaps_def common_steps_meet_iff split: if_splits) (use n in blast)
qed

text \<open>Paths that do not overlap stay apart however they are extended.\<close>

lemma common_steps_meet_append: "common_steps_meet (xs @ us) (ys @ vs) \<Longrightarrow> common_steps_meet xs ys"
  by (induction xs ys rule: common_steps_meet.induct) (auto split: if_splits)

lemma overlaps_below: "overlaps (extended_by p us) (extended_by q vs) \<Longrightarrow> overlaps p q"
  by (auto simp: overlaps_def extended_by_def dest: common_steps_meet_append split: if_splits)

section \<open>Diagnostics\<close>

definition to_string :: "int \<Rightarrow> string" where
  "to_string i = (if i < 0 then CHR ''-'' # nat_text (nat (- i)) else nat_text (nat i))"

fun describe_resource :: "resource_kind \<Rightarrow> string" where
  "describe_resource Stdout = ''stdout''"
| "describe_resource Stdin = ''stdin''"
| "describe_resource Stderr = ''stderr''"
| "describe_resource FileSystem = ''the file system''"
| "describe_resource Process = ''processes''"
| "describe_resource Network = ''the network''"
| "describe_resource Clock = ''the clock''"
| "describe_resource Environment = ''the environment''"

definition describe_root :: "storage_root \<Rightarrow> string list \<Rightarrow> string" where
  "describe_root r parameter_names =
    (case root_kind r of
       Local \<Rightarrow> root_name r
     | Parameter \<Rightarrow> if root_index r < length parameter_names then parameter_names ! root_index r
         else ''parameter '' @ to_string (int (root_index r))
     | Shared \<Rightarrow> ''shared state of '' @ root_name r
     | Ambient \<Rightarrow> ''runtime state''
     | Resource \<Rightarrow> describe_resource (root_resource r))"

definition describe_step :: "path_step \<Rightarrow> string" where
  "describe_step s =
    (case step_kind s of
       Field \<Rightarrow> ''.'' @ step_field s
     | Element \<Rightarrow> ''['' @ to_string (step_index s) @ '']''
     | TupleElement \<Rightarrow> ''.'' @ to_string (step_index s)
     | AnyElement \<Rightarrow> ''[?]'')"

definition describe :: "storage_path \<Rightarrow> string list \<Rightarrow> string" where
  "describe path parameter_names =
    foldl (\<lambda>text s. text @ describe_step s) (describe_root (path_root path) parameter_names) (path_steps path)"

lemma describe_foldl: "foldl (\<lambda>text s. text @ describe_step s) t ss = t @ concat (map describe_step ss)"
  by (induction ss arbitrary: t) simp_all

lemma describe_extended: "describe (extended_by p more) names = describe p names @ concat (map describe_step more)"
  by (simp add: describe_def extended_by_def describe_foldl)

text \<open>The texts that the header of the component documents.\<close>

lemma describe_documented:
  "describe (child (child (Storage_Path (root_local ''values'') []) (element 0)) (field_named ''x'')) [] = ''values[0].x''"
  "describe (child (child (Storage_Path (root_parameter 0) []) (field_named ''items'')) any_element) [''this''] = ''this.items[?]''"
  "describe (Storage_Path (root_parameter 2) []) [''a''] = ''parameter 2''"
  "describe (Storage_Path (root_shared ''c'') []) [] = ''shared state of c''"
  "describe (Storage_Path (root_of_resource Stdout) []) [] = ''stdout''"
  by (simp_all add: describe_def describe_root_def describe_step_def child_def root_local_def
      root_parameter_def root_shared_def root_of_resource_def element_def field_named_def
      any_element_def to_string_def nat_text_small digit_char_def char_of_def bit_0)

section \<open>Properties\<close>

text \<open>
  C12: two paths overlap exactly when they can denote locations of which one contains the other:
  the overlap rule misses no conflict, and reports none that no choice of the unknown indices
  would produce. A set of paths overlaps a path exactly when one of its members does. The three
  orders are strict and total and agree with equality, so a set of paths never holds a path twice
  and its order does not depend on how it was built.
\<close>

theorem overlaps_exact:
  "(overlaps p q \<longleftrightarrow> (\<exists>r a b. denotes p r a \<and> denotes q r b \<and> nested a b))
   \<and> (overlaps_any ps q \<longleftrightarrow> (\<exists>p'\<in>set ps. overlaps p' q))
   \<and> (path_less p q \<longleftrightarrow> \<not> path_eq p q \<and> \<not> path_less q p)
   \<and> (path_less p q \<and> path_less q t \<longrightarrow> path_less p t)"
proof -
  have "overlaps p q \<longleftrightarrow> (\<exists>r a b. denotes p r a \<and> denotes q r b \<and> nested a b)"
    by (auto simp: overlaps_def denotes_def common_steps_meet_iff)
  moreover have "path_less p q \<longleftrightarrow> p \<noteq> q \<and> \<not> path_less q p"
    using neq_iff [of p q] less_asym [of p q] by (auto simp: less_storage_path_def)
  moreover have "path_less p q \<and> path_less q t \<longrightarrow> path_less p t"
    using less_trans [of p q t] by (auto simp: less_storage_path_def)
  ultimately show ?thesis by (simp add: overlaps_any_def list_ex_iff)
qed

text \<open>The paths \<open>v[3].x\<close>, \<open>v[?]\<close> and \<open>w\<close>, in the order of the set.\<close>

definition sample_paths :: "storage_path list" where
  "sample_paths = [Storage_Path (root_local ''v'') [element 3, field_named ''x''],
    Storage_Path (root_local ''v'') [any_element], Storage_Path (root_local ''w'') []]"

theorem overlaps_exact_witness:
  "path_less (sample_paths ! 0) (sample_paths ! 2) \<and> overlaps_any sample_paths (sample_paths ! 1)
   \<and> (\<exists>r a b. denotes (sample_paths ! 0) r a \<and> denotes (sample_paths ! 1) r b \<and> nested a b)"
proof -
  have less: "path_less (sample_paths ! 0) (sample_paths ! 1)" "path_less (sample_paths ! 1) (sample_paths ! 2)"
    by code_simp+
  have meet: "overlaps (sample_paths ! 0) (sample_paths ! 1)"
    by code_simp
  note e = overlaps_exact [of "sample_paths ! 0" "sample_paths ! 1" sample_paths "sample_paths ! 2"]
  have "overlaps_any sample_paths (sample_paths ! 1)" by code_simp
  then show ?thesis using less meet e by blast
qed

end
