(* ===== verification/Ieee_Natural.thy ===== *)
theory Ieee_Natural
  imports Prelude
begin

text \<open>
  The exact arithmetic below the rounding of decimal literals: class \<open>Natural\<close> of
  \<open>src/ieee_decimal.hpp\<close>, a natural number as little-endian 32-bit limbs without a leading zero
  limb. \<open>nat_val\<close> reads a value and \<open>nat_ok\<close> is the invariant. Every product and sum runs in a
  64-bit word as in the code; the lemmas show that none wraps and what each operation computes.
\<close>

unbundle bit_operations_syntax

section \<open>Operations\<close>

type_synonym natural = "u32 list"

definition trim :: "natural \<Rightarrow> natural" where
  "trim n = strip_back (\<lambda>l. l = 0) n"

lemma unat_drop_32: "unat (drop_bit 32 (v :: u64)) = unat v div 4294967296"
proof -
  have "take_bit 64 (unat v) = unat v"
    using unat_u64_lt [of v] by (simp add: take_bit_nat_eq_self_iff)
  then have "unat (drop_bit 32 v) = drop_bit 32 (unat v)"
    by (simp only: unsigned_drop_bit_eq len_bit0 len_num1 len_num0 mult_2 mult_1_right) simp
  then show ?thesis by (simp add: drop_bit_eq_div)
qed

function natural_of :: "u64 \<Rightarrow> natural" where
  "natural_of v = (if v = 0 then [] else ucast v # natural_of (drop_bit 32 v))"
  by auto
termination
proof (relation "measure unat")
  fix v :: u64
  assume "v \<noteq> 0"
  then have "0 < unat v" by (simp add: unat_gt_0)
  then show "(drop_bit 32 v, v) \<in> measure unat"
    by (simp only: unat_drop_32 in_measure div_less_dividend)
qed simp

declare natural_of.simps [simp del]

text \<open>\<open>std::bit_width\<close>.\<close>

fun bit_width :: "nat \<Rightarrow> nat" where
  "bit_width n = (if n = 0 then 0 else Suc (bit_width (n div 2)))"

declare bit_width.simps [simp del]

text \<open>A conversion to a 32-bit \<open>int\<close>.\<close>

definition to_int :: "int \<Rightarrow> int" where
  "to_int x = (x + 2147483648) mod 4294967296 - 2147483648"

definition bit_length :: "natural \<Rightarrow> int" where
  "bit_length n = (if n = [] then 0 else to_int (32 * (int (length n) - 1)) + int (bit_width (unat (last n))))"

fun multiply_add_loop :: "u32 list \<Rightarrow> u32 \<Rightarrow> u64 \<Rightarrow> u32 list" where
  "multiply_add_loop [] factor carry = (if carry \<noteq> 0 then [ucast carry] else [])"
| "multiply_add_loop (limb # limbs) factor carry =
    (let product = ucast limb * ucast factor + carry
     in ucast product # multiply_add_loop limbs factor (drop_bit 32 product))"

definition multiply_add :: "natural \<Rightarrow> u32 \<Rightarrow> u32 \<Rightarrow> natural" where
  "multiply_add n factor addend = trim (multiply_add_loop n factor (ucast addend))"

fun power_of_five_loop :: "nat \<Rightarrow> u32 \<Rightarrow> u32" where
  "power_of_five_loop 0 rest = rest"
| "power_of_five_loop (Suc e) rest = power_of_five_loop e (rest * 5)"

fun multiply_power_of_five :: "natural \<Rightarrow> nat \<Rightarrow> natural" where
  "multiply_power_of_five n e =
    (if 13 \<le> e then multiply_power_of_five (multiply_add n 1220703125 0) (e - 13)
     else let rest = power_of_five_loop e 1 in if rest \<noteq> 1 then multiply_add n rest 0 else n)"

declare multiply_power_of_five.simps [simp del]

fun shift_left_loop :: "u32 list \<Rightarrow> nat \<Rightarrow> u32 \<Rightarrow> u32 list" where
  "shift_left_loop [] part carry = (if carry \<noteq> 0 then [carry] else [])"
| "shift_left_loop (limb # limbs) part carry =
    (push_bit part limb OR carry) # shift_left_loop limbs part (drop_bit (32 - part) limb)"

definition shift_left :: "natural \<Rightarrow> nat \<Rightarrow> natural" where
  "shift_left n bits =
    (if n = [] \<or> bits = 0 then n
     else let whole = bits div 32; part = bits mod 32;
              n = (if part \<noteq> 0 then shift_left_loop n part 0 else n)
          in replicate whole 0 @ n)"

text \<open>The loop from the most significant limb down.\<close>

fun shift_right_loop :: "u32 list \<Rightarrow> u32 \<Rightarrow> u32 list" where
  "shift_right_loop [] carry = []"
| "shift_right_loop (limb # limbs) carry =
    (drop_bit 1 limb OR push_bit 31 carry) # shift_right_loop limbs (limb AND 1)"

definition shift_right_one :: "natural \<Rightarrow> natural" where
  "shift_right_one n = trim (rev (shift_right_loop (rev n) 0))"

fun subtract_loop :: "u32 list \<Rightarrow> u32 list \<Rightarrow> int \<Rightarrow> u32 list" where
  "subtract_loop [] other borrow = []"
| "subtract_loop (limb # limbs) other borrow =
    (let v = int (unat limb) - borrow - (case other of [] \<Rightarrow> 0 | digit # _ \<Rightarrow> int (unat digit));
         borrow = (if v < 0 then 1 else 0);
         v = (if v < 0 then v + 4294967296 else v)
     in of_int v # subtract_loop limbs (tl other) borrow)"

definition subtract :: "natural \<Rightarrow> natural \<Rightarrow> natural" where
  "subtract n other = trim (subtract_loop n other 0)"

text \<open>The comparison from the most significant limb down, of equally many limbs.\<close>

fun compare_limbs :: "u32 list \<Rightarrow> u32 list \<Rightarrow> int" where
  "compare_limbs (l # ls) (r # rs) = (if l \<noteq> r then if l < r then -1 else 1 else compare_limbs ls rs)"
| "compare_limbs _ _ = 0"

definition compare_natural :: "natural \<Rightarrow> natural \<Rightarrow> int" where
  "compare_natural left right =
    (if length left \<noteq> length right then if length left < length right then -1 else 1
     else compare_limbs (rev left) (rev right))"

section \<open>Values\<close>

fun nat_val :: "natural \<Rightarrow> nat" where
  "nat_val [] = 0"
| "nat_val (l # ls) = unat l + 4294967296 * nat_val ls"

definition nat_ok :: "natural \<Rightarrow> bool" where
  "nat_ok n \<longleftrightarrow> n = [] \<or> last n \<noteq> 0"

lemma nat_val_append: "nat_val (xs @ ys) = nat_val xs + 4294967296 ^ length xs * nat_val ys"
  by (induction xs) (simp_all add: algebra_simps)

lemma nat_val_zeros: "\<forall>z\<in>set zs. z = 0 \<Longrightarrow> nat_val zs = 0"
  by (induction zs) auto

lemma nat_val_less: "nat_val n < 4294967296 ^ length n"
proof (induction n)
  case (Cons l ls)
  have "unat l < 4294967296" by (rule unat_u32_lt)
  moreover have "4294967296 * (nat_val ls + 1) \<le> 4294967296 * 4294967296 ^ length ls"
    using Cons by (intro mult_le_mono2) simp
  ultimately show ?case by simp
qed simp

lemma nat_ok_Nil [simp]: "nat_ok []"
  by (simp add: nat_ok_def)

lemma nat_ok_trim [simp, ok_intros]: "nat_ok (trim n)"
  using last_strip_back [of "\<lambda>l. l = 0" n] by (auto simp: nat_ok_def trim_def)

lemma nat_val_trim [simp]: "nat_val (trim n) = nat_val n"
proof -
  obtain zs where zs: "n = trim n @ zs" "\<forall>z\<in>set zs. z = 0"
    using strip_back_decomp [of n "\<lambda>l. l = 0"] unfolding trim_def by blast
  have "nat_val n = nat_val (trim n @ zs)" using zs(1) by simp
  then show ?thesis by (simp add: nat_val_append nat_val_zeros [OF zs(2)])
qed

lemma nat_val_ge: "nat_ok n \<Longrightarrow> n \<noteq> [] \<Longrightarrow> 4294967296 ^ (length n - 1) \<le> nat_val n"
proof -
  assume "nat_ok n" "n \<noteq> []"
  then obtain xs l where n: "n = xs @ [l]" and "l \<noteq> 0"
    unfolding nat_ok_def by (metis append_butlast_last_id)
  then have "1 \<le> unat l" by (metis less_one linorder_not_le unat_eq_zero)
  then show ?thesis by (simp add: n nat_val_append trans_le_add2)
qed

lemma nat_val_0 [simp]: "nat_ok n \<Longrightarrow> nat_val n = 0 \<longleftrightarrow> n = []"
proof -
  have "0 < (4294967296 :: nat) ^ k" for k by simp
  then show "nat_ok n \<Longrightarrow> nat_val n = 0 \<longleftrightarrow> n = []"
    using nat_val_ge [of n] by (metis le_zero_eq less_irrefl nat_val.simps(1))
qed

section \<open>Conversions and multiplication\<close>

lemma split_u64: "unat (ucast (v :: u64) :: u32) + 4294967296 * unat (drop_bit 32 v) = unat v"
proof -
  have "unat (ucast v :: u32) = unat v mod 4294967296"
    by (simp add: unsigned_ucast_eq take_bit_eq_mod)
  then show ?thesis by (simp only: unat_drop_32 mod_mult_div_eq)
qed

lemma natural_of_val [simp]: "nat_val (natural_of v) = unat v"
proof (induction v rule: natural_of.induct)
  case (1 v)
  then show ?case
    using split_u64 [of v] by (subst natural_of.simps) simp
qed

lemma natural_of_ok [simp, ok_intros]: "nat_ok (natural_of v)"
proof (induction v rule: natural_of.induct)
  case (1 v)
  show ?case
  proof (cases "v = 0 \<or> drop_bit 32 v \<noteq> 0")
    case True
    then show ?thesis
      using 1 by (subst natural_of.simps) (auto simp: nat_ok_def natural_of.simps [of "drop_bit 32 v"])
  next
    case False
    then have "unat (ucast v :: u32) \<noteq> 0"
      using split_u64 [of v] by (simp add: unat_eq_zero)
    then have "(ucast v :: u32) \<noteq> 0" by auto
    then show ?thesis
      using False by (subst natural_of.simps, subst natural_of.simps) (simp add: nat_ok_def)
  qed
qed

lemma product_bound:
  assumes "c < 4294967296"
  shows "unat (l :: u32) * unat (f :: u32) + c < 18446744073709551616"
proof -
  have "unat l * unat f \<le> 4294967295 * 4294967295"
    using unat_u32_lt [of l] unat_u32_lt [of f] by (intro mult_le_mono) simp_all
  then show ?thesis using assms by simp
qed

lemma multiply_add_loop_val:
  "unat carry < 4294967296 \<Longrightarrow>
    nat_val (multiply_add_loop ls f carry) = nat_val ls * unat f + unat carry"
proof (induction ls f carry rule: multiply_add_loop.induct)
  case (1 f c)
  then show ?case by (auto simp: unat_u64_to_u32)
next
  case (2 l ls f c)
  let ?p = "ucast l * ucast f + c :: u64"
  have b: "unat l * unat f + unat c < 18446744073709551616"
    by (rule product_bound) (rule 2(2))
  then have p: "unat ?p = unat l * unat f + unat c"
    using unat_mult_small [of "ucast l" "ucast f"] unat_add_small [of "ucast l * ucast f" c] by simp
  have "unat (drop_bit 32 ?p) < 4294967296"
    using b p unfolding unat_drop_32 by (simp add: less_mult_imp_div_less)
  then have "nat_val (multiply_add_loop (l # ls) f c) =
      unat (ucast ?p :: u32) + 4294967296 * (nat_val ls * unat f + unat (drop_bit 32 ?p))"
    using 2(1) by (simp add: Let_def)
  also have "\<dots> = unat ?p + 4294967296 * (nat_val ls * unat f)"
    using split_u64 [of ?p] by (simp add: algebra_simps)
  finally show ?case unfolding p by (simp add: algebra_simps)
qed

lemma multiply_add_val [simp]: "nat_val (multiply_add n f a) = nat_val n * unat f + unat a"
  using unat_u32_lt [of a] by (simp add: multiply_add_def multiply_add_loop_val)

lemma multiply_add_ok [simp, ok_intros]: "nat_ok (multiply_add n f a)"
  by (simp add: multiply_add_def)

lemma power_of_five_loop_val: "unat r * 5 ^ e < 4294967296 \<Longrightarrow> unat (power_of_five_loop e r) = unat r * 5 ^ e"
proof (induction e arbitrary: r)
  case (Suc e)
  have "unat r * 5 \<le> unat r * 5 * 5 ^ e" by simp
  also have "\<dots> < 4294967296" using Suc.prems by (simp only: power_Suc mult.assoc)
  finally have "unat r * 5 < 4294967296" .
  then have "unat (r * 5) = unat r * 5" using unat_mult_small_u32 [of r 5] by simp
  then show ?case using Suc by (simp add: algebra_simps)
qed simp

lemma multiply_power_of_five_val [simp]: "nat_val (multiply_power_of_five n e) = nat_val n * 5 ^ e"
proof (induction n e rule: multiply_power_of_five.induct)
  case (1 n e)
  show ?case
  proof (cases "13 \<le> e")
    case True
    then have "(5 :: nat) ^ e = 5 ^ 13 * 5 ^ (e - 13)" by (metis le_add_diff_inverse power_add)
    then show ?thesis using True 1 by (subst multiply_power_of_five.simps) simp
  next
    case False
    then have "(5 :: nat) ^ e \<le> 5 ^ 12" by (intro power_increasing) simp_all
    then have "unat (power_of_five_loop e 1) = 5 ^ e"
      using power_of_five_loop_val [of 1 e] by simp
    then show ?thesis
      using False by (subst multiply_power_of_five.simps) (auto simp: Let_def)
  qed
qed

lemma multiply_power_of_five_ok [simp, ok_intros]: "nat_ok n \<Longrightarrow> nat_ok (multiply_power_of_five n e)"
proof (induction n e rule: multiply_power_of_five.induct)
  case (1 n e)
  then show ?case by (subst multiply_power_of_five.simps) (auto simp: Let_def)
qed

section \<open>Shifts\<close>

lemma push_or_val:
  assumes "part < 32" "unat (c :: u32) < 2 ^ part"
  shows "unat (push_bit part (l :: u32) OR c) = unat l mod 2 ^ (32 - part) * 2 ^ part + unat c"
proof -
  have "\<not> bit c i" if "part \<le> i" for i
  proof -
    have "take_bit part (unat c) = unat c" using assms(2) by (simp add: take_bit_nat_eq_self_iff)
    then have "\<not> bit (unat c) i" using that by (metis bit_take_bit_iff not_le)
    then show ?thesis by (simp add: bit_unsigned_iff)
  qed
  then have z: "push_bit part l AND c = 0"
    by (intro bit_eqI) (auto simp: bit_and_iff bit_push_bit_iff)
  have p: "unat (push_bit part l) = unat l mod 2 ^ (32 - part) * 2 ^ part"
  proof -
    have "(4294967296 :: nat) = 2 ^ (32 - part) * 2 ^ part" using assms(1) by (simp flip: power_add)
    then have "unat l * 2 ^ part mod 4294967296 = unat l mod 2 ^ (32 - part) * 2 ^ part"
      by (simp only: mod_mult_mult2)
    then show ?thesis
      unfolding unsigned_push_bit_eq by (simp add: push_bit_eq_mult take_bit_eq_mod)
  qed
  have "(unat l mod 2 ^ (32 - part) + 1) * 2 ^ part \<le> 2 ^ (32 - part) * 2 ^ part"
    by (intro mult_le_mono1) (simp add: Suc_leI)
  also have "\<dots> = (4294967296 :: nat)" using assms(1) by (simp flip: power_add)
  finally have "unat (push_bit part l) + unat c < 4294967296"
    using assms(2) unfolding p by simp
  then have "unat (push_bit part l + c) = unat (push_bit part l) + unat c" by (rule unat_add_small_u32)
  then show ?thesis using z p by (simp add: disjunctive_add_eq_or)
qed

lemma drop_part_val: "part < 32 \<Longrightarrow> unat (drop_bit (32 - part) (l :: u32)) = unat l div 2 ^ (32 - part)"
proof -
  have "take_bit 32 (unat l) = unat l"
    using unat_u32_lt [of l] by (simp add: take_bit_nat_eq_self_iff)
  then have "unat (drop_bit (32 - part) l) = drop_bit (32 - part) (unat l)"
    by (simp only: unsigned_drop_bit_eq len_bit0 len_num1 mult_2 mult_1_right) simp
  then show ?thesis by (simp add: drop_bit_eq_div)
qed

lemma drop_part_less: "part < 32 \<Longrightarrow> unat (drop_bit (32 - part) (l :: u32)) < 2 ^ part"
proof -
  assume p: "part < 32"
  have "unat l < 2 ^ (32 - part) * 2 ^ part"
    using unat_u32_lt [of l] p by (simp flip: power_add)
  then show ?thesis using drop_part_val [OF p] by (simp add: less_mult_imp_div_less mult.commute)
qed

lemma limb_split:
  assumes "part < 32"
  shows "k mod 2 ^ (32 - part) * 2 ^ part + 4294967296 * (k div 2 ^ (32 - part)) = (k :: nat) * 2 ^ part"
proof -
  have split: "k mod m * p + p * m * (k div m) = k * p" for m p k :: nat
  proof -
    have "k mod m * p + p * m * (k div m) = p * (m * (k div m) + k mod m)"
      unfolding distrib_left by (simp only: ac_simps)
    also have "m * (k div m) + k mod m = k" by simp
    finally show ?thesis by (simp only: mult.commute)
  qed
  have "(4294967296 :: nat) = 2 ^ part * 2 ^ (32 - part)" using assms by (simp flip: power_add)
  then show ?thesis by (simp only: split)
qed

lemma shift_left_loop_val:
  "part < 32 \<Longrightarrow> unat c < 2 ^ part \<Longrightarrow> nat_val (shift_left_loop ls part c) = nat_val ls * 2 ^ part + unat c"
proof (induction ls part c rule: shift_left_loop.induct)
  case (2 l ls part c)
  have "nat_val (shift_left_loop ls part (drop_bit (32 - part) l)) = nat_val ls * 2 ^ part + unat l div 2 ^ (32 - part)"
    using 2(1) [OF 2(2)] drop_part_less drop_part_val 2(2) by simp
  then have "nat_val (shift_left_loop (l # ls) part c) = (unat l mod 2 ^ (32 - part) * 2 ^ part
      + 4294967296 * (unat l div 2 ^ (32 - part))) + unat c + 4294967296 * (nat_val ls * 2 ^ part)"
    using push_or_val [OF 2(2,3), of l] by (simp add: algebra_simps)
  then show ?case unfolding limb_split [OF 2(2)] by (simp add: algebra_simps)
qed auto

lemma shift_left_loop_last: "ls \<noteq> [] \<Longrightarrow> part < 32 \<Longrightarrow> last ls \<noteq> 0 \<Longrightarrow> unat c < 2 ^ part \<Longrightarrow>
    nat_ok (shift_left_loop ls part c)"
proof (induction ls part c rule: shift_left_loop.induct)
  case (2 l ls part c)
  let ?d = "drop_bit (32 - part) l"
  show ?case
  proof (cases "ls = []")
    case True
    have "push_bit part l OR c \<noteq> 0" if "?d = 0"
    proof
      assume "push_bit part l OR c = 0"
      then have "unat l mod 2 ^ (32 - part) * 2 ^ part + unat c = 0"
        using push_or_val [OF 2(3,5), of l] by simp
      moreover have "unat l div 2 ^ (32 - part) = 0" using drop_part_val [OF 2(3), of l] that by simp
      ultimately have "unat l = 0" by (metis add_is_0 div_mult_mod_eq mult_is_0 power_not_zero zero_neq_numeral)
      then show False using 2(4) True by (simp add: unat_eq_zero)
    qed
    then show ?thesis using True by (simp add: nat_ok_def)
  next
    case False
    then have "nat_ok (shift_left_loop ls part ?d)"
      using 2(1) 2(3,4) drop_part_less by simp
    moreover have "shift_left_loop ls part ?d \<noteq> []" using False by (cases ls) simp_all
    ultimately show ?thesis by (simp add: nat_ok_def)
  qed
qed simp

lemma shift_left_val [simp]: "nat_val (shift_left n k) = nat_val n * 2 ^ k"
proof (cases "n = [] \<or> k = 0")
  case False
  let ?m = "if k mod 32 \<noteq> 0 then shift_left_loop n (k mod 32) 0 else n"
  have m: "nat_val ?m = nat_val n * 2 ^ (k mod 32)" by (simp add: shift_left_loop_val)
  have "nat_val (shift_left n k) = 4294967296 ^ (k div 32) * nat_val ?m"
    using False by (simp add: shift_left_def Let_def nat_val_append nat_val_zeros)
  also have "(4294967296 :: nat) ^ (k div 32) = 2 ^ (32 * (k div 32))" by (simp add: power_mult)
  also have "2 ^ (32 * (k div 32)) * nat_val ?m = nat_val n * (2 ^ (32 * (k div 32)) * 2 ^ (k mod 32))"
    unfolding m by (simp add: algebra_simps)
  also have "(2 :: nat) ^ (32 * (k div 32)) * 2 ^ (k mod 32) = 2 ^ k"
    by (simp flip: power_add)
  finally show ?thesis .
qed (auto simp: shift_left_def)

lemma shift_left_ok [simp, ok_intros]: "nat_ok n \<Longrightarrow> nat_ok (shift_left n k)"
proof (cases "n = [] \<or> k = 0")
  case False
  assume n: "nat_ok n"
  let ?m = "if k mod 32 \<noteq> 0 then shift_left_loop n (k mod 32) 0 else n"
  have "nat_ok ?m" using n False shift_left_loop_last [of n "k mod 32" 0] by (auto simp: nat_ok_def)
  moreover have "?m \<noteq> []" using False by (cases n) simp_all
  ultimately show ?thesis using False by (simp add: shift_left_def Let_def nat_ok_def)
qed (auto simp: shift_left_def)

text \<open>One bit to the right, from the most significant limb.\<close>

lemma or_top_val: "unat (drop_bit 1 (l :: u32) OR push_bit 31 c) = unat l div 2 + unat (c AND 1) * 2147483648"
proof -
  have d: "drop_bit (32 - 31) l = drop_bit 1 l" by simp
  have "push_bit 31 c OR drop_bit 1 l = drop_bit 1 l OR push_bit 31 c" by (rule or.commute)
  moreover have "unat (push_bit 31 c OR drop_bit 1 l) = unat c mod 2 * 2147483648 + unat l div 2"
    using push_or_val [of 31 "drop_bit 1 l" c] drop_part_less [of 31 l] drop_part_val [of 31 l] by simp
  moreover have "unat (c AND 1) = unat c mod 2"
    unfolding unsigned_and_eq by (simp add: and_one_eq)
  ultimately show ?thesis by simp
qed

lemma shift_right_loop_val:
  "nat_val (rev (shift_right_loop ls c)) =
    (nat_val (rev ls) + 4294967296 ^ length ls * unat (c AND 1)) div 2"
proof (induction ls c rule: shift_right_loop.induct)
  case (1 c)
  have "unat (c AND 1) < 2" unfolding unsigned_and_eq by (simp add: and_one_eq)
  then show ?case by simp
next
  case (2 l ls c)
  let ?B = "4294967296 ^ length ls :: nat" and ?b = "unat (c AND 1)" and ?v = "nat_val (rev ls)"
  have "length (shift_right_loop ls x) = length ls" for x
    by (induction ls arbitrary: x) simp_all
  then have v: "nat_val (rev (shift_right_loop (l # ls) c)) =
      (?v + ?B * unat (l AND 1)) div 2 + ?B * (unat l div 2 + ?b * 2147483648)"
    using 2 or_top_val [of l c] by (simp add: nat_val_append)
  have "l AND 1 AND 1 = l AND 1" by (simp add: and.assoc)
  moreover have "unat (l AND 1) = unat l mod 2"
    unfolding unsigned_and_eq by (simp add: and_one_eq)
  ultimately have "(?v + ?B * unat (l AND 1)) div 2 + ?B * (unat l div 2 + ?b * 2147483648)
      = (?v + ?B * (unat l mod 2) + 2 * (?B * (unat l div 2 + ?b * 2147483648))) div 2"
    by simp
  also have "v + B * m + 2 * (B * (q + b * 2147483648)) = v + B * (m + 2 * q) + 4294967296 * B * b" for v B m q b :: nat
    by (simp add: algebra_simps)
  also have "unat l mod 2 + 2 * (unat l div 2) = unat l" by simp
  finally show ?case unfolding v by (simp add: nat_val_append algebra_simps)
qed

lemma shift_right_one_val [simp]: "nat_val (shift_right_one n) = nat_val n div 2"
  by (simp add: shift_right_one_def shift_right_loop_val)

lemma shift_right_one_ok [simp, ok_intros]: "nat_ok (shift_right_one n)"
  by (simp add: shift_right_one_def)

section \<open>Subtraction and comparison\<close>

lemma of_int_limb: "0 \<le> v \<Longrightarrow> v < 4294967296 \<Longrightarrow> int (unat (of_int v :: u32)) = v"
  by (simp add: unat_eq_nat_uint uint_word_of_int take_bit_int_eq_self_iff)

lemma subtract_loop_val:
  "borrow = 0 \<or> borrow = 1 \<Longrightarrow> int (nat_val other) + borrow \<le> int (nat_val ls) \<Longrightarrow>
    int (nat_val (subtract_loop ls other borrow)) = int (nat_val ls) - int (nat_val other) - borrow"
proof (induction ls other borrow rule: subtract_loop.induct)
  case (1 other borrow)
  then show ?case by auto
next
  case (2 l ls other b)
  define d where "d = (case other of [] \<Rightarrow> 0 | x # _ \<Rightarrow> int (unat x))"
  have d: "0 \<le> d" "d < 4294967296"
    using unat_u32_lt by (auto simp: d_def split: list.split)
  have o: "int (nat_val other) = d + 4294967296 * int (nat_val (tl other))"
    by (cases other) (simp_all add: d_def)
  let ?v = "int (unat l) - b - d"
  let ?b = "if ?v < 0 then 1 else 0 :: int"
  let ?w = "if ?v < 0 then ?v + 4294967296 else ?v"
  have l: "0 \<le> int (unat l)" "int (unat l) < 4294967296" using unat_u32_lt [of l] by simp_all
  have w: "?w = ?v + 4294967296 * ?b" "0 \<le> ?w" "?w < 4294967296" using l d 2(2) by auto
  have "int (nat_val (tl other)) + ?b \<le> int (nat_val ls)"
    using 2(3) w l d unfolding o by (simp split: if_splits)
  then have i: "int (nat_val (subtract_loop ls (tl other) ?b)) = int (nat_val ls) - int (nat_val (tl other)) - ?b"
    using 2(1) [OF refl refl refl] by (simp add: d_def)
  have "int (nat_val (subtract_loop (l # ls) other b)) =
      int (unat (of_int ?w :: u32)) + 4294967296 * int (nat_val (subtract_loop ls (tl other) ?b))"
    by (simp add: d_def Let_def)
  also have "\<dots> = ?w + 4294967296 * (int (nat_val ls) - int (nat_val (tl other)) - ?b)"
    unfolding i using of_int_limb [OF w(2,3)] by simp
  finally show ?case unfolding o w(1) by (simp add: algebra_simps)
qed

lemma subtract_val [simp]: "nat_val m \<le> nat_val n \<Longrightarrow> nat_val (subtract n m) = nat_val n - nat_val m"
  using subtract_loop_val [of 0 m n] by (simp add: subtract_def)

lemma subtract_ok [simp, ok_intros]: "nat_ok (subtract n m)"
  by (simp add: subtract_def)

lemma compare_limbs_val:
  "length xs = length ys \<Longrightarrow> compare_limbs xs ys = sgn (int (nat_val (rev xs)) - int (nat_val (rev ys)))"
proof (induction xs ys rule: compare_limbs.induct)
  case (1 x xs y ys)
  let ?B = "4294967296 ^ length xs :: nat"
  have b: "nat_val (rev xs) < ?B" "nat_val (rev ys) < ?B"
    using nat_val_less [of "rev xs"] nat_val_less [of "rev ys"] 1(2) by simp_all
  have step: "nat_val (rev us) + ?B * unat u < nat_val (rev vs) + ?B * unat v"
    if "u < v" "nat_val (rev us) < ?B" for us vs and u v :: u32
  proof -
    have "?B * (unat u + 1) \<le> ?B * unat v" using that(1) by (intro mult_le_mono2) (simp add: word_less_nat_alt)
    then show ?thesis using that(2) by simp
  qed
  have sgn: "a < c \<Longrightarrow> sgn (int a - int c) = - 1" "c < a \<Longrightarrow> sgn (int a - int c) = 1" for a c
    by simp_all
  show ?case
  proof (cases x y rule: linorder_cases)
    case equal
    then show ?thesis using 1 by (simp add: nat_val_append)
  next
    case less
    then show ?thesis
      using 1(2) less_imp_neq [OF less] sgn(1) [OF step [OF less b(1), of ys]] by (simp add: nat_val_append)
  next
    case greater
    then show ?thesis
      using 1(2) less_imp_neq [OF greater] sgn(2) [OF step [OF greater b(2), of xs]] by (simp add: nat_val_append)
  qed
qed simp_all

lemma compare_natural_val:
  assumes "nat_ok m" "nat_ok n"
  shows "compare_natural m n = sgn (int (nat_val m) - int (nat_val n))"
proof (cases "length m = length n")
  case True
  then show ?thesis by (simp add: compare_natural_def compare_limbs_val)
next
  case False
  have shorter: "nat_val u < nat_val v" if "length u < length v" "nat_ok v" for u v
  proof -
    have "nat_val u < 4294967296 ^ length u" by (rule nat_val_less)
    also have "\<dots> \<le> 4294967296 ^ (length v - 1)" using that by (intro power_increasing) simp_all
    also have "\<dots> \<le> nat_val v" using that by (intro nat_val_ge) auto
    finally show ?thesis .
  qed
  show ?thesis
    using False shorter [of m n] shorter [of n m] assms by (cases "length m < length n") (simp_all add: compare_natural_def)
qed

lemma compare_natural_iff [simp]:
  assumes "nat_ok m" "nat_ok n"
  shows "compare_natural m n < 0 \<longleftrightarrow> nat_val m < nat_val n"
    and "0 \<le> compare_natural m n \<longleftrightarrow> nat_val n \<le> nat_val m"
    and "0 < compare_natural m n \<longleftrightarrow> nat_val n < nat_val m"
    and "compare_natural m n = 0 \<longleftrightarrow> nat_val m = nat_val n"
  unfolding compare_natural_val [OF assms] by (auto simp: sgn_if)

section \<open>Bit length\<close>

lemma to_int_id: "- 2147483648 \<le> x \<Longrightarrow> x < 2147483648 \<Longrightarrow> to_int x = x"
  by (simp add: to_int_def mod_pos_pos_trivial)

lemma bit_width_val: "0 < n \<Longrightarrow> 2 ^ (bit_width n - 1) \<le> n \<and> n < 2 ^ bit_width n \<and> 0 < bit_width n"
proof (induction n rule: bit_width.induct)
  case (1 n)
  show ?case
  proof (cases "n = 1")
    case True
    then show ?thesis by (simp add: bit_width.simps)
  next
    case False
    then have h: "0 < n div 2" using 1(2) by simp
    then have i: "2 ^ (bit_width (n div 2) - 1) \<le> n div 2" "n div 2 < 2 ^ bit_width (n div 2)" "0 < bit_width (n div 2)"
      using 1 by auto
    have "bit_width n = Suc (bit_width (n div 2))" using 1(2) by (subst bit_width.simps) simp
    moreover have "(2 :: nat) ^ bit_width (n div 2) = 2 * 2 ^ (bit_width (n div 2) - 1)"
      using i(3) by (cases "bit_width (n div 2)") simp_all
    moreover have "P \<le> n div 2 \<Longrightarrow> n div 2 < 2 * P \<Longrightarrow> 2 * P \<le> n \<and> n < 4 * P" for P :: nat
      by linarith
    ultimately show ?thesis using i by simp
  qed
qed

lemma bit_length_val:
  assumes "nat_ok n" "n \<noteq> []" "length n \<le> 67108864"
  obtains k where "bit_length n = int k" "0 < k" "2 ^ (k - 1) \<le> nat_val n" "nat_val n < 2 ^ k"
proof -
  obtain xs l where n: "n = xs @ [l]" "l \<noteq> 0"
    using assms unfolding nat_ok_def by (metis append_butlast_last_id)
  then have "0 < unat l" by (simp add: unat_gt_0)
  note w = bit_width_val [OF this]
  let ?w = "bit_width (unat l)" and ?B = "4294967296 ^ length xs :: nat"
  let ?k = "32 * length xs + ?w"
  have B: "?B = 2 ^ (32 * length xs)" by (simp add: power_mult)
  have "bit_length n = int ?k"
    using assms(3) by (simp add: bit_length_def n to_int_id)
  moreover have "0 < ?k" using w by simp
  moreover have "2 ^ (?k - 1) \<le> nat_val n"
  proof -
    have "(2 :: nat) ^ (?k - 1) = ?B * 2 ^ (?w - 1)" using w by (simp add: B power_add [symmetric])
    also have "\<dots> \<le> ?B * unat l" using w by (intro mult_le_mono2) simp
    finally show ?thesis by (simp add: n nat_val_append)
  qed
  moreover have "nat_val n < 2 ^ ?k"
  proof -
    have "nat_val n < ?B * (unat l + 1)"
      using nat_val_less [of xs] by (simp add: n nat_val_append)
    also have "\<dots> \<le> ?B * 2 ^ ?w" using w by (intro mult_le_mono2) simp
    finally show ?thesis by (simp add: B power_add)
  qed
  ultimately show ?thesis by (rule that)
qed

end
