(* ===== verification/Ieee_Decimal.thy ===== *)
theory Ieee_Decimal
  imports Ieee_Natural
begin

text \<open>
  Decimal text to IEEE 754 binary formats (\<open>src/ieee_decimal.hpp\<close>), which the compiler's real
  literals and the runtime's real parsers share: reading the text, its significant digits, and the
  one rounding of the exact value. Exponents and scales are C++ 64-bit integers that stay far inside
  their range (the reader clamps the exponent), so they are \<open>int\<close> here; the conversions to a 32-bit
  \<open>int\<close> are written out. \<open>round\<close> itself, with its shortcut, is in Ieee_Fast.
\<close>

unbundle bit_operations_syntax

section \<open>Formats and decimals\<close>

record binary_format =
  precision :: nat
  min_exponent :: int
  max_exponent :: int
  width :: nat

definition binary16 :: binary_format where
  "binary16 = \<lparr>precision = 11, min_exponent = - 14, max_exponent = 15, width = 16\<rparr>"

definition bfloat16 :: binary_format where
  "bfloat16 = \<lparr>precision = 8, min_exponent = - 126, max_exponent = 127, width = 16\<rparr>"

definition binary32 :: binary_format where
  "binary32 = \<lparr>precision = 24, min_exponent = - 126, max_exponent = 127, width = 32\<rparr>"

definition binary64 :: binary_format where
  "binary64 = \<lparr>precision = 53, min_exponent = - 1022, max_exponent = 1023, width = 64\<rparr>"

record decimal =
  negative :: bool
  integer_digits :: string
  fraction_digits :: string
  exponent :: int

section \<open>Reading\<close>

text \<open>The text is consumed from the front; the code's index is what has been consumed.\<close>

definition take_sign :: "string \<Rightarrow> bool \<times> string" where
  "take_sign t =
    (case t of
       c # r \<Rightarrow> if c = CHR ''+'' \<or> c = CHR ''-'' then (c = CHR ''-'', r) else (False, t)
     | [] \<Rightarrow> (False, t))"

definition exponent_limit :: int where
  "exponent_limit = 1000000000000000"

fun exponent_loop :: "string \<Rightarrow> int \<Rightarrow> int \<times> string" where
  "exponent_loop [] e = (e, [])"
| "exponent_loop (c # t) e =
    (if is_digit c then exponent_loop t (if e < exponent_limit then e * 10 + int (digit_val c) else e)
     else (e, c # t))"

definition parse_exponent :: "string \<Rightarrow> (int \<times> string) option" where
  "parse_exponent t =
    (case t of
       c # r \<Rightarrow>
         if c = CHR ''e'' \<or> c = CHR ''E'' then
           (let (negative_exponent, r) = take_sign r
            in case r of
                 [] \<Rightarrow> None
               | d # _ \<Rightarrow>
                   if \<not> is_digit d then None
                   else let (e, r) = exponent_loop r 0 in Some (if negative_exponent then - e else e, r))
         else Some (0, t)
     | [] \<Rightarrow> Some (0, t))"

definition parse :: "string \<Rightarrow> decimal option" where
  "parse text =
    (let (neg, t) = take_sign text;
         integer = takeWhile is_digit t;
         t = dropWhile is_digit t;
         (fraction, t) =
           (case t of
              c # r \<Rightarrow> if c = CHR ''.'' then (takeWhile is_digit r, dropWhile is_digit r) else ([], t)
            | [] \<Rightarrow> ([], t))
     in if integer = [] \<and> fraction = [] then None
        else case parse_exponent t of
               None \<Rightarrow> None
             | Some (e, t) \<Rightarrow>
                 if t = []
                 then Some \<lparr>negative = neg, integer_digits = integer, fraction_digits = fraction, exponent = e\<rparr>
                 else None)"

section \<open>Significant digits\<close>

record sig_digits =
  sig_integer :: string
  sig_fraction :: string
  sig_count :: nat
  sig_exponent :: int

definition drop_zeros :: "string \<Rightarrow> string" where
  "drop_zeros ds = dropWhile (\<lambda>c. c = CHR ''0'') ds"

definition significant_digits :: "decimal \<Rightarrow> sig_digits" where
  "significant_digits d =
    (let integer = drop_zeros (integer_digits d);
         fraction = (if integer = [] then drop_zeros (fraction_digits d) else fraction_digits d);
         cut = strip_back (\<lambda>c. c = CHR ''0'') fraction;
         trailing = length fraction - length cut;
         fraction = cut;
         cut = (if fraction = [] then strip_back (\<lambda>c. c = CHR ''0'') integer else integer);
         trailing = trailing + (length integer - length cut);
         integer = cut
     in \<lparr>sig_integer = integer, sig_fraction = fraction, sig_count = length integer + length fraction,
          sig_exponent = exponent d - int (length (fraction_digits d)) + int trailing\<rparr>)"

section \<open>Encoding\<close>

definition encode :: "binary_format \<Rightarrow> bool \<Rightarrow> u64 \<Rightarrow> int \<Rightarrow> u64" where
  "encode format neg significand biased_exponent =
    (let fraction_bits = precision format - 1;
         sign = (if neg then push_bit (width format - 1) 1 else 0)
     in (sign OR push_bit fraction_bits (of_int biased_exponent))
          OR (significand AND (push_bit fraction_bits 1 - 1)))"

definition infinity_bits :: "binary_format \<Rightarrow> bool \<Rightarrow> u64" where
  "infinity_bits format neg = encode format neg 0 (2 * max_exponent format + 1)"

record rounded =
  r_bits :: u64
  r_overflow :: bool
  underflow_to_zero :: bool

section \<open>Rounding\<close>

fun append_digits :: "string \<Rightarrow> natural \<Rightarrow> natural" where
  "append_digits [] n = n"
| "append_digits (c # cs) n = append_digits cs (multiply_add n 10 (of_nat (digit_val c)))"

text \<open>The binary exponent of \<open>numerator / denominator * 2 ^ exponent2\<close>.\<close>

definition binary_exponent :: "natural \<Rightarrow> natural \<Rightarrow> int \<Rightarrow> int" where
  "binary_exponent numerator denominator exponent2 =
    (let e = bit_length numerator - bit_length denominator + exponent2;
         shift = e - exponent2;
         left = (if 0 \<le> shift then numerator else shift_left numerator (nat (to_int (- shift))));
         right = (if 0 \<le> shift then shift_left denominator (nat (to_int shift)) else denominator)
     in if compare_natural left right < 0 then e - 1 else e)"

text \<open>The bits of the quotient, from the given number of them down to bit 0.\<close>

fun quotient_loop :: "nat \<Rightarrow> natural \<Rightarrow> natural \<Rightarrow> u64 \<Rightarrow> u64 \<times> natural" where
  "quotient_loop 0 remainder step q = (q, remainder)"
| "quotient_loop (Suc b) remainder step q =
    (if 0 \<le> compare_natural remainder step
     then quotient_loop b (subtract remainder step) (shift_right_one step) (q OR push_bit b 1)
     else quotient_loop b remainder (shift_right_one step) q)"

text \<open>The significand and its rounding: \<open>q\<close> is the value over \<open>2 ^ scale\<close>, to nearest and ties to even.\<close>

definition rounded_significand :: "binary_format \<Rightarrow> natural \<Rightarrow> natural \<Rightarrow> int \<Rightarrow> u64" where
  "rounded_significand format numerator denominator shift =
    (let remainder = (if 0 \<le> shift then shift_left numerator (nat (to_int shift)) else numerator);
         divisor = (if 0 \<le> shift then denominator else shift_left denominator (nat (to_int (- shift))));
         step = shift_left divisor (precision format);
         (q, remainder) = quotient_loop (Suc (precision format)) remainder step 0;
         half = compare_natural (shift_left remainder 1) divisor
     in if 0 < half \<or> half = 0 \<and> q AND 1 \<noteq> 0 then q + 1 else q)"

text \<open>The result of a significand below \<open>2 ^ precision\<close> whose first bit has the exponent \<open>leading\<close>.\<close>

definition pack_significand :: "binary_format \<Rightarrow> bool \<Rightarrow> u64 \<Rightarrow> int \<Rightarrow> rounded" where
  "pack_significand format neg q leading =
    (if q = 0 then \<lparr>r_bits = encode format neg 0 0, r_overflow = False, underflow_to_zero = True\<rparr>
     else if q < push_bit (precision format - 1) 1
     then \<lparr>r_bits = encode format neg q 0, r_overflow = False, underflow_to_zero = False\<rparr>
     else if max_exponent format < leading
     then \<lparr>r_bits = infinity_bits format neg, r_overflow = True, underflow_to_zero = False\<rparr>
     else \<lparr>r_bits = encode format neg q (to_int (leading + max_exponent format)),
            r_overflow = False, underflow_to_zero = False\<rparr>)"

text \<open>The result of a rounded significand, whose rounding may have carried into one more bit.\<close>

definition finish_rounding :: "binary_format \<Rightarrow> bool \<Rightarrow> u64 \<Rightarrow> int \<Rightarrow> rounded" where
  "finish_rounding format neg q scale =
    (let leading = scale + int (precision format) - 1
     in if q = push_bit (precision format) 1 then pack_significand format neg (drop_bit 1 q) (leading + 1)
        else pack_significand format neg q leading)"

definition round_exact :: "binary_format \<Rightarrow> bool \<Rightarrow> sig_digits \<Rightarrow> rounded" where
  "round_exact format neg digits =
    (if sig_count digits = 0
     then \<lparr>r_bits = encode format neg 0 0, r_overflow = False, underflow_to_zero = False\<rparr>
     else let magnitude = sig_exponent digits + int (sig_count digits)
     in if 310 < magnitude
     then \<lparr>r_bits = infinity_bits format neg, r_overflow = True, underflow_to_zero = False\<rparr>
     else if magnitude < - 330
     then \<lparr>r_bits = encode format neg 0 0, r_overflow = False, underflow_to_zero = True\<rparr>
     else
       let numerator = append_digits (sig_fraction digits) (append_digits (sig_integer digits) []);
           numerator = (if 0 \<le> sig_exponent digits
             then multiply_power_of_five numerator (nat (sig_exponent digits)) else numerator);
           denominator = (if 0 \<le> sig_exponent digits then natural_of 1
             else multiply_power_of_five (natural_of 1) (nat (- sig_exponent digits)));
           exponent2 = sig_exponent digits;
           e = binary_exponent numerator denominator exponent2;
           scale = max e (min_exponent format) - (int (precision format) - 1);
           q = rounded_significand format numerator denominator (exponent2 - scale)
       in finish_rounding format neg q scale)"

text \<open>The value of an encoding, exactly (\<open>binary64_value\<close>).\<close>

definition binary64_value :: "rounded \<Rightarrow> binary_format \<Rightarrow> real" where
  "binary64_value r format =
    (let fraction_bits = precision format - 1;
         biased = unat (drop_bit fraction_bits (r_bits r) AND (push_bit (width format - 1 - fraction_bits) 1 - 1));
         significand = r_bits r AND (push_bit fraction_bits 1 - 1);
         significand = (if biased \<noteq> 0 then significand OR push_bit fraction_bits 1 else significand);
         exponent = int (if biased \<noteq> 0 then biased else 1) - max_exponent format - int fraction_bits;
         magnitude = real (unat significand) * 2 powi exponent
     in if drop_bit (width format - 1) (r_bits r) AND 1 \<noteq> 0 then - magnitude else magnitude)"

end
