(* ===== verification/Ieee_Rounding.thy ===== *)
theory Ieee_Rounding
  imports Ieee_Decimal
begin

text \<open>
  The rounding of \<open>Ieee_Decimal\<close> is correct: the encoding it returns is the value of the format
  nearest to the exact decimal value, the even one of two equally near, and it reports overflow
  exactly from half a unit above the largest finite value on. \<open>representable\<close> is the format's set
  of values with its exponent unbounded above.
\<close>

section \<open>The nearest value of a format\<close>

definition representable :: "binary_format \<Rightarrow> real \<Rightarrow> bool" where
  "representable f y \<longleftrightarrow> (\<exists>m s. y = real_of_int m * 2 powi s \<and> \<bar>m\<bar> < 2 ^ precision f
     \<and> min_exponent f - (int (precision f) - 1) \<le> s)"

text \<open>Formats of the IEEE interchange shape, up to binary64.\<close>

definition format_ok :: "binary_format \<Rightarrow> bool" where
  "format_ok f \<longleftrightarrow> 2 \<le> precision f \<and> precision f \<le> 53 \<and> precision f + 2 \<le> width f \<and> width f \<le> 64
     \<and> max_exponent f = 2 ^ (width f - precision f - 1) - 1 \<and> max_exponent f \<le> 1023
     \<and> min_exponent f = 1 - max_exponent f"

lemma formats_ok: "format_ok binary16" "format_ok bfloat16" "format_ok binary32" "format_ok binary64"
  by (simp_all add: format_ok_def binary16_def bfloat16_def binary32_def binary64_def)

lemma powi_add: "(2 :: real) powi (a + b) = 2 powi a * 2 powi b"
  by (simp add: power_int_add)

lemma powi_le: "a \<le> b \<Longrightarrow> (2 :: real) powi a \<le> 2 powi b"
  by (simp add: power_int_increasing)

lemma powi_nat: "0 \<le> a \<Longrightarrow> (2 :: real) powi a = 2 ^ nat a"
  by (simp add: power_int_def)

text \<open>A rounded integer quotient.\<close>

definition nearest_even :: "nat \<Rightarrow> real \<Rightarrow> bool" where
  "nearest_even q t \<longleftrightarrow> \<bar>t - real q\<bar> \<le> 1 / 2 \<and> (\<bar>t - real q\<bar> = 1 / 2 \<longrightarrow> even q)"

lemma nearest_even_int:
  assumes "nearest_even q t"
  shows "\<bar>t - real q\<bar> \<le> \<bar>t - real_of_int k\<bar>"
    and "\<bar>t - real q\<bar> = \<bar>t - real_of_int k\<bar> \<Longrightarrow> k \<noteq> int q \<Longrightarrow> even q"
proof -
  have far: "1 / 2 \<le> \<bar>t - real_of_int k\<bar>" if "k \<noteq> int q"
  proof -
    have "1 \<le> \<bar>real_of_int k - real q\<bar>" using that by linarith
    moreover have "\<bar>t - real q\<bar> \<le> 1 / 2" using assms by (simp add: nearest_even_def)
    ultimately show ?thesis by linarith
  qed
  show "\<bar>t - real q\<bar> \<le> \<bar>t - real_of_int k\<bar>"
    using far assms by (cases "k = int q") (auto simp: nearest_even_def)
  show "even q" if "\<bar>t - real q\<bar> = \<bar>t - real_of_int k\<bar>" "k \<noteq> int q"
    using far [OF that(2)] that(1) assms by (auto simp: nearest_even_def)
qed

lemma nearest_even_div:
  assumes "0 < D"
  shows "nearest_even (R div D + (if D < 2 * (R mod D) \<or> 2 * (R mod D) = D \<and> odd (R div D) then 1 else 0))
    (real R / real D)"
proof -
  define q r where "q = R div D" and "r = R mod D"
  have "real R = real D * real q + real r" unfolding q_def r_def by (simp flip: of_nat_mult of_nat_add)
  then have t: "real R / real D = real q + real r / real D" using assms by (simp add: field_simps)
  have r: "real r < real D" using assms by (simp add: r_def)
  consider "2 * r < D" | "D < 2 * r" | "2 * r = D" by linarith
  then show ?thesis
  proof cases
    case 1
    then have "real r / real D < 1 / 2" "0 \<le> real r / real D" using assms by (simp_all add: field_simps)
    then show ?thesis unfolding nearest_even_def t using 1 by (simp flip: q_def r_def)
  next
    case 2
    then have "1 / 2 < real r / real D" "real r / real D < 1" using assms r by (simp_all add: field_simps)
    then show ?thesis unfolding nearest_even_def t using 2 by (simp flip: q_def r_def)
  next
    case 3
    then have "real r / real D = 1 / 2" using assms by (simp add: field_simps)
    then show ?thesis unfolding nearest_even_def t using 3 by (auto simp flip: q_def r_def)
  qed
qed

text \<open>Rounding on the grid of the value's binade is rounding to the format.\<close>

lemma grid_nearest:
  assumes f: "2 \<le> precision f"
    and e: "2 powi e \<le> V" "V < 2 powi (e + 1)"
    and scale: "scale = max e (min_exponent f) - (int (precision f) - 1)"
    and q: "nearest_even q (V / 2 powi scale)"
    and y: "representable f y"
  shows "\<bar>V - real q * 2 powi scale\<bar> \<le> \<bar>V - y\<bar>"
    and "\<bar>V - real q * 2 powi scale\<bar> = \<bar>V - y\<bar> \<Longrightarrow> y \<noteq> real q * 2 powi scale \<Longrightarrow> even q"
proof -
  let ?S = "2 powi scale :: real" and ?t = "V / 2 powi scale"
  have S: "0 < ?S" by simp
  have dist: "\<bar>V - x * ?S\<bar> = ?S * \<bar>?t - x\<bar>" for x
  proof -
    have "V - x * ?S = ?S * (?t - x)" using S by (simp add: field_simps)
    then show ?thesis using S by (simp add: abs_mult)
  qed
  obtain m s where m: "y = real_of_int m * 2 powi s" "\<bar>m\<bar> < 2 ^ precision f"
      "min_exponent f - (int (precision f) - 1) \<le> s"
    using y unfolding representable_def by blast
  have "\<bar>V - real q * ?S\<bar> \<le> \<bar>V - y\<bar> \<and> (\<bar>V - real q * ?S\<bar> = \<bar>V - y\<bar> \<and> y \<noteq> real q * ?S \<longrightarrow> even q)"
  proof (cases "scale \<le> s")
    case True
    define k where "k = m * 2 ^ nat (s - scale)"
    have "2 powi s = 2 powi (s - scale) * ?S" by (simp flip: powi_add)
    then have yk: "y = real_of_int k * ?S" using True by (simp add: m(1) k_def powi_nat)
    show ?thesis
      using nearest_even_int [OF q, of k] S unfolding yk dist by auto
  next
    case False
    then have sc: "scale = e - (int (precision f) - 1)" using m(3) scale by auto
    have "y \<le> \<bar>real_of_int m\<bar> * 2 powi s" unfolding m(1) by (intro mult_right_mono) auto
    also have "\<dots> < 2 ^ precision f * 2 powi s"
    proof -
      have "real_of_int \<bar>m\<bar> < real_of_int (2 ^ precision f)" using m(2) by (simp only: of_int_less_iff)
      then show ?thesis by simp
    qed
    also have "\<dots> = 2 powi (int (precision f) + s)" by (simp add: powi_add)
    also have "\<dots> \<le> 2 powi e" using False sc by (intro powi_le) simp
    finally have y: "y < 2 powi e" .
    define k where "k = (2 :: int) ^ (precision f - 1)"
    have "2 powi e = 2 powi (int (precision f - 1)) * ?S"
      using f by (simp add: sc of_nat_diff flip: powi_add)
    then have "2 powi e = real_of_int k * ?S" by (simp add: k_def)
    then have "\<bar>V - real q * ?S\<bar> \<le> \<bar>V - 2 powi e\<bar>"
      using nearest_even_int(1) [OF q, of k] S by (simp add: dist)
    then show ?thesis using y e(1) by linarith
  qed
  then show "\<bar>V - real q * ?S\<bar> \<le> \<bar>V - y\<bar>"
    and "\<bar>V - real q * ?S\<bar> = \<bar>V - y\<bar> \<Longrightarrow> y \<noteq> real q * ?S \<Longrightarrow> even q" by auto
qed

lemma grid_representable:
  assumes f: "2 \<le> precision f" and scale: "min_exponent f - (int (precision f) - 1) \<le> scale"
    and q: "q \<le> 2 ^ precision f"
  shows "representable f (real q * 2 powi scale)"
proof (cases "q = 2 ^ precision f")
  case True
  obtain k where k: "precision f = Suc k" using f by (cases "precision f") auto
  have "real q * 2 powi scale = real_of_int (2 ^ k) * 2 powi (scale + 1)"
    unfolding True by (simp add: k powi_add)
  moreover have "\<bar>(2 :: int) ^ k\<bar> < 2 ^ precision f" by (simp add: k)
  moreover have "min_exponent f - (int (precision f) - 1) \<le> scale + 1" using scale by simp
  ultimately show ?thesis unfolding representable_def by blast
next
  case False
  then have "int q < int (2 ^ precision f)" using q by (simp only: of_nat_less_iff)
  then have "\<bar>int q\<bar> < 2 ^ precision f" by simp
  with scale show ?thesis
    unfolding representable_def by (intro exI [of _ "int q"] exI [of _ scale]) simp
qed

section \<open>The integer computation\<close>

lemma or_disjoint_val:
  assumes "unat (a :: u64) mod 2 ^ k = 0" "unat c < 2 ^ k"
  shows "unat (a OR c) = unat a + unat c"
proof -
  have c: "take_bit k (unat c) = unat c" using assms(2) by (simp add: take_bit_nat_eq_self_iff)
  have a: "take_bit k (unat a) = 0" using assms(1) by (simp add: take_bit_eq_mod)
  have "\<not> bit (unat a) i \<or> \<not> bit (unat c) i" for i
  proof (cases "i < k")
    case True
    then show ?thesis using a by (metis bit_take_bit_iff bit_0_eq bot_apply bot_bool_def)
  next
    case False
    then show ?thesis using c by (metis bit_take_bit_iff)
  qed
  then have "unat a OR unat c = unat a + unat c"
    by (intro disjunctive_add [symmetric]) auto
  then show ?thesis by (simp add: unsigned_or_eq)
qed

lemma push_one_val: "k < 64 \<Longrightarrow> unat (push_bit k 1 :: u64) = 2 ^ k"
proof -
  assume "k < 64"
  then have "(2 :: nat) ^ k < 2 ^ 64" by (rule power_strict_increasing) simp
  then show ?thesis
    unfolding unsigned_push_bit_eq by (simp add: push_bit_eq_mult take_bit_eq_mod)
qed

lemma append_digits_val:
  "\<forall>c\<in>set ds. is_digit c \<Longrightarrow> nat_val (append_digits ds n) = nat_val n * 10 ^ length ds + digits_val ds"
proof (induction ds n rule: append_digits.induct)
  case (2 c cs n)
  then have "unat (of_nat (digit_val c) :: u32) = digit_val c"
    using digit_val_less [of c] by (intro unat_of_nat_u32) simp
  then have "nat_val (multiply_add n 10 (of_nat (digit_val c))) = nat_val n * 10 + digit_val c" by simp
  moreover have "nat_val (append_digits cs m) = nat_val m * 10 ^ length cs + digits_val cs"
    if "m = multiply_add n 10 (of_nat (digit_val c))" for m
    using 2 that by simp
  ultimately show ?case by (simp add: digits_val_Cons algebra_simps)
qed simp

lemma append_digits_ok [simp, ok_intros]: "nat_ok n \<Longrightarrow> nat_ok (append_digits ds n)"
  by (induction ds n rule: append_digits.induct) simp_all

text \<open>Long division: every bit of the quotient in turn.\<close>

lemma quotient_loop_val:
  assumes "nat_ok r" "nat_ok s" "nat_val s * 2 = D * 2 ^ b" "0 < D" "nat_val r < D * 2 ^ b" "b \<le> 64"
    "unat q mod 2 ^ b = 0" "quotient_loop b r s q = (q', r')"
  shows "unat q' = unat q + nat_val r div D \<and> nat_val r' = nat_val r mod D \<and> nat_ok r'"
  using assms
proof (induction b r s q rule: quotient_loop.induct)
  case (1 r s q)
  then show ?case by simp
next
  case (2 b r s q)
  have s: "nat_val s = D * 2 ^ b" using 2(5) by simp
  have s2: "nat_val (shift_right_one s) * 2 = D * 2 ^ b" if "0 < b"
    using that s by (cases b) simp_all
  have "2 ^ Suc b dvd unat q" using 2(9) by (simp only: dvd_eq_mod_eq_0)
  then have "2 ^ b dvd unat q" by (rule dvd_trans [rotated]) simp
  then have q0: "unat q mod 2 ^ b = 0" by (simp only: dvd_eq_mod_eq_0)
  show ?case
  proof (cases "nat_val s \<le> nat_val r")
    case ge: True
    let ?q = "q OR push_bit b 1"
    have q: "unat ?q = unat q + 2 ^ b"
      using or_disjoint_val [of q "Suc b" "push_bit b 1"] push_one_val [of b] 2(8,9) by simp
    have "nat_val r = nat_val (subtract r s) + 2 ^ b * D" using ge s by simp
    then have dm: "nat_val r div D = nat_val (subtract r s) div D + 2 ^ b" "nat_val r mod D = nat_val (subtract r s) mod D"
      using 2(6) by simp_all
    have step: "quotient_loop b (subtract r s) (shift_right_one s) ?q = (q', r')"
      using 2(10) ge 2(3,4) by simp
    show ?thesis
    proof (cases "b = 0")
      case True
      then have "nat_val (subtract r s) < D" using ge s 2(7) by simp
      then show ?thesis using True step q dm by auto
    next
      case False
      have "unat q' = unat ?q + nat_val (subtract r s) div D \<and> nat_val r' = nat_val (subtract r s) mod D \<and> nat_ok r'"
        using 2(3,4,7,8) ge s q q0 s2 False step
        by (intro 2(1)) (simp_all add: 2(6))
      then show ?thesis using q dm by simp
    qed
  next
    case False
    then have step: "quotient_loop b r (shift_right_one s) q = (q', r')"
      using 2(10) 2(3,4) by simp
    show ?thesis
    proof (cases "b = 0")
      case True
      then show ?thesis using step False s 2(3) by auto
    next
      case b: False
      show ?thesis
        using 2(3,4,8) False s q0 s2 b step by (intro 2(2)) (simp_all add: 2(6))
    qed
  qed
qed

text \<open>The rounded significand of an exact quotient.\<close>

lemma unat_and_one: "q AND 1 \<noteq> 0 \<longleftrightarrow> odd (unat q)" for q :: u64
proof -
  have "unat (q AND 1) = unat q mod 2" unfolding unsigned_and_eq by (simp add: and_one_eq)
  then show ?thesis by (metis unat_eq_0 odd_iff_mod_2_eq_one even_iff_mod_2_eq_zero)
qed

lemma rounded_significand_val:
  fixes shift :: int
  assumes ok: "nat_ok N" "nat_ok D" "0 < nat_val D" and p: "precision f \<le> 62"
    and shift: "- 2147483648 < shift" "shift < 2147483648"
    and t: "t = real (nat_val N) / real (nat_val D) * 2 powi shift" "t < 2 ^ precision f"
  shows "nearest_even (unat (rounded_significand f N D shift)) t
    \<and> unat (rounded_significand f N D shift) \<le> 2 ^ precision f"
proof -
  let ?r = "if 0 \<le> shift then shift_left N (nat shift) else N"
  let ?d = "if 0 \<le> shift then D else shift_left D (nat (- shift))"
  have ints: "to_int shift = shift" "to_int (- shift) = - shift" using shift by (simp_all add: to_int_id)
  have okrd: "nat_ok ?r" "nat_ok ?d" "0 < nat_val ?d" using ok by simp_all
  have t': "t = real (nat_val ?r) / real (nat_val ?d)"
    unfolding t(1) using ok(3) by (simp add: power_int_def field_simps)
  have "real (nat_val ?r) < real (nat_val ?d) * 2 ^ precision f"
    using t(2) okrd(3) unfolding t' by (simp add: field_simps)
  then have "real (nat_val ?r) < real (nat_val ?d * 2 ^ precision f)" by simp
  then have small: "nat_val ?r < nat_val ?d * 2 ^ precision f" by (simp only: of_nat_less_iff)
  obtain q r where qr: "quotient_loop (Suc (precision f)) ?r (shift_left ?d (precision f)) 0 = (q, r)"
    by fastforce
  have "unat q = unat (0 :: u64) + nat_val ?r div nat_val ?d \<and> nat_val r = nat_val ?r mod nat_val ?d \<and> nat_ok r"
    using okrd small p by (intro quotient_loop_val [OF _ _ _ _ _ _ _ qr]) simp_all
  then have q: "unat q = nat_val ?r div nat_val ?d" and r: "nat_val r = nat_val ?r mod nat_val ?d" "nat_ok r" by auto
  have "nat_val ?r div nat_val ?d < 2 ^ precision f"
    using small by (simp add: less_mult_imp_div_less mult.commute)
  then have q_less: "unat q < 2 ^ precision f" by (simp add: q)
  have "(2 :: nat) ^ precision f \<le> 2 ^ 62" using p by (intro power_increasing) simp_all
  then have inc: "unat (q + 1) = unat q + 1"
    using unat_add_small [of q 1] q_less by simp
  have half: "0 < compare_natural (shift_left r 1) ?d \<longleftrightarrow> nat_val ?d < 2 * (nat_val ?r mod nat_val ?d)"
    "compare_natural (shift_left r 1) ?d = 0 \<longleftrightarrow> 2 * (nat_val ?r mod nat_val ?d) = nat_val ?d"
    using r okrd(2) by (simp_all add: mult.commute)
  have "rounded_significand f N D shift =
      (if nat_val ?d < 2 * (nat_val ?r mod nat_val ?d)
        \<or> 2 * (nat_val ?r mod nat_val ?d) = nat_val ?d \<and> odd (nat_val ?r div nat_val ?d) then q + 1 else q)"
    unfolding rounded_significand_def ints Let_def qr prod.case half unat_and_one q ..
  then have "unat (rounded_significand f N D shift) = nat_val ?r div nat_val ?d
      + (if nat_val ?d < 2 * (nat_val ?r mod nat_val ?d)
        \<or> 2 * (nat_val ?r mod nat_val ?d) = nat_val ?d \<and> odd (nat_val ?r div nat_val ?d) then 1 else 0)"
    by (simp only: inc q if_distrib [of unat] add_0_right split: if_split) simp
  then show ?thesis
    using nearest_even_div [OF okrd(3), of "nat_val ?r"] q_less unfolding t' q by simp
qed

text \<open>The binary exponent of a quotient.\<close>

lemma binary_exponent_val:
  assumes ok: "nat_ok N" "nat_ok D" "0 < nat_val N" "0 < nat_val D"
    and len: "length N \<le> 67108864" "length D \<le> 67108864"
    and V: "V = real (nat_val N) / real (nat_val D) * 2 powi x"
  shows "2 powi binary_exponent N D x \<le> V \<and> V < 2 powi (binary_exponent N D x + 1)"
proof -
  have small: "k \<le> 2147483648" if "2 ^ (k - 1) \<le> nat_val n" "length n \<le> 67108864" for k n
  proof -
    have "(2 :: nat) ^ (k - 1) < 4294967296 ^ length n" using that(1) nat_val_less [of n] by simp
    also have "\<dots> = 2 ^ (32 * length n)" by (simp add: power_mult)
    finally have "k - 1 < 32 * length n" by (rule power_less_imp_less_exp [rotated]) simp
    then show ?thesis using that(2) by simp
  qed
  have ne: "N \<noteq> []" "D \<noteq> []" using ok by auto
  obtain a where a: "bit_length N = int a" "0 < a" "2 ^ (a - 1) \<le> nat_val N" "nat_val N < 2 ^ a"
    using bit_length_val [OF ok(1) ne(1) len(1)] .
  obtain b where b: "bit_length D = int b" "0 < b" "2 ^ (b - 1) \<le> nat_val D" "nat_val D < 2 ^ b"
    using bit_length_val [OF ok(2) ne(2) len(2)] .
  define sh where "sh = int a - int b"
  have ints: "to_int sh = sh" "to_int (- sh) = - sh"
    using small [OF a(3) len(1)] small [OF b(3) len(2)] a(2) b(2) by (simp_all add: to_int_id sh_def)
  let ?Q = "real (nat_val N) / real (nat_val D)"
  let ?l = "if 0 \<le> sh then N else shift_left N (nat (- sh))"
  let ?r = "if 0 \<le> sh then shift_left D (nat sh) else D"
  have "compare_natural ?l ?r < 0 \<longleftrightarrow> nat_val ?l < nat_val ?r" using ok by simp
  also have "\<dots> \<longleftrightarrow> real (nat_val ?l) < real (nat_val ?r)" by (simp only: of_nat_less_iff)
  also have "real (nat_val ?l) = real (nat_val N) * (if 0 \<le> sh then 1 else 2 ^ nat (- sh))" by simp
  also have "real (nat_val ?r) = real (nat_val D) * (if 0 \<le> sh then 2 ^ nat sh else 1)" by simp
  also have "real (nat_val N) * (if 0 \<le> sh then 1 else 2 ^ nat (- sh))
      < real (nat_val D) * (if 0 \<le> sh then 2 ^ nat sh else 1) \<longleftrightarrow> ?Q < 2 powi sh"
    using ok(4) by (auto simp: power_int_def field_simps)
  finally have cmp: "compare_natural ?l ?r < 0 \<longleftrightarrow> ?Q < 2 powi sh" .
  have e: "binary_exponent N D x = (if ?Q < 2 powi sh then sh + x - 1 else sh + x)"
    unfolding binary_exponent_def Let_def a(1) b(1) sh_def [symmetric] add_diff_cancel_right' ints cmp by simp
  have N: "2 powi (int a - 1) \<le> real (nat_val N)" "real (nat_val N) < 2 powi int a"
  proof -
    have "real (2 ^ (a - 1)) \<le> real (nat_val N)" using a(3) by (simp only: of_nat_le_iff)
    then show "2 powi (int a - 1) \<le> real (nat_val N)" using a(2) by (simp add: powi_nat nat_diff_distrib)
    have "real (nat_val N) < real (2 ^ a)" using a(4) by (simp only: of_nat_less_iff)
    then show "real (nat_val N) < 2 powi int a" by simp
  qed
  have D: "2 powi (int b - 1) \<le> real (nat_val D)" "real (nat_val D) < 2 powi int b"
  proof -
    have "real (2 ^ (b - 1)) \<le> real (nat_val D)" using b(3) by (simp only: of_nat_le_iff)
    then show "2 powi (int b - 1) \<le> real (nat_val D)" using b(2) by (simp add: powi_nat nat_diff_distrib)
    have "real (nat_val D) < real (2 ^ b)" using b(4) by (simp only: of_nat_less_iff)
    then show "real (nat_val D) < 2 powi int b" by simp
  qed
  have hi: "?Q < 2 powi (sh + 1)"
  proof -
    note N(2)
    also have "2 powi int a = 2 powi (sh + 1) * (2 powi (int b - 1) :: real)" by (simp add: sh_def flip: powi_add)
    also have "\<dots> \<le> 2 powi (sh + 1) * real (nat_val D)" using D(1) by (intro mult_left_mono) simp_all
    finally show ?thesis using ok(4) by (simp only: pos_divide_less_eq of_nat_0_less_iff)
  qed
  have lo: "2 powi (sh - 1) \<le> ?Q"
  proof -
    have "2 powi (sh - 1) * real (nat_val D) \<le> 2 powi (sh - 1) * 2 powi int b"
      using D(2) by (intro mult_left_mono) simp_all
    also have "\<dots> = 2 powi (int a - 1)" unfolding powi_add [symmetric] by (simp add: sh_def)
    also note N(1)
    finally show ?thesis using ok(4) by (simp only: pos_le_divide_eq of_nat_0_less_iff)
  qed
  have V': "V = ?Q * 2 powi x" by (rule V)
  have scale_lo: "2 powi (c + x) \<le> V" if "2 powi c \<le> ?Q" for c
    unfolding V' powi_add using that by (intro mult_right_mono) simp_all
  have scale_hi: "V < 2 powi (c + x)" if "?Q < 2 powi c" for c
    unfolding V' powi_add using that by (intro mult_strict_right_mono) simp_all
  show ?thesis
  proof (cases "?Q < 2 powi sh")
    case True
    then show ?thesis using scale_lo [OF lo] scale_hi [OF True] by (simp add: e algebra_simps)
  next
    case False
    then show ?thesis using scale_lo [of sh] scale_hi [OF hi] by (simp add: e algebra_simps)
  qed
qed

section \<open>Encodings\<close>

lemma mask_val: "k < 64 \<Longrightarrow> unat (v AND (push_bit k 1 - 1) :: u64) = unat v mod 2 ^ k"
proof -
  assume "k < 64"
  have "push_bit k 1 - 1 = (mask k :: u64)" by (simp add: mask_eq_exp_minus_1 push_bit_eq_mult)
  then have "v AND (push_bit k 1 - 1) = take_bit k v" by (simp only: take_bit_eq_mask)
  then have "unat (v AND (push_bit k 1 - 1)) = unat (take_bit k v)" by (rule arg_cong)
  then show ?thesis unfolding unsigned_take_bit_eq by (simp only: take_bit_eq_mod)
qed

lemma drop_val: "unat (drop_bit k v :: u64) = unat v div 2 ^ k"
proof -
  have "take_bit 64 (unat v) = unat v"
    using unat_u64_lt [of v] by (simp add: take_bit_nat_eq_self_iff)
  then have "unat (drop_bit k v) = drop_bit k (unat v)"
    by (simp only: unsigned_drop_bit_eq len_bit0 len_num1 mult_2 mult_1_right) simp
  then show ?thesis by (simp add: drop_bit_eq_div)
qed

lemma encode_val:
  assumes f: "format_ok f" and b: "0 \<le> b" "b < 2 ^ (width f - precision f)"
  shows "unat (encode f neg q b) =
    (if neg then 1 else 0) * 2 ^ (width f - 1) + nat b * 2 ^ (precision f - 1) + unat q mod 2 ^ (precision f - 1)"
proof -
  let ?p = "precision f - 1" and ?w = "width f - 1"
  have w: "?w = (width f - precision f) + ?p" "?w < 64" "?p < 64" using f by (auto simp: format_ok_def)
  have nb: "nat b < 2 ^ (width f - precision f)" using b by (simp add: nat_less_iff)
  have le: "(2 :: nat) ^ (width f - precision f) \<le> 2 ^ 62" using f by (intro power_increasing) (auto simp: format_ok_def)
  have of: "unat (of_int b :: u64) = nat b"
  proof -
    have "(of_int b :: u64) = of_nat (nat b)" using b(1) by simp
    moreover have "nat b < 18446744073709551616" using less_le_trans [OF nb le] by simp
    ultimately show ?thesis by (simp only: unat_of_nat_u64)
  qed
  have m: "unat (q AND (push_bit ?p 1 - 1)) = unat q mod 2 ^ ?p" using w(3) by (rule mask_val)
  have "nat b * 2 ^ ?p < 2 ^ (width f - precision f) * 2 ^ ?p" using nb by simp
  then have bp: "nat b * 2 ^ ?p < 2 ^ ?w" by (simp only: w(1) power_add)
  have "(2 :: nat) ^ ?w \<le> 2 ^ 63" using w(2) by (intro power_increasing) simp_all
  then have p: "unat (push_bit ?p (of_int b) :: u64) = nat b * 2 ^ ?p"
    unfolding unsigned_push_bit_eq of using bp by (simp add: push_bit_eq_mult take_bit_nat_eq_self_iff)
  let ?s = "if neg then push_bit ?w 1 else 0 :: u64"
  have s: "unat ?s = (if neg then 1 else 0) * 2 ^ ?w" using push_one_val [of ?w] w(2) by simp
  have "unat (?s OR push_bit ?p (of_int b)) = unat ?s + nat b * 2 ^ ?p"
    using or_disjoint_val [of ?s ?w "push_bit ?p (of_int b)"] bp s unfolding p by simp
  moreover have "2 ^ ?p dvd unat ?s + nat b * 2 ^ ?p"
    unfolding s unfolding w(1) power_add by (intro dvd_add dvd_mult) simp_all
  then have "(unat ?s + nat b * 2 ^ ?p) mod 2 ^ ?p = 0" by (simp only: dvd_eq_mod_eq_0)
  moreover have "unat q mod 2 ^ ?p < 2 ^ ?p" by simp
  moreover have "unat ((?s OR push_bit ?p (of_int b)) OR (q AND (push_bit ?p 1 - 1)))
      = unat (?s OR push_bit ?p (of_int b)) + unat (q AND (push_bit ?p 1 - 1))"
    using calculation unfolding m [symmetric] by (intro or_disjoint_val) simp_all
  ultimately show ?thesis unfolding encode_def Let_def m s by simp
qed

text \<open>The fields of an encoding, and its value.\<close>

lemma fields_val:
  assumes bits: "bits = s * 2 ^ (k + j) + b * 2 ^ k + m" and b: "b < 2 ^ j" and m: "m < (2 :: nat) ^ k"
  shows "bits mod 2 ^ k = m" "bits div 2 ^ k mod 2 ^ j = b" "bits div 2 ^ (k + j) = s"
proof -
  have bits': "bits = m + 2 ^ k * (b + 2 ^ j * s)" unfolding bits by (simp add: power_add algebra_simps)
  have d: "bits div 2 ^ k = b + 2 ^ j * s" using m unfolding bits' by simp
  show "bits mod 2 ^ k = m" using m unfolding bits' by simp
  show "bits div 2 ^ k mod 2 ^ j = b" using b unfolding d by simp
  show "bits div 2 ^ (k + j) = s" using b unfolding power_add div_mult2_eq d by simp
qed

lemma encoded_value:
  assumes f: "format_ok f" and r: "r_bits r = encode f neg q b" and b: "0 \<le> b" "b < 2 ^ (width f - precision f)"
    and q: "unat q < (if b = 0 then 2 ^ (precision f - 1) else 2 ^ precision f)"
    "b \<noteq> 0 \<longrightarrow> 2 ^ (precision f - 1) \<le> unat q"
  shows "binary64_value r f = (if neg then - 1 else 1) *
      (real (unat q) * 2 powi (max b 1 - max_exponent f - (int (precision f) - 1)))"
    and "unat (r_bits r) div 2 ^ (width f - 1) = (if neg then 1 else 0)"
    and "even (unat q) \<Longrightarrow> even (unat (r_bits r))"
proof -
  let ?k = "precision f - 1" and ?j = "width f - precision f" and ?s = "if neg then 1 else 0 :: nat"
  have f': "width f - 1 = ?k + ?j" "width f - 1 - ?k = ?j" "?k < 64" "?j < 64" "0 < ?k" "?k + ?j < 64"
      "precision f = Suc ?k"
    using f by (auto simp: format_ok_def)
  have nb: "nat b < 2 ^ ?j" using b by (simp add: nat_less_iff)
  have bits: "unat (r_bits r) = ?s * 2 ^ (?k + ?j) + nat b * 2 ^ ?k + unat q mod 2 ^ ?k"
    using encode_val [OF f b, of neg q] unfolding r f'(1) by simp
  note fields = fields_val [OF bits nb mod_less_divisor [OF zero_less_power [OF zero_less_numeral]]]
  let ?biased = "unat (drop_bit ?k (r_bits r) AND (push_bit ?j 1 - 1))"
  let ?sig = "r_bits r AND (push_bit ?k 1 - 1)"
  have biased: "?biased = nat b" using fields(2) f'(4) by (simp only: mask_val drop_val)
  have sig: "unat ?sig = unat q mod 2 ^ ?k" using fields(1) f'(3) by (simp only: mask_val)
  have qm: "unat q mod 2 ^ ?k = unat q - (if b = 0 then 0 else 2 ^ ?k)"
  proof (cases "b = 0")
    case True
    then show ?thesis using q(1) by simp
  next
    case False
    then have "2 ^ ?k \<le> unat q" "unat q < 2 * 2 ^ ?k" using q f'(7) by (simp_all flip: power_Suc)
    then show ?thesis using False by (simp add: mod_if [of "unat q"] le_mod_geq)
  qed
  have full: "unat (if ?biased \<noteq> 0 then ?sig OR push_bit ?k 1 else ?sig) = unat q"
  proof (cases "b = 0")
    case True
    then show ?thesis using sig qm biased by simp
  next
    case False
    have "unat (push_bit ?k 1 OR ?sig) = unat (push_bit ?k 1 :: u64) + unat ?sig"
      by (intro or_disjoint_val [of _ ?k]) (simp_all only: push_one_val f'(3) sig, simp_all)
    then show ?thesis
      using False q(2) biased b sig qm push_one_val [OF f'(3)] by (simp add: or.commute)
  qed
  have sign: "drop_bit (width f - 1) (r_bits r) AND 1 \<noteq> 0 \<longleftrightarrow> neg"
    using fields(3) unfolding unat_and_one drop_val f'(1) by simp
  have ex: "int (if ?biased \<noteq> 0 then ?biased else 1) - max_exponent f - int ?k
      = max b 1 - max_exponent f - (int (precision f) - 1)"
    using biased b f'(7) by (simp split: if_splits)
  show "binary64_value r f = (if neg then - 1 else 1) *
      (real (unat q) * 2 powi (max b 1 - max_exponent f - (int (precision f) - 1)))"
    unfolding binary64_value_def Let_def f'(2) full sign ex by simp
  show "unat (r_bits r) div 2 ^ (width f - 1) = ?s" using fields(3) by (simp only: f'(1))
  show "even (unat (r_bits r))" if "even (unat q)"
  proof -
    have "even (unat q mod 2 ^ ?k)" using that f'(5) by (simp add: dvd_mod_iff)
    then show ?thesis using f'(5) unfolding bits by simp
  qed
qed

end
