(* ===== verification/Ieee_Correct.thy ===== *)
theory Ieee_Correct
  imports Ieee_Rounding
begin

text \<open>
  The result of rounding a decimal number, put together: packing a rounded significand, the whole of
  \<open>round_exact\<close>, and the reader of decimal texts in front of it.
\<close>

section \<open>Packing\<close>

text \<open>What a result says of the rounded value \<open>v\<close>.\<close>

definition packs :: "binary_format \<Rightarrow> bool \<Rightarrow> nat \<Rightarrow> real \<Rightarrow> rounded \<Rightarrow> bool" where
  "packs f neg q v r \<longleftrightarrow>
    (r_overflow r \<longleftrightarrow> 2 powi (max_exponent f + 1) \<le> v)
    \<and> (r_overflow r \<longrightarrow> r_bits r = infinity_bits f neg \<and> \<not> underflow_to_zero r)
    \<and> (\<not> r_overflow r \<longrightarrow> binary64_value r f = (if neg then - 1 else 1) * v
        \<and> unat (r_bits r) div 2 ^ (width f - 1) = (if neg then 1 else 0)
        \<and> (even q \<longrightarrow> even (unat (r_bits r))) \<and> (underflow_to_zero r \<longleftrightarrow> q = 0))"

lemma pack_significand_val:
  assumes f: "format_ok f" and q: "unat q < 2 ^ precision f"
    and lead: "min_exponent f \<le> leading" "leading \<le> 100000"
    and norm: "min_exponent f < leading \<longrightarrow> 2 ^ (precision f - 1) \<le> unat q"
  shows "packs f neg (unat q) (real (unat q) * 2 powi (leading - (int (precision f) - 1))) (pack_significand f neg q leading)"
proof -
  let ?k = "precision f - 1" and ?v = "real (unat q) * 2 powi (leading - (int (precision f) - 1)) :: real"
  have k: "int ?k = int (precision f) - 1" "?k < 64" "precision f = Suc ?k"
    using f by (auto simp: format_ok_def)
  have em: "max_exponent f = 2 ^ (width f - precision f - 1) - 1" "1 \<le> max_exponent f" "min_exponent f = 1 - max_exponent f"
      "max_exponent f \<le> 1023"
  proof -
    have "(2 :: int) ^ 1 \<le> 2 ^ (width f - precision f - 1)"
      using f by (intro power_increasing) (auto simp: format_ok_def)
    then show "1 \<le> max_exponent f" using f by (simp add: format_ok_def)
  qed (use f in \<open>auto simp: format_ok_def\<close>)
  have top: "2 * max_exponent f + 2 = 2 ^ (width f - precision f)"
  proof -
    obtain n where "width f - precision f = Suc n" using f by (cases "width f - precision f") (auto simp: format_ok_def)
    then show ?thesis using em(1) by simp
  qed
  have less: "q < push_bit ?k 1 \<longleftrightarrow> unat q < 2 ^ ?k" using push_one_val [OF k(2)] by (simp add: word_less_nat_alt)
  consider (sub) "unat q < 2 ^ ?k" | (over) "2 ^ ?k \<le> unat q" "max_exponent f < leading"
    | (normal) "2 ^ ?k \<le> unat q" "leading \<le> max_exponent f" by linarith
  then show ?thesis
  proof cases
    case sub
    then have l: "leading = min_exponent f" using norm lead by force
    have "?v < 2 powi int ?k * 2 powi (leading - int ?k)"
    proof -
      have "real (unat q) < real (2 ^ ?k)" using sub by (simp only: of_nat_less_iff)
      then show ?thesis unfolding k(1) [symmetric] by (intro mult_strict_right_mono) simp_all
    qed
    also have "\<dots> = 2 powi leading" unfolding powi_add [symmetric] by simp
    also have "\<dots> \<le> 2 powi (max_exponent f + 1)" using l em by (intro powi_le) simp
    finally have small: "\<not> 2 powi (max_exponent f + 1) \<le> ?v" by simp
    define r where "r = pack_significand f neg q leading"
    have bits: "r_bits r = encode f neg q 0" "\<not> r_overflow r" "underflow_to_zero r \<longleftrightarrow> unat q = 0"
      using sub less by (auto simp: r_def pack_significand_def unat_eq_zero)
    note e = encoded_value [OF f bits(1)]
    have "max 0 1 - max_exponent f - (int (precision f) - 1) = leading - (int (precision f) - 1)"
      using l em(3) by simp
    then have "binary64_value r f = (if neg then - 1 else 1) * ?v" using e(1) sub by simp
    then show ?thesis
      using e(2,3) sub bits small unfolding packs_def r_def by simp
  next
    case over
    have "2 powi (max_exponent f + 1) \<le> 2 powi int ?k * (2 powi (leading - int ?k) :: real)"
      unfolding powi_add [symmetric] using over by (intro powi_le) simp
    also have "\<dots> \<le> ?v"
    proof -
      have "real (2 ^ ?k) \<le> real (unat q)" using over by (simp only: of_nat_le_iff)
      then show ?thesis unfolding k(1) [symmetric] by (intro mult_right_mono) simp_all
    qed
    finally have "2 powi (max_exponent f + 1) \<le> ?v" .
    moreover have "0 < (2 :: nat) ^ ?k" by simp
    then have "q \<noteq> 0" using over(1) by (metis le_zero_eq less_irrefl unat_0)
    ultimately show ?thesis using over less by (simp add: packs_def pack_significand_def)
  next
    case normal
    let ?b = "leading + max_exponent f"
    have b: "to_int ?b = ?b" "1 \<le> ?b" "?b < 2 ^ (width f - precision f)"
      using normal lead em by (simp_all add: to_int_id flip: top)
    have "?v < 2 powi int (precision f) * 2 powi (leading - int ?k)"
    proof -
      have "real (unat q) < real (2 ^ precision f)" using q by (simp only: of_nat_less_iff)
      then show ?thesis unfolding k(1) [symmetric] by (intro mult_strict_right_mono) simp_all
    qed
    also have "\<dots> = 2 powi (leading + 1)" unfolding powi_add [symmetric] k(1) by simp
    also have "\<dots> \<le> 2 powi (max_exponent f + 1)" using normal by (intro powi_le) simp
    finally have small: "\<not> 2 powi (max_exponent f + 1) \<le> ?v" by simp
    have "0 < (2 :: nat) ^ ?k" by simp
    then have q0: "q \<noteq> 0" "unat q \<noteq> 0" using normal(1) by (metis le_zero_eq less_irrefl unat_0)+
    define r where "r = pack_significand f neg q leading"
    have bits: "r_bits r = encode f neg q ?b" "\<not> r_overflow r" "\<not> underflow_to_zero r"
      using normal q0 less b(1) by (auto simp: r_def pack_significand_def)
    note e = encoded_value [OF f bits(1)]
    have "binary64_value r f = (if neg then - 1 else 1) * ?v"
      using e(1) b q normal by simp
    moreover have "unat (r_bits r) div 2 ^ (width f - 1) = (if neg then 1 else 0)"
      using e(2) b q normal by simp
    moreover have "even (unat q) \<longrightarrow> even (unat (r_bits r))"
      using e(3) b q normal by simp
    ultimately show ?thesis
      using bits small q0 unfolding packs_def r_def [symmetric] by simp
  qed
qed

lemma finish_rounding_val:
  assumes f: "format_ok f" and q: "unat q \<le> 2 ^ precision f"
    and scale: "min_exponent f \<le> scale + (int (precision f) - 1)" "scale \<le> 90000"
    and norm: "min_exponent f < scale + (int (precision f) - 1) \<longrightarrow> 2 ^ (precision f - 1) \<le> unat q"
  shows "packs f neg (unat q) (real (unat q) * 2 powi scale) (finish_rounding f neg q scale)"
proof -
  have p: "2 \<le> precision f" "precision f \<le> 53" "precision f < 64" using f by (auto simp: format_ok_def)
  have eq: "q = push_bit (precision f) 1 \<longleftrightarrow> unat q = 2 ^ precision f"
    by (simp only: word_unat_eq_iff push_one_val [OF p(3)])
  show ?thesis
  proof (cases "unat q = 2 ^ precision f")
    case True
    have k: "precision f = Suc (Suc k)" if "k = precision f - 2" for k using p(1) that by simp
    define k where "k = precision f - 2"
    note k = k [OF this]
    have d: "unat (drop_bit 1 q) = 2 ^ Suc k" using True k by (simp only: drop_val) simp
    have v: "real (2 ^ Suc k) * 2 powi (scale + 1) = real (unat q) * 2 powi scale"
      unfolding True k powi_add by simp
    have "packs f neg (2 ^ Suc k) (real (2 ^ Suc k) * 2 powi (scale + 1))
        (pack_significand f neg (drop_bit 1 q) (scale + int (precision f) - 1 + 1))"
      using pack_significand_val [OF f, of "drop_bit 1 q" "scale + int (precision f)" neg] scale p
      unfolding d k by (simp add: algebra_simps)
    then show ?thesis
      using True eq k unfolding v packs_def finish_rounding_def Let_def by simp
  next
    case False
    then have "packs f neg (unat q) (real (unat q) * 2 powi (scale + int (precision f) - 1 - (int (precision f) - 1)))
        (pack_significand f neg q (scale + int (precision f) - 1))"
      using q scale norm p by (intro pack_significand_val [OF f]) (simp_all add: algebra_simps)
    then show ?thesis using False eq unfolding finish_rounding_def Let_def by simp
  qed
qed

section \<open>Correct rounding\<close>

text \<open>
  What it means that \<open>r\<close> is the value \<open>V \<ge> 0\<close>, with a sign, rounded to a format: overflow exactly
  from half a unit above the largest finite value on; otherwise the value nearest to \<open>V\<close>, and of two
  equally near ones the one whose last bit is zero.
\<close>

definition overflow_threshold :: "binary_format \<Rightarrow> real" where
  "overflow_threshold f = (2 ^ (precision f + 1) - 1) * 2 powi (max_exponent f - int (precision f))"

definition rounds_to :: "binary_format \<Rightarrow> bool \<Rightarrow> real \<Rightarrow> rounded \<Rightarrow> bool" where
  "rounds_to f neg V r \<longleftrightarrow>
    (r_overflow r \<longleftrightarrow> overflow_threshold f \<le> V)
    \<and> (r_overflow r \<longrightarrow> r_bits r = infinity_bits f neg \<and> \<not> underflow_to_zero r)
    \<and> (\<not> r_overflow r \<longrightarrow>
        (\<exists>x\<ge>0. binary64_value r f = (if neg then - 1 else 1) * x
          \<and> unat (r_bits r) div 2 ^ (width f - 1) = (if neg then 1 else 0)
          \<and> representable f x
          \<and> (\<forall>y. representable f y \<longrightarrow> \<bar>V - x\<bar> \<le> \<bar>V - y\<bar>)
          \<and> (\<forall>y. representable f y \<and> \<bar>V - x\<bar> = \<bar>V - y\<bar> \<and> y \<noteq> x \<longrightarrow> even (unat (r_bits r)))
          \<and> (underflow_to_zero r \<longleftrightarrow> x = 0 \<and> V \<noteq> 0)))"

lemma format_exponents:
  assumes "format_ok f"
  shows "1 \<le> max_exponent f" "min_exponent f = 1 - max_exponent f" "max_exponent f \<le> 1023"
    "2 \<le> precision f" "precision f \<le> 53"
proof -
  have "(2 :: int) ^ 1 \<le> 2 ^ (width f - precision f - 1)"
    using assms by (intro power_increasing) (auto simp: format_ok_def)
  then show "1 \<le> max_exponent f" using assms by (simp add: format_ok_def)
qed (use assms in \<open>auto simp: format_ok_def\<close>)

lemma packs_rounds:
  assumes r: "packs f neg q x r" and over: "2 powi (max_exponent f + 1) \<le> x \<longleftrightarrow> overflow_threshold f \<le> V"
    and x: "representable f x" "0 \<le> x" "x = 0 \<longleftrightarrow> q = 0" and V: "V \<noteq> 0"
    and near: "\<And>y. representable f y \<Longrightarrow> \<bar>V - x\<bar> \<le> \<bar>V - y\<bar>"
    and tie: "\<And>y. representable f y \<Longrightarrow> \<bar>V - x\<bar> = \<bar>V - y\<bar> \<Longrightarrow> y \<noteq> x \<Longrightarrow> even q"
  shows "rounds_to f neg V r"
proof -
  note r = r [unfolded packs_def]
  show ?thesis
    unfolding rounds_to_def
  proof (intro conjI impI)
    assume no: "\<not> r_overflow r"
    have "\<forall>y. representable f y \<and> \<bar>V - x\<bar> = \<bar>V - y\<bar> \<and> y \<noteq> x \<longrightarrow> even (unat (r_bits r))"
      using r no tie by blast
    then show "\<exists>x\<ge>0. binary64_value r f = (if neg then - 1 else 1) * x
          \<and> unat (r_bits r) div 2 ^ (width f - 1) = (if neg then 1 else 0)
          \<and> representable f x
          \<and> (\<forall>y. representable f y \<longrightarrow> \<bar>V - x\<bar> \<le> \<bar>V - y\<bar>)
          \<and> (\<forall>y. representable f y \<and> \<bar>V - x\<bar> = \<bar>V - y\<bar> \<and> y \<noteq> x \<longrightarrow> even (unat (r_bits r)))
          \<and> (underflow_to_zero r \<longleftrightarrow> x = 0 \<and> V \<noteq> 0)"
      using r no x V near by (intro exI [of _ x]) simp
  qed (use r over in simp_all)
qed

text \<open>Zero, which is exact, and values that round to it.\<close>

lemma zero_rounds:
  assumes f: "format_ok f" and V: "0 \<le> V" "V < 2 powi (min_exponent f - int (precision f))"
    and r: "r = \<lparr>r_bits = encode f neg 0 0, r_overflow = False, underflow_to_zero = u\<rparr>" "u \<longleftrightarrow> V \<noteq> 0"
  shows "rounds_to f neg V r"
proof -
  note fe = format_exponents [OF f]
  have bits: "r_bits r = encode f neg 0 0" by (simp add: r)
  note e = encoded_value [OF f bits]
  have val: "binary64_value r f = (if neg then - 1 else 1) * 0" using e(1) by simp
  have sign: "unat (r_bits r) div 2 ^ (width f - 1) = (if neg then 1 else 0)" "even (unat (r_bits r))"
    using e(2,3) by simp_all
  have near: "\<bar>V - 0\<bar> \<le> \<bar>V - y\<bar>" if rep: "representable f y" for y
  proof -
    obtain m s where y: "y = real_of_int m * 2 powi s" "min_exponent f - (int (precision f) - 1) \<le> s"
      using rep unfolding representable_def by blast
    show ?thesis
    proof (cases "m = 0")
      case False
      then have "1 \<le> \<bar>real_of_int m\<bar>" by linarith
      then have "1 * 2 powi s \<le> \<bar>real_of_int m\<bar> * 2 powi s" by (intro mult_right_mono) simp_all
      moreover have "2 * 2 powi (min_exponent f - int (precision f)) \<le> (2 powi s :: real)"
        using powi_le [OF y(2)] powi_add [of 1 "min_exponent f - int (precision f)"] by (simp add: algebra_simps)
      moreover have "\<bar>y\<bar> = \<bar>real_of_int m\<bar> * 2 powi s" by (simp add: y(1) abs_mult)
      ultimately show ?thesis using V by linarith
    qed (simp add: y(1))
  qed
  have "V < overflow_threshold f"
  proof -
    note V(2)
    also have "(2 :: real) powi (min_exponent f - int (precision f)) \<le> 2 powi (max_exponent f - int (precision f))"
      using fe by (intro powi_le) simp
    also have "\<dots> \<le> overflow_threshold f"
    proof -
      have "(2 :: real) ^ 1 \<le> 2 ^ (precision f + 1)" by (intro power_increasing) simp_all
      then have "1 * 2 powi (max_exponent f - int (precision f)) \<le> overflow_threshold f"
        unfolding overflow_threshold_def by (intro mult_right_mono) simp_all
      then show ?thesis by simp
    qed
    finally show ?thesis .
  qed
  moreover have "representable f 0"
    unfolding representable_def by (intro exI [of _ 0] exI [of _ "min_exponent f"]) (use fe in simp)
  ultimately show ?thesis
    unfolding rounds_to_def using val sign near r by (intro conjI impI exI [of _ "0 :: real"]) simp_all
qed

lemma overflow_rounds:
  assumes "overflow_threshold f \<le> V"
    and "r = \<lparr>r_bits = infinity_bits f neg, r_overflow = True, underflow_to_zero = False\<rparr>"
  shows "rounds_to f neg V r"
  using assms by (simp add: rounds_to_def)

text \<open>A significand rounded on the grid of its binade.\<close>

lemma nearest_even_bounds:
  assumes "nearest_even q t"
  shows "real n \<le> t \<Longrightarrow> n \<le> q" "t \<le> real n \<Longrightarrow> q \<le> n"
    and "even n \<Longrightarrow> real n - 1 / 2 \<le> t \<longleftrightarrow> n \<le> q"
proof -
  have d: "\<bar>t - real q\<bar> \<le> 1 / 2" "\<bar>t - real q\<bar> = 1 / 2 \<longrightarrow> even q"
    using assms by (auto simp: nearest_even_def)
  show "n \<le> q" if "real n \<le> t"
  proof (rule ccontr)
    assume "\<not> n \<le> q"
    then have "real q + 1 \<le> real n" by linarith
    then show False using d that by linarith
  qed
  show "q \<le> n" if "t \<le> real n"
  proof (rule ccontr)
    assume "\<not> q \<le> n"
    then have "real n + 1 \<le> real q" by linarith
    then show False using d that by linarith
  qed
  show "real n - 1 / 2 \<le> t \<longleftrightarrow> n \<le> q" if "even n"
  proof
    assume t: "real n - 1 / 2 \<le> t"
    show "n \<le> q"
    proof (rule ccontr)
      assume "\<not> n \<le> q"
      then have "real q + 1 \<le> real n" by linarith
      then have "real q + 1 = real n" "\<bar>t - real q\<bar> = 1 / 2" using d t by linarith+
      then have "even q" "n = q + 1" using d by linarith+
      then show False using that by simp
    qed
  next
    assume "n \<le> q"
    then show "real n - 1 / 2 \<le> t" using d by linarith
  qed
qed

lemma grid_power: "real (2 ^ n) * 2 powi s = 2 powi (int n + s)"
  by (simp add: powi_add)

lemma grid_threshold:
  assumes f: "format_ok f" and e: "2 powi e \<le> V" "V < 2 powi (e + 1)"
    and scale: "scale = max e (min_exponent f) - (int (precision f) - 1)"
    and q: "nearest_even q (V / 2 powi scale)"
  shows "2 powi (max_exponent f + 1) \<le> real q * 2 powi scale \<longleftrightarrow> overflow_threshold f \<le> V"
proof -
  let ?p = "int (precision f)" and ?M = "max_exponent f" and ?S = "2 powi scale :: real" and ?t = "V / 2 powi scale"
  note fe = format_exponents [OF f]
  have V: "V = ?t * ?S" by simp
  have T: "overflow_threshold f = 2 powi (?M + 1) - 2 powi (?M - ?p)"
  proof -
    have "(2 :: real) powi (?M + 1) = 2 powi (int (precision f + 1) + (?M - ?p))" by (simp add: add.commute)
    also have "\<dots> = 2 ^ (precision f + 1) * 2 powi (?M - ?p)" by (simp only: powi_add power_int_of_nat)
    finally show ?thesis unfolding overflow_threshold_def by (simp add: left_diff_distrib)
  qed
  have half: "(2 :: real) powi (?M - ?p) \<le> 2 powi ?M" by (intro powi_le) simp
  consider (below) "e < ?M" | (top) "e = ?M" | (above) "?M < e" by linarith
  then show ?thesis
  proof cases
    case below
    let ?m = "max e (min_exponent f) + 1"
    have m: "?m \<le> ?M" using below fe by simp
    have pS: "real (2 ^ precision f) * ?S = 2 powi ?m" unfolding grid_power by (simp add: scale algebra_simps)
    have "V < 2 powi ?m" using e(2) by (rule less_le_trans) (intro powi_le, simp)
    then have "?t \<le> real (2 ^ precision f)" unfolding pS [symmetric] by (simp add: field_simps)
    then have "real q \<le> real (2 ^ precision f)"
      using nearest_even_bounds(2) [OF q] by (simp only: of_nat_le_iff)
    then have "real q * ?S \<le> 2 powi ?m" unfolding pS [symmetric] by (intro mult_right_mono) simp_all
    also have "\<dots> < 2 powi (?M + 1)" using m by (intro power_int_strict_increasing) simp_all
    finally have "\<not> 2 powi (?M + 1) \<le> real q * ?S" by simp
    moreover have "V < overflow_threshold f"
      using less_le_trans [OF \<open>V < 2 powi ?m\<close> powi_le [OF m]] half unfolding T powi_add by simp
    ultimately show ?thesis by simp
  next
    case top
    then have S: "scale = ?M - (?p - 1)" using scale fe by simp
    have pS: "2 powi (?M + 1) = real (2 ^ precision f) * ?S" unfolding grid_power by (simp add: S algebra_simps)
    have hS: "2 powi (?M - ?p) = 1 / 2 * ?S"
    proof -
      have "?S = 2 powi (1 + (?M - ?p))" by (simp add: S algebra_simps)
      then show ?thesis unfolding powi_add by simp
    qed
    have "overflow_threshold f \<le> V \<longleftrightarrow> (real (2 ^ precision f) - 1 / 2) * ?S \<le> ?t * ?S"
      unfolding T pS hS by (simp add: left_diff_distrib)
    also have "\<dots> \<longleftrightarrow> real (2 ^ precision f) - 1 / 2 \<le> ?t" by (rule mult_le_cancel_right_pos) simp
    also have "\<dots> \<longleftrightarrow> 2 ^ precision f \<le> q"
      using fe(4) by (intro nearest_even_bounds(3) [OF q]) simp
    also have "\<dots> \<longleftrightarrow> real (2 ^ precision f) \<le> real q" by (simp only: of_nat_le_iff)
    also have "\<dots> \<longleftrightarrow> 2 powi (?M + 1) \<le> real q * ?S" unfolding pS by simp
    finally show ?thesis ..
  next
    case above
    then have S: "scale = e - int (precision f - 1)" using scale fe by (simp add: of_nat_diff)
    have pS: "real (2 ^ (precision f - 1)) * ?S = 2 powi e" unfolding grid_power by (simp add: S algebra_simps)
    have "real (2 ^ (precision f - 1)) \<le> ?t" using e(1) unfolding pS [symmetric] by (simp add: field_simps)
    then have "real (2 ^ (precision f - 1)) \<le> real q"
      using nearest_even_bounds(1) [OF q] by (simp only: of_nat_le_iff)
    then have "2 powi e \<le> real q * ?S" unfolding pS [symmetric] by (intro mult_right_mono) simp_all
    moreover have M: "(2 :: real) powi (?M + 1) \<le> 2 powi e" using above by (intro powi_le) simp
    moreover have "(0 :: real) < 2 powi (?M - ?p)" by simp
    ultimately show ?thesis using e(1) unfolding T by linarith
  qed
qed

text \<open>A value between the bounds of its binade, rounded on the grid of the binade and packed.\<close>

lemma grid_rounds:
  assumes f: "format_ok f" and e: "2 powi e \<le> V" "V < 2 powi (e + 1)" "- 1101 < e" "e < 1030"
    and scale: "scale = max e (min_exponent f) - (int (precision f) - 1)"
    and w: "nearest_even (unat w) (V / 2 powi scale)"
  shows "rounds_to f neg V (finish_rounding f neg w scale)"
proof -
  let ?t = "V / 2 powi scale" and ?r = "real (unat w) * 2 powi scale"
  note fe = format_exponents [OF f]
  have pos: "0 < V" using e(1) by (rule less_le_trans [rotated]) simp
  have sc: "- 2000 < scale" "scale < 2000" using e(3,4) fe unfolding scale by auto
  have "V < 2 powi (int (precision f) + scale)"
    using e(2) by (rule less_le_trans) (intro powi_le, simp add: scale)
  then have "?t < real (2 ^ precision f)" unfolding powi_add by (simp add: field_simps)
  then have le: "unat w \<le> 2 ^ precision f" using nearest_even_bounds(2) [OF w, of "2 ^ precision f"] by simp
  have norm: "2 ^ (precision f - 1) \<le> unat w" if "min_exponent f < scale + (int (precision f) - 1)"
  proof -
    have "scale = e - int (precision f - 1)" using that fe(4) unfolding scale by (simp add: of_nat_diff split: split_max)
    then have "real (2 ^ (precision f - 1)) * 2 powi scale = 2 powi e" unfolding grid_power by simp
    then have "real (2 ^ (precision f - 1)) \<le> ?t" using e(1) by (simp add: field_simps)
    then show ?thesis by (rule nearest_even_bounds(1) [OF w])
  qed
  have "packs f neg (unat w) ?r (finish_rounding f neg w scale)"
    using le sc norm by (intro finish_rounding_val [OF f]) (auto simp: scale)
  then show ?thesis
  proof (rule packs_rounds)
    show "2 powi (max_exponent f + 1) \<le> ?r \<longleftrightarrow> overflow_threshold f \<le> V"
      by (rule grid_threshold [OF f e(1,2) scale w])
    show "representable f ?r"
      using fe(4) le by (intro grid_representable) (simp_all add: scale)
  qed (use pos grid_nearest [OF fe(4) e(1,2) scale w] in auto)
qed

section \<open>The whole conversion\<close>

definition sig_value :: "sig_digits \<Rightarrow> real" where
  "sig_value digits = real (digits_val (sig_integer digits @ sig_fraction digits)) * 10 powi sig_exponent digits"

text \<open>Up to 100 million digits every 32-bit \<open>int\<close> of the code keeps its value.\<close>

definition sig_ok :: "sig_digits \<Rightarrow> bool" where
  "sig_ok digits \<longleftrightarrow> (\<forall>c\<in>set (sig_integer digits @ sig_fraction digits). is_digit c)
    \<and> sig_count digits = length (sig_integer digits @ sig_fraction digits)
    \<and> (sig_count digits \<noteq> 0 \<longrightarrow> hd (sig_integer digits @ sig_fraction digits) \<noteq> CHR ''0'')
    \<and> sig_count digits \<le> 100000000"

lemma powi_less_cancel: "(2 :: real) powi a < 2 powi b \<Longrightarrow> a < b"
  using powi_le [of b a] by (meson not_le)

lemma powi10_add: "(10 :: real) powi (a + b) = 10 powi a * 10 powi b"
  by (simp add: power_int_add)

lemma powi10_le: "a \<le> b \<Longrightarrow> (10 :: real) powi a \<le> 10 powi b"
  by (simp add: power_int_increasing)

lemma powi10_split: "(10 :: real) powi x = 5 powi x * 2 powi x"
  using power_int_mult_distrib [of "5 :: real" 2 x] by simp

lemma sig_value_bounds:
  assumes "sig_ok d" "sig_count d \<noteq> 0"
  shows "10 powi (sig_exponent d + int (sig_count d) - 1) \<le> sig_value d"
    "sig_value d < 10 powi (sig_exponent d + int (sig_count d))"
proof -
  let ?ds = "sig_integer d @ sig_fraction d" and ?c = "sig_count d"
  have ds: "\<forall>c\<in>set ?ds. is_digit c" "length ?ds = ?c" "hd ?ds \<noteq> CHR ''0''" using assms unfolding sig_ok_def by auto
  then obtain c cs where cs: "?ds = c # cs" "is_digit c" "c \<noteq> CHR ''0''" using assms(2) by (cases ?ds) auto
  have "digit_val c \<noteq> 0" using cs digit_val_eq_0 by blast
  then have le: "1 * 10 ^ length cs \<le> digit_val c * 10 ^ length cs" by (intro mult_le_mono1) simp
  have c: "?c - 1 = length cs" using ds(2) unfolding cs(1) by simp
  have lo: "10 ^ (?c - 1) \<le> digits_val ?ds" unfolding c cs(1) digits_val_Cons using le by linarith
  have hi: "digits_val ?ds < 10 ^ ?c" using digits_val_less [OF ds(1)] ds(2) by simp
  have "real (10 ^ (?c - 1)) * 10 powi sig_exponent d \<le> sig_value d"
    unfolding sig_value_def using lo by (intro mult_right_mono) (simp_all only: of_nat_le_iff, simp_all)
  moreover have "real (10 ^ (?c - 1)) = 10 powi (int ?c - 1)"
    using assms(2) by (simp add: power_int_def nat_diff_distrib)
  ultimately show "10 powi (sig_exponent d + int ?c - 1) \<le> sig_value d"
    by (simp add: algebra_simps flip: powi10_add)
  have "sig_value d < real (10 ^ ?c) * 10 powi sig_exponent d"
    unfolding sig_value_def using hi by (intro mult_strict_right_mono) (simp_all only: of_nat_less_iff, simp_all)
  then show "sig_value d < 10 powi (sig_exponent d + int ?c)" unfolding powi10_add by (simp add: mult.commute)
qed

lemma ten_310: "(2 :: real) powi 1024 \<le> 10 powi 310" "(10 :: real) powi 310 \<le> 2 powi 1030"
  by (simp_all add: power_int_def)

lemma ten_331: "(10 :: real) powi (- 330) \<le> 2 powi (- 1075)" "(2 :: real) powi (- 1100) \<le> 10 powi (- 331)"
proof -
  have inv: "x powi (- int n) = inverse (x ^ n)" for x :: real and n by (simp add: power_int_minus)
  have "inverse ((10 :: real) ^ 330) \<le> inverse (2 ^ 1075)" by (rule le_imp_inverse_le) simp_all
  then show "(10 :: real) powi (- 330) \<le> 2 powi (- 1075)" using inv [of 10 330] inv [of 2 1075] by simp
  have "inverse ((2 :: real) ^ 1100) \<le> inverse (10 ^ 331)" by (rule le_imp_inverse_le) simp_all
  then show "(2 :: real) powi (- 1100) \<le> 10 powi (- 331)" using inv [of 2 1100] inv [of 10 331] by simp
qed

lemma threshold_less: "overflow_threshold f \<le> 2 powi (max_exponent f + 1)"
proof -
  have "overflow_threshold f \<le> real (2 ^ (precision f + 1)) * 2 powi (max_exponent f - int (precision f))"
    unfolding overflow_threshold_def by (intro mult_right_mono) simp_all
  then show ?thesis unfolding grid_power by (simp add: algebra_simps)
qed

lemma length_bound:
  assumes "nat_ok n" "nat_val n < 2 ^ B" "B \<le> 2000000000"
  shows "length n \<le> 67108864"
proof (cases "n = []")
  case False
  have "(2 :: nat) ^ (32 * (length n - 1)) = 4294967296 ^ (length n - 1)" by (simp add: power_mult)
  also have "\<dots> < 2 ^ B" using nat_val_ge [OF assms(1) False] assms(2) by linarith
  finally have "32 * (length n - 1) < B" by (rule power_less_imp_less_exp [rotated]) simp
  then show ?thesis using assms(3) by linarith
qed simp

text \<open>The exact quotient of the code, and the sizes of its parts.\<close>

lemma exact_quotient:
  fixes d :: sig_digits
  defines "n \<equiv> append_digits (sig_fraction d) (append_digits (sig_integer d) [])" and "x \<equiv> sig_exponent d"
  defines "N \<equiv> if 0 \<le> x then multiply_power_of_five n (nat x) else n"
    and "D \<equiv> if 0 \<le> x then natural_of 1 else multiply_power_of_five (natural_of 1) (nat (- x))"
  assumes d: "sig_ok d" "sig_count d \<noteq> 0" and m: "- 330 \<le> x + int (sig_count d)" "x + int (sig_count d) \<le> 310"
  shows "nat_ok N" "nat_ok D" "0 < nat_val N" "0 < nat_val D" "length N \<le> 67108864" "length D \<le> 67108864"
    "sig_value d = real (nat_val N) / real (nat_val D) * 2 powi x"
proof -
  let ?ds = "sig_integer d @ sig_fraction d" and ?c = "sig_count d"
  have ds: "\<forall>c\<in>set (sig_integer d). is_digit c" "\<forall>c\<in>set (sig_fraction d). is_digit c" "\<forall>c\<in>set ?ds. is_digit c"
      "length ?ds = ?c" "?c \<le> 100000000"
    using d unfolding sig_ok_def by auto
  have n: "nat_val n = digits_val ?ds" "nat_ok n"
    using ds by (simp_all add: n_def append_digits_val digits_val_append)
  have "0 < sig_value d" using sig_value_bounds(1) [OF d] by (rule less_le_trans [rotated]) simp
  then have pos: "0 < digits_val ?ds" unfolding sig_value_def by (simp add: zero_less_mult_iff)
  show ok: "nat_ok N" "nat_ok D" using n by (simp_all add: N_def D_def)
  have N: "nat_val N = digits_val ?ds * 5 ^ nat x" and D: "nat_val D = 5 ^ nat (- x)"
    by (simp_all add: N_def D_def n)
  show "0 < nat_val N" "0 < nat_val D" using pos by (simp_all add: N D)
  have dl: "digits_val ?ds < 10 ^ ?c" using digits_val_less [OF ds(3)] ds(4) by simp
  have "nat_val N < 2 ^ (4 * ?c + 2000)"
  proof (cases "0 \<le> x")
    case True
    then have "nat x \<le> 310" using m by simp
    then have "(5 :: nat) ^ nat x \<le> 5 ^ 310" by (intro power_increasing) simp_all
    also have "\<dots> \<le> 2 ^ 2000" by simp
    finally have "nat_val N < 10 ^ ?c * 2 ^ 2000" unfolding N using dl by (intro mult_less_le_imp_less) simp_all
    also have "\<dots> \<le> 16 ^ ?c * 2 ^ 2000" by (intro mult_le_mono1 power_mono) simp_all
    also have "\<dots> = 2 ^ (4 * ?c + 2000)" by (simp add: power_add power_mult)
    finally show ?thesis .
  next
    case False
    have "10 ^ ?c \<le> (16 :: nat) ^ ?c" by (intro power_mono) simp_all
    also have "\<dots> \<le> 16 ^ ?c * 2 ^ 2000" by simp
    finally show ?thesis using dl False by (simp add: N power_add power_mult)
  qed
  then show "length N \<le> 67108864" by (rule length_bound [OF ok(1)]) (use ds(5) in linarith)
  have "nat (- x) \<le> ?c + 330" using m by simp
  then have "(5 :: nat) ^ nat (- x) \<le> 5 ^ (?c + 330)" by (intro power_increasing) simp_all
  also have "\<dots> < 8 ^ (?c + 330)" by (intro power_strict_mono) simp_all
  also have "\<dots> = 2 ^ (3 * (?c + 330))" unfolding power_mult by simp
  finally have "nat_val D < 2 ^ (3 * (?c + 330))" unfolding D .
  moreover have "3 * (?c + 330) \<le> 2000000000"
  proof -
    have "3 * (?c + 330) \<le> 3 * (100000000 + 330)" using ds(5) by (intro mult_le_mono2 add_le_mono1)
    also have "\<dots> \<le> (2000000000 :: nat)" by simp
    finally show ?thesis .
  qed
  ultimately show "length D \<le> 67108864" by (rule length_bound [OF ok(2)])
  have "(5 :: real) powi x = 5 ^ nat x / 5 ^ nat (- x)"
    by (simp add: power_int_def inverse_eq_divide power_one_over)
  then show "sig_value d = real (nat_val N) / real (nat_val D) * 2 powi x"
    unfolding sig_value_def x_def [symmetric] powi10_split N D by simp
qed

lemma round_exact_correct:
  assumes f: "format_ok f" and d: "sig_ok d"
  shows "rounds_to f neg (sig_value d) (round_exact f neg d)"
proof (cases "sig_count d = 0")
  case True
  then have "sig_value d = 0" using d by (simp add: sig_ok_def sig_value_def)
  then show ?thesis
    using True by (intro zero_rounds [OF f, where neg = neg and u = False]) (simp_all add: round_exact_def)
next
  case count: False
  let ?V = "sig_value d" and ?x = "sig_exponent d" and ?m = "sig_exponent d + int (sig_count d)"
  note fe = format_exponents [OF f]
  note b = sig_value_bounds [OF d count]
  have pos: "0 < ?V" using b(1) by (rule less_le_trans [rotated]) simp
  consider (big) "310 < ?m" | (small) "?m < - 330" | (mid) "- 330 \<le> ?m" "?m \<le> 310" by linarith
  then show ?thesis
  proof cases
    case big
    note threshold_less [of f]
    also have "(2 :: real) powi (max_exponent f + 1) \<le> 2 powi 1024" using fe(3) by (intro powi_le) simp
    also note ten_310(1)
    also have "(10 :: real) powi 310 \<le> 10 powi (?m - 1)" using big by (intro powi10_le) simp
    also note b(1)
    finally show ?thesis using count big by (intro overflow_rounds) (simp_all add: round_exact_def)
  next
    case small
    note b(2)
    also have "(10 :: real) powi ?m \<le> 10 powi (- 330)" using small by (intro powi10_le) simp
    also have "\<dots> \<le> 2 powi (- 1075)" by (rule ten_331)
    also have "(2 :: real) powi (- 1075) \<le> 2 powi (min_exponent f - int (precision f))"
      using fe by (intro powi_le) simp
    finally have tiny: "?V < 2 powi (min_exponent f - int (precision f))" .
    show ?thesis
      by (rule zero_rounds [OF f _ tiny, where neg = neg and u = True])
        (use pos count small in \<open>simp_all add: round_exact_def\<close>)
  next
    case mid
    note q = exact_quotient [OF d count mid]
    define n where "n = append_digits (sig_fraction d) (append_digits (sig_integer d) [])"
    define N where "N = (if 0 \<le> ?x then multiply_power_of_five n (nat ?x) else n)"
    define D where "D = (if 0 \<le> ?x then natural_of 1 else multiply_power_of_five (natural_of 1) (nat (- ?x)))"
    note q = q [folded n_def, folded N_def D_def]
    define e where "e = binary_exponent N D ?x"
    define scale where "scale = max e (min_exponent f) - (int (precision f) - 1)"
    define w where "w = rounded_significand f N D (?x - scale)"
    have res: "round_exact f neg d = finish_rounding f neg w scale"
      using count mid unfolding round_exact_def Let_def n_def [symmetric]
      unfolding N_def [symmetric] D_def [symmetric]
      unfolding e_def [symmetric] unfolding scale_def [symmetric] unfolding w_def [symmetric] by simp
    have e: "2 powi e \<le> ?V" "?V < 2 powi (e + 1)"
      using binary_exponent_val [OF q(1,2,3,4,5,6,7)] unfolding e_def by auto
    have "(2 :: real) powi e < 2 powi 1030"
    proof -
      note e(1)
      also note b(2)
      also have "(10 :: real) powi ?m \<le> 10 powi 310" using mid by (intro powi10_le)
      also note ten_310(2)
      finally show ?thesis .
    qed
    then have e_hi: "e < 1030" by (rule powi_less_cancel)
    have "(2 :: real) powi (- 1100) < 2 powi (e + 1)"
    proof -
      note ten_331(2)
      also have "(10 :: real) powi (- 331) \<le> 10 powi (?m - 1)" using mid by (intro powi10_le) simp
      also note b(1)
      also note e(2)
      finally show ?thesis .
    qed
    then have e_lo: "- 1100 < e + 1" by (rule powi_less_cancel)
    have sc: "- 2000 < scale" "scale < 2000" using e_hi e_lo fe unfolding scale_def by auto
    have x: "- 100000400 \<le> ?x" "?x \<le> 400" using mid d unfolding sig_ok_def by auto
    let ?t = "?V / 2 powi scale"
    have "?V < 2 powi (int (precision f) + scale)"
      using e(2) by (rule less_le_trans) (intro powi_le, simp add: scale_def)
    then have t: "?t < 2 ^ precision f" unfolding powi_add by (simp add: field_simps)
    have "?t = real (nat_val N) / real (nat_val D) * 2 powi (?x - scale)"
      unfolding q(7) by (simp add: power_int_diff)
    then have w: "nearest_even (unat w) ?t" "unat w \<le> 2 ^ precision f"
      using rounded_significand_val [OF q(1,2,4), of f "?x - scale" ?t] fe(5) sc x t unfolding w_def by auto
    show ?thesis unfolding res by (rule grid_rounds [OF f e _ _ scale_def w(1)]) (use e_lo e_hi in simp_all)
  qed
qed

end
