(* ===== verification/Ieee_Reader.thy ===== *)
theory Ieee_Reader
  imports Ieee_Correct
begin

text \<open>
  The reader of decimal texts in front of the rounding: the texts \<open>parse\<close> accepts and their values,
  the significant digits of a decimal, and the two together with \<open>round_exact\<close>.
\<close>

section \<open>Significant digits\<close>

definition decimal_value :: "decimal \<Rightarrow> real" where
  "decimal_value d = real (digits_val (integer_digits d @ fraction_digits d))
     * 10 powi (exponent d - int (length (fraction_digits d)))"

lemma leading_zeros_val: "\<forall>c\<in>set zs. c = CHR ''0'' \<Longrightarrow> digits_val zs = 0"
proof (induction zs)
  case (Cons c zs)
  then show ?case by (simp add: digits_val_Cons digit_val_def)
qed (simp add: digits_val_def)

lemma drop_zeros_decomp: "\<exists>zs. ds = zs @ drop_zeros ds \<and> (\<forall>c\<in>set zs. c = CHR ''0'')"
  unfolding drop_zeros_def
  by (rule exI [of _ "takeWhile (\<lambda>c. c = CHR ''0'') ds"]) (auto dest: set_takeWhileD)

lemma leading_zeros:
  assumes "i' = drop_zeros i" "f' = (if i' = [] then drop_zeros f else f)"
  shows "digits_val (i' @ f') = digits_val (i @ f)"
    and "i' @ f' \<noteq> [] \<Longrightarrow> hd (i' @ f') \<noteq> CHR ''0''"
    and "set i' \<subseteq> set i" "set f' \<subseteq> set f" "length i' + length f' \<le> length i + length f"
proof -
  obtain zs where i: "i = zs @ i'" "\<forall>c\<in>set zs. c = CHR ''0''" using drop_zeros_decomp [of i] assms(1) by auto
  obtain ws where f: "f = ws @ f'" "\<forall>c\<in>set ws. c = CHR ''0''" "i' \<noteq> [] \<Longrightarrow> ws = []"
    using drop_zeros_decomp [of f] assms(2) by (cases "i' = []") auto
  show "digits_val (i' @ f') = digits_val (i @ f)"
    using f(3) leading_zeros_val [OF i(2)] leading_zeros_val [OF f(2)] unfolding i(1) f(1)
    by (cases "i' = []") (simp_all add: digits_val_append)
  show "set i' \<subseteq> set i" "set f' \<subseteq> set f" by (subst i(1), simp, subst f(1), simp)
  show "length i' + length f' \<le> length i + length f" by (subst i(1), subst f(1)) simp
  have hd: "xs \<noteq> [] \<Longrightarrow> xs = drop_zeros ys \<Longrightarrow> hd xs \<noteq> CHR ''0''" for xs ys
    unfolding drop_zeros_def using hd_dropWhile [of "\<lambda>c. c = CHR ''0''" ys] by simp
  show "hd (i' @ f') \<noteq> CHR ''0''" if "i' @ f' \<noteq> []"
    using that assms hd [of i'] hd [of f'] by (cases "i' = []") auto
qed

lemma trailing_zeros:
  assumes "f' = strip_back (\<lambda>c. c = CHR ''0'') f" "i' = (if f' = [] then strip_back (\<lambda>c. c = CHR ''0'') i else i)"
  obtains zs where "i @ f = (i' @ f') @ zs" "\<forall>c\<in>set zs. c = CHR ''0''"
    "length zs = (length f - length f') + (length i - length i')"
proof -
  obtain ws where f: "f = f' @ ws" "\<forall>c\<in>set ws. c = CHR ''0''"
    using strip_back_decomp [of f "\<lambda>c. c = CHR ''0''"] assms(1) by auto
  obtain zs where i: "i = i' @ zs" "\<forall>c\<in>set zs. c = CHR ''0''" "f' \<noteq> [] \<Longrightarrow> zs = []"
    using strip_back_decomp [of i "\<lambda>c. c = CHR ''0''"] assms(2) by (cases "f' = []") auto
  have "length f = length f' + length ws" "length i = length i' + length zs"
    using arg_cong [OF f(1), of length] arg_cong [OF i(1), of length] by simp_all
  moreover have "i @ f = (i' @ f') @ (zs @ ws)" using i(3) by (subst i(1), subst f(1)) (cases "f' = []", simp_all)
  ultimately show thesis using that [of "zs @ ws"] f(2) i(2) by auto
qed

lemma significant_digits_val:
  assumes ds: "\<forall>c\<in>set (integer_digits d @ fraction_digits d). is_digit c"
    and len: "length (integer_digits d @ fraction_digits d) \<le> 100000000"
  shows "sig_ok (significant_digits d)" "sig_value (significant_digits d) = decimal_value d"
proof -
  define i1 where "i1 = drop_zeros (integer_digits d)"
  define f1 where "f1 = (if i1 = [] then drop_zeros (fraction_digits d) else fraction_digits d)"
  define f2 where "f2 = strip_back (\<lambda>c. c = CHR ''0'') f1"
  define i2 where "i2 = (if f2 = [] then strip_back (\<lambda>c. c = CHR ''0'') i1 else i1)"
  note lead = leading_zeros [OF i1_def f1_def]
  obtain zs where zs: "i1 @ f1 = (i2 @ f2) @ zs" "\<forall>c\<in>set zs. c = CHR ''0''"
      "length zs = (length f1 - length f2) + (length i1 - length i2)"
    using trailing_zeros [OF f2_def i2_def] .
  have sig: "significant_digits d = \<lparr>sig_integer = i2, sig_fraction = f2, sig_count = length i2 + length f2,
      sig_exponent = exponent d - int (length (fraction_digits d)) + int (length zs)\<rparr>"
    unfolding significant_digits_def Let_def i1_def [symmetric]
    unfolding f1_def [symmetric] unfolding f2_def [symmetric] unfolding i2_def [symmetric]
    unfolding zs(3) by simp
  have "set (i2 @ f2) \<subseteq> set (i1 @ f1)" unfolding zs(1) by auto
  moreover have "set (i1 @ f1) \<subseteq> set (integer_digits d @ fraction_digits d)" using lead(3,4) by auto
  ultimately have "\<forall>c\<in>set (i2 @ f2). is_digit c" using ds by blast
  moreover have "length (i2 @ f2) \<le> length (i1 @ f1)" unfolding zs(1) by simp
  then have "length i2 + length f2 \<le> 100000000" using lead(5) len by simp
  moreover have "hd (i2 @ f2) \<noteq> CHR ''0''" if "i2 @ f2 \<noteq> []"
    using lead(2) that unfolding zs(1) by (metis append_is_Nil_conv hd_append2)
  ultimately show "sig_ok (significant_digits d)" unfolding sig sig_ok_def by auto
  have "digits_val (integer_digits d @ fraction_digits d) = digits_val (i2 @ f2) * 10 ^ length zs"
    using lead(1) leading_zeros_val [OF zs(2)] unfolding zs(1) by (simp only: digits_val_append)
  then show "sig_value (significant_digits d) = decimal_value d"
    unfolding sig sig_value_def decimal_value_def by (simp add: powi10_add)
qed

text \<open>The power of ten differs from the exponent by at most the number of digits.\<close>

lemma significant_exponent:
  "\<bar>sig_exponent (significant_digits d) - exponent d\<bar> \<le> int (length (integer_digits d @ fraction_digits d))"
proof -
  define i1 where "i1 = drop_zeros (integer_digits d)"
  define f1 where "f1 = (if i1 = [] then drop_zeros (fraction_digits d) else fraction_digits d)"
  define f2 where "f2 = strip_back (\<lambda>c. c = CHR ''0'') f1"
  define i2 where "i2 = (if f2 = [] then strip_back (\<lambda>c. c = CHR ''0'') i1 else i1)"
  have "sig_exponent (significant_digits d) = exponent d - int (length (fraction_digits d))
      + int ((length f1 - length f2) + (length i1 - length i2))"
    unfolding significant_digits_def Let_def i1_def [symmetric]
    unfolding f1_def [symmetric] unfolding f2_def [symmetric] unfolding i2_def [symmetric] by simp
  moreover have "length f1 \<le> length (fraction_digits d)" "length i1 \<le> length (integer_digits d)"
    unfolding f1_def i1_def drop_zeros_def by (simp_all add: length_dropWhile_le)
  ultimately show ?thesis by auto
qed

section \<open>Texts\<close>

text \<open>The texts of the reader's comment, \<open>[+-]digits[.digits][(e|E)[+-]digits]\<close>, with their values.\<close>

definition sign_text :: "bool \<Rightarrow> string \<Rightarrow> bool" where
  "sign_text neg s \<longleftrightarrow> neg \<and> s = ''-'' \<or> \<not> neg \<and> (s = '''' \<or> s = ''+'')"

inductive exponent_text :: "int \<Rightarrow> string \<Rightarrow> bool" where
  exponent_none: "exponent_text 0 []"
| exponent_some: "m \<in> {CHR ''e'', CHR ''E''} \<Longrightarrow> sign_text neg s \<Longrightarrow> ds \<noteq> [] \<Longrightarrow> \<forall>c\<in>set ds. is_digit c
    \<Longrightarrow> exponent_text ((if neg then - 1 else 1) * int (digits_val ds)) (m # s @ ds)"

inductive decimal_text :: "bool \<Rightarrow> real \<Rightarrow> string \<Rightarrow> bool" where
  "sign_text neg s \<Longrightarrow> \<forall>c\<in>set i. is_digit c \<Longrightarrow> \<forall>c\<in>set f. is_digit c \<Longrightarrow> i \<noteq> [] \<or> f \<noteq> []
    \<Longrightarrow> p = '''' \<and> f = [] \<or> p = ''.'' \<Longrightarrow> exponent_text e x
    \<Longrightarrow> decimal_text neg (real (digits_val (i @ f)) * 10 powi (e - int (length f))) (s @ i @ p @ f @ x)"

lemma digit_marks: "\<not> is_digit CHR ''e''" "\<not> is_digit CHR ''E''" "\<not> is_digit CHR ''.''" "\<not> is_digit CHR ''+''"
    "\<not> is_digit CHR ''-''"
  by (simp_all add: is_digit_range)

lemma take_sign_text:
  assumes "sign_text neg s" "r = [] \<or> hd r \<noteq> CHR ''+'' \<and> hd r \<noteq> CHR ''-''"
  shows "take_sign (s @ r) = (neg, r)"
  using assms by (cases r) (auto simp: sign_text_def take_sign_def)

lemma digit_no_sign: "is_digit c \<Longrightarrow> c \<noteq> CHR ''+'' \<and> c \<noteq> CHR ''-''"
  using digit_marks by auto

text \<open>The clamped exponent: the written one below the limit, else one that is at least the limit.\<close>

lemma exponent_loop_scan:
  assumes "\<forall>c\<in>set ds. is_digit c" "0 \<le> e"
  shows "\<exists>e'. exponent_loop ds e = (e', []) \<and> (e' = e * 10 ^ length ds + int (digits_val ds)
      \<or> exponent_limit \<le> e' \<and> exponent_limit \<le> e * 10 ^ length ds + int (digits_val ds))"
  using assms
proof (induction ds arbitrary: e)
  case (Cons c ds)
  show ?case
  proof (cases "e < exponent_limit")
    case True
    have "(e * 10 + int (digit_val c)) * 10 ^ length ds + int (digits_val ds)
        = e * 10 ^ length (c # ds) + int (digits_val (c # ds))"
      by (simp add: digits_val_Cons algebra_simps)
    then show ?thesis using Cons.IH [of "e * 10 + int (digit_val c)"] Cons.prems True by simp
  next
    case False
    have grow: "e \<le> e * 10 ^ n" for n
      using mult_left_mono [OF one_le_power [of "10 :: int" n] Cons.prems(2)] by simp
    have "exponent_limit \<le> e * 10 ^ length (c # ds) + int (digits_val (c # ds))"
      using False grow [of "length (c # ds)"] by linarith
    moreover obtain e' where "exponent_loop ds e = (e', [])" "e' = e * 10 ^ length ds + int (digits_val ds) \<or> exponent_limit \<le> e'"
      using Cons.IH [of e] Cons.prems by auto
    moreover have "exponent_limit \<le> e * 10 ^ length ds + int (digits_val ds)"
      using False grow [of "length ds"] by linarith
    ultimately show ?thesis using Cons.prems(1) False by auto
  qed
qed simp

definition clamps :: "int \<Rightarrow> int \<Rightarrow> bool" where
  "clamps e e' \<longleftrightarrow> e' = e \<or> exponent_limit \<le> e \<and> exponent_limit \<le> e' \<or> e \<le> - exponent_limit \<and> e' \<le> - exponent_limit"

lemma parse_exponent_text:
  assumes "exponent_text e x"
  shows "\<exists>e'. parse_exponent x = Some (e', []) \<and> clamps e e'"
  using assms
proof cases
  case exponent_none
  then show ?thesis by (simp add: parse_exponent_def clamps_def)
next
  case (exponent_some m neg s ds)
  obtain d r where ds: "ds = d # r" "is_digit d" using exponent_some(5,6) by (cases ds) auto
  have sign: "take_sign (s @ ds) = (neg, ds)"
    using digit_no_sign [OF ds(2)] ds(1) by (intro take_sign_text [OF exponent_some(4)]) simp
  obtain e' where e': "exponent_loop ds 0 = (e', [])"
      "e' = int (digits_val ds) \<or> exponent_limit \<le> e' \<and> exponent_limit \<le> int (digits_val ds)"
    using exponent_loop_scan [of ds 0] exponent_some(6) by auto
  have "parse_exponent x = Some (if neg then - e' else e', [])"
    using exponent_some(2,3) sign e'(1) ds unfolding parse_exponent_def by auto
  then show ?thesis using e'(2) exponent_some(1) by (auto simp: clamps_def)
qed

lemma exponent_text_start: "exponent_text e x \<Longrightarrow> x = [] \<or> hd x \<in> {CHR ''e'', CHR ''E''}"
  by (auto elim: exponent_text.cases)

lemma scan_digits:
  assumes "\<forall>c\<in>set ds. is_digit c" "r = [] \<or> \<not> is_digit (hd r)"
  shows "takeWhile is_digit (ds @ r) = ds" "dropWhile is_digit (ds @ r) = r"
  using assms by (cases r; simp)+

lemma parse_text:
  assumes s: "sign_text neg s" and i: "\<forall>c\<in>set i. is_digit c" and f: "\<forall>c\<in>set f. is_digit c"
    and some: "i \<noteq> [] \<or> f \<noteq> []" and p: "p = '''' \<and> f = [] \<or> p = ''.''" and x: "exponent_text e x"
  shows "\<exists>e'. parse (s @ i @ p @ f @ x)
      = Some \<lparr>negative = neg, integer_digits = i, fraction_digits = f, exponent = e'\<rparr> \<and> clamps e e'"
proof -
  note xs = exponent_text_start [OF x]
  have fx: "takeWhile is_digit (f @ x) = f" "dropWhile is_digit (f @ x) = x"
    using xs digit_marks by (intro scan_digits [OF f]; auto)+
  have ix: "takeWhile is_digit (i @ p @ f @ x) = i" "dropWhile is_digit (i @ p @ f @ x) = p @ f @ x"
    using xs p digit_marks by (intro scan_digits [OF i]; auto)+
  have sign: "take_sign (s @ i @ p @ f @ x) = (neg, i @ p @ f @ x)"
    using some p i digit_no_sign by (intro take_sign_text [OF s]) (cases i; auto)
  obtain e' where e': "parse_exponent x = Some (e', [])" "clamps e e'" using parse_exponent_text [OF x] by blast
  have frac: "(case p @ f @ x of
              c # r \<Rightarrow> if c = CHR ''.'' then (takeWhile is_digit r, dropWhile is_digit r) else ([], p @ f @ x)
            | [] \<Rightarrow> ([], p @ f @ x)) = (f, x)"
    using p xs fx by (cases x) auto
  show ?thesis
    using e' some unfolding parse_def sign Let_def prod.case ix frac by simp
qed

section \<open>From the text to the encoding\<close>

lemma rounds_to_overflow:
  assumes "rounds_to f neg V' r" "overflow_threshold f \<le> V'" "overflow_threshold f \<le> V"
  shows "rounds_to f neg V r"
  using assms unfolding rounds_to_def by blast

text \<open>A clamped exponent gives the result of the written one: both overflow, or both round to zero.\<close>

lemma clamped_rounds:
  assumes f: "format_ok f" and ds: "\<forall>c\<in>set (integer_digits d @ fraction_digits d). is_digit c"
    and len: "length (integer_digits d @ fraction_digits d) \<le> 100000000" and e: "clamps e (exponent d)"
    and V: "V = real (digits_val (integer_digits d @ fraction_digits d)) * 10 powi (e - int (length (fraction_digits d)))"
  shows "rounds_to f neg V (round_exact f neg (significant_digits d))"
proof -
  let ?s = "significant_digits d" and ?ds = "integer_digits d @ fraction_digits d" and ?n = "int (length (fraction_digits d))"
  note sig = significant_digits_val [OF ds len]
  have R: "rounds_to f neg (decimal_value d) (round_exact f neg ?s)"
    using round_exact_correct [OF f sig(1)] unfolding sig(2) .
  consider (same) "e = exponent d \<or> digits_val ?ds = 0"
    | (huge) "exponent_limit \<le> e" "exponent_limit \<le> exponent d" "1 \<le> digits_val ?ds"
    | (tiny) "e \<le> - exponent_limit" "exponent d \<le> - exponent_limit" "1 \<le> digits_val ?ds"
    using e unfolding clamps_def by linarith
  then show ?thesis
  proof cases
    case same
    then show ?thesis using R unfolding V decimal_value_def by auto
  next
    case huge
    have big: "overflow_threshold f \<le> real (digits_val ?ds) * 10 powi (k - ?n)" if "exponent_limit \<le> k" for k
    proof -
      note threshold_less [of f]
      also have "(2 :: real) powi (max_exponent f + 1) \<le> 2 powi 1024"
        using format_exponents(3) [OF f] by (intro powi_le) simp
      also note ten_310(1)
      also have "(10 :: real) powi 310 \<le> 10 powi (k - ?n)"
        using that len unfolding exponent_limit_def by (intro powi10_le) simp
      also have "\<dots> \<le> real (digits_val ?ds) * 10 powi (k - ?n)" 
      proof -
        have "1 \<le> real (digits_val ?ds)" using huge(3) by simp
        then show ?thesis using mult_right_mono [of 1 "real (digits_val ?ds)" "10 powi (k - ?n)"] by simp
      qed
      finally show ?thesis .
    qed
    show ?thesis by (rule rounds_to_overflow [OF R]) (simp_all only: V decimal_value_def big huge)
  next
    case tiny
    have small: "real (digits_val ?ds) * 10 powi (k - ?n) < 10 powi (- 400)" if "k \<le> - exponent_limit" for k
    proof -
      have "real (digits_val ?ds) < real (10 ^ length ?ds)"
        using digits_val_less [OF ds] by (simp only: of_nat_less_iff)
      then have "real (digits_val ?ds) < 10 powi int (length ?ds)"
        by (simp only: power_int_of_nat of_nat_power of_nat_numeral)
      then have "real (digits_val ?ds) * 10 powi (k - ?n) < 10 powi int (length ?ds) * 10 powi (k - ?n)"
        by (intro mult_strict_right_mono) simp_all
      also have "\<dots> = 10 powi (int (length ?ds) + (k - ?n))" by (simp only: powi10_add)
      also have "\<dots> \<le> 10 powi (- 400)" using that len unfolding exponent_limit_def by (intro powi10_le) simp
      finally show ?thesis .
    qed
    have v: "V < 10 powi (- 400)" "decimal_value d < 10 powi (- 400)"
      unfolding V decimal_value_def by (rule small, rule tiny)+
    have "decimal_value d \<noteq> 0" "V \<noteq> 0" using tiny(3) by (simp_all add: V decimal_value_def)
    then have count: "sig_count ?s \<noteq> 0" using sig unfolding sig_ok_def sig_value_def by auto
    have "(10 :: real) powi (sig_exponent ?s + int (sig_count ?s) - 1) < 10 powi (- 400)"
      using sig_value_bounds(1) [OF sig(1) count] v(2) unfolding sig(2) by linarith
    then have m: "sig_exponent ?s + int (sig_count ?s) < - 330"
      using powi10_le [of "- 400" "sig_exponent ?s + int (sig_count ?s) - 1"] by linarith
    note v(1)
    also have "(10 :: real) powi (- 400) \<le> 10 powi (- 330)" by (intro powi10_le) simp
    also note ten_331(1)
    also have "(2 :: real) powi (- 1075) \<le> 2 powi (min_exponent f - int (precision f))"
      using format_exponents [OF f] by (intro powi_le) simp
    finally have "V < 2 powi (min_exponent f - int (precision f))" .
    then show ?thesis
      by (rule zero_rounds [OF f, where neg = neg and u = True, rotated])
        (use \<open>V \<noteq> 0\<close> count m in \<open>simp_all add: round_exact_def V\<close>)
  qed
qed

section \<open>What the reader accepts\<close>

lemma exponent_loop_split:
  "0 \<le> e \<Longrightarrow> \<exists>ds. t = ds @ snd (exponent_loop t e) \<and> (\<forall>c\<in>set ds. is_digit c) \<and> (t \<noteq> [] \<and> is_digit (hd t) \<longrightarrow> ds \<noteq> [])"
proof (induction t e rule: exponent_loop.induct)
  case (2 c t e)
  show ?case
  proof (cases "is_digit c")
    case True
    have "0 \<le> (if e < exponent_limit then e * 10 + int (digit_val c) else e)" using 2(2) by simp
    then obtain ds where "t = ds @ snd (exponent_loop (c # t) e)" "\<forall>c\<in>set ds. is_digit c"
      using 2(1) [OF True] True by auto
    then show ?thesis using True by (intro exI [of _ "c # ds"]) auto
  qed simp
qed simp

lemma take_sign_split: "\<exists>s. t = s @ snd (take_sign t) \<and> sign_text (fst (take_sign t)) s"
proof (cases "t \<noteq> [] \<and> hd t \<in> {CHR ''+'', CHR ''-''}")
  case True
  then show ?thesis by (intro exI [of _ "[hd t]"]) (cases t; auto simp: take_sign_def sign_text_def)
next
  case False
  then show ?thesis by (intro exI [of _ "[]"]) (cases t; auto simp: take_sign_def sign_text_def)
qed

lemma parse_exponent_accepts:
  assumes "parse_exponent x = Some (e', [])"
  shows "\<exists>e. exponent_text e x"
proof (cases x)
  case Nil
  then show ?thesis using exponent_none by blast
next
  case (Cons m r)
  then have m: "m \<in> {CHR ''e'', CHR ''E''}" using assms by (auto simp: parse_exponent_def split: if_splits)
  obtain s where s: "r = s @ snd (take_sign r)" "sign_text (fst (take_sign r)) s" using take_sign_split by blast
  have d: "snd (take_sign r) \<noteq> []" "is_digit (hd (snd (take_sign r)))" "snd (exponent_loop (snd (take_sign r)) 0) = []"
    using assms m unfolding Cons parse_exponent_def
    by (auto split: prod.splits list.splits if_splits)
  obtain ds where "snd (take_sign r) = ds" "\<forall>c\<in>set ds. is_digit c" "ds \<noteq> []"
    using exponent_loop_split [of 0 "snd (take_sign r)"] d by auto
  then show ?thesis using exponent_some [OF m s(2)] s(1) unfolding Cons by metis
qed

text \<open>
  C33: The reader accepts exactly the texts of its documented grammar: an optional sign, digits with at
  most one point and at least one digit around it, an optional exponent with its own sign and at least
  one digit. Every other text is refused.
\<close>

theorem parse_accepts_grammar: "parse text \<noteq> None \<longleftrightarrow> (\<exists>neg V. decimal_text neg V text)"
proof
  assume "\<exists>neg V. decimal_text neg V text"
  then obtain neg V where "decimal_text neg V text" by blast
  then show "parse text \<noteq> None"
  proof cases
    case (1 s i f p e x)
    then show ?thesis using parse_text [OF 1(3-8)] by auto
  qed
next
  assume acc: "parse text \<noteq> None"
  define t where "t = snd (take_sign text)"
  obtain s where s: "text = s @ t" "sign_text (fst (take_sign text)) s" using take_sign_split unfolding t_def by blast
  define i where "i = takeWhile is_digit t"
  define r where "r = dropWhile is_digit t"
  have t: "t = i @ r" "\<forall>c\<in>set i. is_digit c" unfolding i_def r_def by (auto dest: set_takeWhileD)
  obtain f x where fx: "(case r of
              c # r' \<Rightarrow> if c = CHR ''.'' then (takeWhile is_digit r', dropWhile is_digit r') else ([], r)
            | [] \<Rightarrow> ([], r)) = (f, x)" by fastforce
  have pf: "\<exists>p. r = p @ f @ x \<and> (p = '''' \<and> f = [] \<or> p = ''.'') \<and> (\<forall>c\<in>set f. is_digit c)"
    using fx by (cases r) (auto split: if_splits dest: set_takeWhileD)
  have "\<not> (i = [] \<and> f = [])" "\<exists>e'. parse_exponent x = Some (e', [])"
    using acc unfolding parse_def Let_def prod.case_eq_if t_def [symmetric] i_def [symmetric] r_def [symmetric] fx
    by (auto split: if_splits option.splits)
  then show "\<exists>neg V. decimal_text neg V text"
    using decimal_text.intros [OF s(2) t(2)] pf parse_exponent_accepts unfolding s(1) t(1) by metis
qed

end
