(* ===== verification/Ieee_Fast.thy ===== *)
theory Ieee_Fast
  imports Ieee_Reader
begin

text \<open>
  \<open>round\<close> with its shortcut: when the digits are at most \<open>2 ^ 53\<close> and the power of ten is within 22, one
  hardware multiplication or division of binary64 numbers gives the result, and binary32 results are
  narrowed from it. The arithmetic of C++ \<open>double\<close> and \<open>float\<close> on positive finite values is written on
  their encodings: the exact result, rounded to nearest and ties to even.
\<close>

section \<open>The arithmetic of the machine\<close>

definition fp_exponent :: "nat \<Rightarrow> nat \<Rightarrow> int" where
  "fp_exponent a b =
    (let e = int (bit_width a) - int (bit_width b)
     in if a * 2 ^ nat (- e) < b * 2 ^ nat e then e - 1 else e)"

definition nearest_quotient :: "nat \<Rightarrow> nat \<Rightarrow> nat" where
  "nearest_quotient n d =
    n div d + (if d < 2 * (n mod d) \<or> 2 * (n mod d) = d \<and> odd (n div d) then 1 else 0)"

text \<open>The exact quotient of two positive numbers, rounded to a format.\<close>

definition fp_quotient :: "binary_format \<Rightarrow> bool \<Rightarrow> nat \<Rightarrow> nat \<Rightarrow> rounded" where
  "fp_quotient format neg a b =
    (let scale = max (fp_exponent a b) (min_exponent format) - (int (precision format) - 1)
     in finish_rounding format neg (of_nat (nearest_quotient (a * 2 ^ nat (- scale)) (b * 2 ^ nat scale))) scale)"

text \<open>The value of a non-negative finite encoding, as a fraction.\<close>

definition fp_fraction :: "binary_format \<Rightarrow> u64 \<Rightarrow> nat \<times> nat" where
  "fp_fraction format bits =
    (let fraction_bits = precision format - 1;
         biased = unat (drop_bit fraction_bits bits AND (push_bit (width format - 1 - fraction_bits) 1 - 1));
         significand = bits AND (push_bit fraction_bits 1 - 1);
         significand = (if biased \<noteq> 0 then significand OR push_bit fraction_bits 1 else significand);
         exponent = int (if biased \<noteq> 0 then biased else 1) - max_exponent format - int fraction_bits
     in (unat significand * 2 ^ nat exponent, 2 ^ nat (- exponent)))"

definition double_of_u64 :: "u64 \<Rightarrow> u64" where
  "double_of_u64 n = r_bits (fp_quotient binary64 False (unat n) 1)"

definition double_multiply :: "u64 \<Rightarrow> u64 \<Rightarrow> u64" where
  "double_multiply x y =
    (let (a, b) = fp_fraction binary64 x; (c, d) = fp_fraction binary64 y
     in r_bits (fp_quotient binary64 False (a * c) (b * d)))"

definition double_divide :: "u64 \<Rightarrow> u64 \<Rightarrow> u64" where
  "double_divide x y =
    (let (a, b) = fp_fraction binary64 x; (c, d) = fp_fraction binary64 y
     in r_bits (fp_quotient binary64 False (a * d) (b * c)))"

definition float_of_double :: "u64 \<Rightarrow> u64" where
  "float_of_double x = (let (a, b) = fp_fraction binary64 x in r_bits (fp_quotient binary32 False a b))"

section \<open>The shortcut\<close>

text \<open>The table of the literals \<open>1e0\<close> to \<open>1e22\<close>.\<close>

definition binary64_powers_of_ten :: "u64 list" where
  "binary64_powers_of_ten = map (\<lambda>k. r_bits (fp_quotient binary64 False (10 ^ k) 1)) [0..<23]"

fun fast_value :: "string \<Rightarrow> u64 \<Rightarrow> u64" where
  "fast_value [] n = n"
| "fast_value (c # cs) n = fast_value cs (n * 10 + of_nat (digit_val c))"

text \<open>Without excess precision (\<open>FLT_EVAL_METHOD == 0\<close>) only.\<close>

definition binary64_fast_path :: "bool \<Rightarrow> sig_digits \<Rightarrow> u64 option" where
  "binary64_fast_path flt_eval_method_0 digits =
    (if \<not> flt_eval_method_0 then None
     else if 16 < sig_count digits \<or> sig_exponent digits < - 22 \<or> 22 < sig_exponent digits then None
     else let v = fast_value (sig_fraction digits) (fast_value (sig_integer digits) 0)
     in if push_bit 53 1 < v then None
     else let x = double_of_u64 v
     in Some (if 0 \<le> sig_exponent digits
              then double_multiply x (binary64_powers_of_ten ! nat (sig_exponent digits))
              else double_divide x (binary64_powers_of_ten ! nat (- sig_exponent digits))))"

definition round_to_format :: "bool \<Rightarrow> decimal \<Rightarrow> binary_format \<Rightarrow> rounded" where
  "round_to_format flt_eval_method_0 d format =
    (let digits = significant_digits d;
         exact = round_exact format (negative d) digits
     in if sig_count digits \<noteq> 0 \<and> (width format = 64 \<or> width format = 32)
        then case binary64_fast_path flt_eval_method_0 digits of
               None \<Rightarrow> exact
             | Some bits \<Rightarrow>
                 if width format = 64
                 then \<lparr>r_bits = bits OR (if negative d then push_bit 63 1 else 0), r_overflow = False,
                        underflow_to_zero = False\<rparr>
                 else if bits AND (push_bit 29 1 - 1) \<noteq> push_bit 28 1
                 then \<lparr>r_bits = float_of_double bits OR (if negative d then push_bit 31 1 else 0),
                        r_overflow = False, underflow_to_zero = False\<rparr>
                 else exact
        else exact)"

section \<open>Correct rounding of quotients\<close>

lemma fp_exponent_val:
  assumes "0 < a" "0 < b"
  shows "2 powi fp_exponent a b \<le> real a / real b" "real a / real b < 2 powi (fp_exponent a b + 1)"
proof -
  define la where "la = bit_width a - 1"
  define lb where "lb = bit_width b - 1"
  have a: "bit_width a = Suc la" "2 ^ la \<le> a" "a < 2 ^ Suc la"
    using bit_width_val [OF assms(1)] by (simp_all add: la_def)
  have b: "bit_width b = Suc lb" "2 ^ lb \<le> b" "b < 2 ^ Suc lb"
    using bit_width_val [OF assms(2)] by (simp_all add: lb_def)
  define e where "e = int la - int lb"
  have r: "real (2 ^ la) \<le> real a" "real a < real (2 ^ Suc la)" "real (2 ^ lb) \<le> real b" "real b < real (2 ^ Suc lb)"
    using a b by (simp_all only: of_nat_le_iff of_nat_less_iff)
  have pb: "0 < real b" using assms by simp
  have hi: "real a / real b < 2 powi (e + 1)"
  proof -
    have "real a / real b \<le> real a / real (2 ^ lb)" using r(3) pb by (intro divide_left_mono) (simp_all only: mult_pos_pos, simp_all)
    also have "\<dots> < real (2 ^ Suc la) / real (2 ^ lb)" using r(2) by (intro divide_strict_right_mono) simp_all
    also have "\<dots> = 2 powi (e + 1)" by (simp add: e_def power_int_diff power_int_add)
    finally show ?thesis .
  qed
  have lo: "2 powi (e - 1) < real a / real b"
  proof -
    have "2 powi (e - 1) = real (2 ^ la) / real (2 ^ Suc lb)" by (simp add: e_def power_int_diff)
    also have "\<dots> \<le> real a / real (2 ^ Suc lb)" using r(1) by (intro divide_right_mono) simp_all
    also have "\<dots> < real a / real b" using r(4) pb assms by (intro divide_strict_left_mono) simp_all
    finally show ?thesis .
  qed
  have test: "a * 2 ^ nat (- e) < b * 2 ^ nat e \<longleftrightarrow> real a / real b < 2 powi e"
  proof -
    have "a * 2 ^ nat (- e) < b * 2 ^ nat e \<longleftrightarrow> real (a * 2 ^ nat (- e)) < real (b * 2 ^ nat e)"
      by (simp only: of_nat_less_iff)
    also have "\<dots> \<longleftrightarrow> real a / real b < 2 powi e"
      using pb by (cases "0 \<le> e") (simp_all add: power_int_def field_simps)
    finally show ?thesis .
  qed
  have "fp_exponent a b = (if real a / real b < 2 powi e then e - 1 else e)"
    unfolding fp_exponent_def Let_def a(1) b(1) using test by (simp add: e_def)
  then show "2 powi fp_exponent a b \<le> real a / real b" "real a / real b < 2 powi (fp_exponent a b + 1)"
    using hi lo by auto
qed

lemma nearest_quotient_val:
  assumes "0 < b"
  shows "nearest_even (nearest_quotient (a * 2 ^ nat (- s)) (b * 2 ^ nat s)) (real a / real b / 2 powi s)"
proof -
  have "real a / real b / 2 powi s = real (a * 2 ^ nat (- s)) / real (b * 2 ^ nat s)"
    using assms by (cases "0 \<le> s") (simp_all add: power_int_def field_simps)
  then show ?thesis
    using nearest_even_div [of "b * 2 ^ nat s" "a * 2 ^ nat (- s)"] assms unfolding nearest_quotient_def by simp
qed

lemma binade_unique:
  fixes V :: real
  assumes "2 powi e \<le> V" "V < 2 powi (e + 1)" "2 powi e' \<le> V" "V < 2 powi (e' + 1)"
  shows "e' = e"
proof -
  have "(2 :: real) powi e < 2 powi (e' + 1)" "(2 :: real) powi e' < 2 powi (e + 1)" using assms by linarith+
  then have "e < e' + 1" "e' < e + 1" using powi_less_cancel by blast+
  then show ?thesis by linarith
qed

text \<open>The quotient depends on its value alone.\<close>

lemma fp_quotient_val:
  assumes f: "format_ok f" and ab: "0 < a" "0 < b" and V: "V = real a / real b"
    and e: "2 powi e \<le> V" "V < 2 powi (e + 1)"
  obtains w where "\<And>neg. fp_quotient f neg a b = finish_rounding f neg w (max e (min_exponent f) - (int (precision f) - 1))"
    "nearest_even (unat w) (V / 2 powi (max e (min_exponent f) - (int (precision f) - 1)))"
    "unat w \<le> 2 ^ precision f"
proof -
  define s where "s = max e (min_exponent f) - (int (precision f) - 1)"
  define q where "q = nearest_quotient (a * 2 ^ nat (- s)) (b * 2 ^ nat s)"
  have ex: "fp_exponent a b = e"
    using binade_unique [OF e fp_exponent_val [OF ab, folded V]] .
  have near: "nearest_even q (V / 2 powi s)" unfolding q_def V by (rule nearest_quotient_val [OF ab(2)])
  have "V < 2 powi (int (precision f) + s)"
    using e(2) by (rule less_le_trans) (intro powi_le, simp add: s_def)
  then have "V / 2 powi s \<le> real (2 ^ precision f)" unfolding powi_add by (simp add: field_simps)
  then have le: "q \<le> 2 ^ precision f" by (rule nearest_even_bounds(2) [OF near])
  have "(2 :: nat) ^ precision f \<le> 2 ^ 53" using f by (intro power_increasing) (auto simp: format_ok_def)
  then have "unat (of_nat q :: u64) = q" using le by (intro unat_of_nat_u64) simp
  then show thesis
    using near le that [of "of_nat q"] unfolding fp_quotient_def ex Let_def s_def [symmetric] q_def [symmetric] by simp
qed

lemma fp_quotient_rounds:
  assumes f: "format_ok f" and ab: "0 < a" "0 < b" and V: "V = real a / real b"
    and e: "2 powi e \<le> V" "V < 2 powi (e + 1)" "- 1101 < e" "e < 1030"
  shows "rounds_to f neg V (fp_quotient f neg a b)"
proof -
  obtain w where w: "\<And>neg. fp_quotient f neg a b = finish_rounding f neg w (max e (min_exponent f) - (int (precision f) - 1))"
      "nearest_even (unat w) (V / 2 powi (max e (min_exponent f) - (int (precision f) - 1)))"
    using fp_quotient_val [OF f ab V e(1,2)] by blast
  show ?thesis unfolding w(1) by (rule grid_rounds [OF f e refl w(2)])
qed

text \<open>A normal result away from the ends of the range.\<close>

lemma encode_sign: "encode f neg q b = encode f False q b OR (if neg then push_bit (width f - 1) 1 else 0)"
  by (simp add: encode_def Let_def or.assoc or.commute or.left_commute)

lemma finish_normal:
  assumes f: "format_ok f" and w: "2 ^ (precision f - 1) \<le> unat w" "unat w \<le> 2 ^ precision f"
    and scale: "min_exponent f - (int (precision f) - 1) \<le> scale" "scale + int (precision f) \<le> max_exponent f"
  obtains q b where "\<And>neg. finish_rounding f neg w scale = \<lparr>r_bits = encode f neg q b, r_overflow = False, underflow_to_zero = False\<rparr>"
    "0 \<le> b" "b < 2 ^ (width f - precision f)" "unat q mod 2 ^ (precision f - 1) = unat w mod 2 ^ (precision f - 1)"
proof -
  let ?k = "precision f - 1"
  have k: "?k < 64" "precision f = Suc ?k" "precision f < 64" using f by (auto simp: format_ok_def)
  note fe = format_exponents [OF f]
  have top: "2 * max_exponent f + 2 = 2 ^ (width f - precision f)"
  proof -
    obtain n where "width f - precision f = Suc n" using f by (cases "width f - precision f") (auto simp: format_ok_def)
    then show ?thesis using f by (simp add: format_ok_def)
  qed
  have eq: "w = push_bit (precision f) 1 \<longleftrightarrow> unat w = 2 ^ precision f"
    by (simp only: word_unat_eq_iff push_one_val [OF k(3)])
  define q where "q = (if unat w = 2 ^ precision f then drop_bit 1 w else w)"
  define l where "l = scale + int (precision f) - 1 + (if unat w = 2 ^ precision f then 1 else 0)"
  have "(2 :: nat) ^ precision f = 2 * 2 ^ ?k" using k(2) by (simp flip: power_Suc)
  then have q: "unat q = (if unat w = 2 ^ precision f then 2 ^ ?k else unat w)"
    by (simp add: q_def drop_val)
  have ge: "2 ^ ?k \<le> unat q" using w(1) by (simp add: q)
  have "0 < (2 :: nat) ^ ?k" by simp
  then have q0: "q \<noteq> 0" using ge by (metis le_zero_eq less_irrefl unat_0)
  have less: "\<not> q < push_bit ?k 1" using ge push_one_val [OF k(1)] by (simp add: word_less_nat_alt)
  have l: "l \<le> max_exponent f" "min_exponent f \<le> l" using scale by (simp_all add: l_def)
  have b: "to_int (l + max_exponent f) = l + max_exponent f" using l fe by (simp add: to_int_id)
  have "finish_rounding f neg w scale = pack_significand f neg q l" for neg
    unfolding finish_rounding_def Let_def eq q_def l_def by simp
  then have "finish_rounding f neg w scale
      = \<lparr>r_bits = encode f neg q (l + max_exponent f), r_overflow = False, underflow_to_zero = False\<rparr>" for neg
    using q0 less l b by (simp add: pack_significand_def)
  moreover have "0 \<le> l + max_exponent f" "l + max_exponent f < 2 ^ (width f - precision f)"
    using l fe by (simp_all flip: top)
  moreover have "unat q mod 2 ^ ?k = unat w mod 2 ^ ?k"
  proof (cases "unat w = 2 ^ precision f")
    case True
    then have "unat w = 2 * 2 ^ ?k" using k(2) by (simp flip: power_Suc)
    then show ?thesis using True by (simp add: q)
  qed (simp add: q)
  ultimately show thesis by (rule that)
qed

section \<open>Exact operands\<close>

lemma rounds_to_exact:
  assumes "rounds_to f neg V r" "representable f V" "V < overflow_threshold f"
  shows "binary64_value r f = (if neg then - 1 else 1) * V" "unat (r_bits r) div 2 ^ (width f - 1) = (if neg then 1 else 0)"
proof -
  obtain x where x: "binary64_value r f = (if neg then - 1 else 1) * x"
      "unat (r_bits r) div 2 ^ (width f - 1) = (if neg then 1 else 0)" "\<bar>V - x\<bar> \<le> \<bar>V - V\<bar>"
    using assms unfolding rounds_to_def by (meson not_le)
  show "binary64_value r f = (if neg then - 1 else 1) * V" using x(1,3) by simp
  show "unat (r_bits r) div 2 ^ (width f - 1) = (if neg then 1 else 0)" by (rule x(2))
qed

lemma fp_fraction_val:
  assumes "fp_fraction f (r_bits r) = (a, b)" "unat (r_bits r) div 2 ^ (width f - 1) = 0"
  shows "0 < b" "real a = binary64_value r f * real b"
proof -
  have sign: "\<not> drop_bit (width f - 1) (r_bits r) AND 1 \<noteq> 0" using assms(2) unfolding unat_and_one drop_val by simp
  have pw: "2 powi e = 2 ^ nat e / (2 :: real) ^ nat (- e)" for e by (cases "0 \<le> e") (simp_all add: power_int_def inverse_eq_divide power_one_over)
  show "0 < b" using assms(1) by (auto simp: fp_fraction_def Let_def)
  show "real a = binary64_value r f * real b"
    using assms(1) sign unfolding fp_fraction_def binary64_value_def Let_def
    by (auto simp: pw)
qed

lemma fp_exact:
  assumes n: "0 < n" "n < 2 ^ 100" "representable binary64 (real n)"
  obtains a b where "fp_fraction binary64 (r_bits (fp_quotient binary64 False n 1)) = (a, b)" "0 < b" "a = n * b"
proof -
  let ?r = "fp_quotient binary64 False n 1" and ?e = "fp_exponent n 1"
  obtain a b where ab: "fp_fraction binary64 (r_bits ?r) = (a, b)" by fastforce
  note e = fp_exponent_val [OF n(1), of 1, simplified]
  have V: "1 \<le> real n" "real n < 2 powi 100"
  proof -
    have "real n < real (2 ^ 100)" using n(2) by (simp only: of_nat_less_iff)
    then show "real n < 2 powi 100" by simp
  qed (use n(1) in simp)
  have "(2 :: real) powi 0 < 2 powi (?e + 1)" "(2 :: real) powi ?e < 2 powi 100" using e V by simp_all
  then have "0 < ?e + 1" "?e < 100" using powi_less_cancel by blast+
  then have "- 1101 < ?e" "?e < 1030" by linarith+
  then have R: "rounds_to binary64 False (real n) ?r"
    using e by (intro fp_quotient_rounds [OF formats_ok(4) n(1) _ _ _ _ _ _, of 1 "real n" ?e]) simp_all
  have "real n < overflow_threshold binary64"
  proof -
    note V(2)
    also have "(2 :: real) powi 100 \<le> 2 powi (1023 - 53)" by (intro powi_le) simp
    also have "\<dots> \<le> overflow_threshold binary64"
      unfolding overflow_threshold_def by (simp add: binary64_def)
    finally show ?thesis .
  qed
  note x = rounds_to_exact [OF R n(3) this]
  have "real a = real n * real b" "0 < b" using fp_fraction_val [OF ab] x by simp_all
  then have "real a = real (n * b)" by simp
  then have "a = n * b" by (simp only: of_nat_eq_iff)
  then show thesis using that [OF ab] \<open>0 < b\<close> by simp
qed

lemma representable_nat:
  assumes "n \<le> 2 ^ 53"
  shows "representable binary64 (real n)"
  using grid_representable [of binary64 0 n] assms by (simp add: binary64_def)

lemma representable_ten:
  assumes "k < 23"
  shows "representable binary64 (real (10 ^ k))"
proof -
  have "(5 :: nat) ^ k \<le> 5 ^ 22" using assms by (intro power_increasing) simp_all
  also have "\<dots> \<le> 2 ^ 53" by simp
  finally have "representable binary64 (real (5 ^ k) * 2 powi int k)"
    by (intro grid_representable) (simp_all add: binary64_def)
  moreover have "real (5 ^ k) * 2 powi int k = real (10 ^ k)"
    by (simp flip: power_mult_distrib)
  ultimately show ?thesis by simp
qed

lemma table_entry:
  assumes "k < 23"
  obtains a b where "fp_fraction binary64 (binary64_powers_of_ten ! k) = (a, b)" "0 < b" "a = 10 ^ k * b"
proof -
  have "(10 :: nat) ^ k \<le> 10 ^ 22" using assms by (intro power_increasing) simp_all
  also have "\<dots> < 2 ^ 100" by simp
  finally show thesis
    using fp_exact [OF _ _ representable_ten [OF assms]] that assms unfolding binary64_powers_of_ten_def by auto
qed

lemma fast_value_val:
  assumes "unat n * 10 ^ length cs + digits_val cs < 18446744073709551616"
  shows "unat (fast_value cs n) = unat n * 10 ^ length cs + digits_val cs"
  using assms
proof (induction cs arbitrary: n)
  case (Cons c cs)
  have sum: "unat n * 10 ^ length (c # cs) + digits_val (c # cs)
      = (unat n * 10 + digit_val c) * 10 ^ length cs + digits_val cs"
    by (simp add: digits_val_Cons algebra_simps)
  define m where "m = unat n * 10 + digit_val c"
  have "m * 1 \<le> m * 10 ^ length cs" by (intro mult_le_mono) simp_all
  then have small: "m < 18446744073709551616" using Cons.prems unfolding sum m_def [symmetric] by linarith
  have "n * 10 + of_nat (digit_val c) = (of_nat (unat n * 10 + digit_val c) :: u64)"
    by (simp add: of_nat_unat)
  then have "unat (n * 10 + of_nat (digit_val c)) = unat n * 10 + digit_val c"
    using small unfolding m_def by (simp only: unat_of_nat_u64)
  then show ?case using Cons.IH [of "n * 10 + of_nat (digit_val c)"] Cons.prems unfolding sum by simp
qed simp

section \<open>The shortcut rounds correctly\<close>

text \<open>What the shortcut computes: the correctly rounded quotient of integers that is the value.\<close>

lemma fast_path_val:
  assumes d: "sig_ok d" "sig_count d \<noteq> 0" and fast: "binary64_fast_path flt d = Some bits"
  obtains a b where "0 < a" "0 < b" "sig_value d = real a / real b" "bits = r_bits (fp_quotient binary64 False a b)"
    "2 powi (- 74) \<le> sig_value d" "sig_value d < 2 powi 127"
proof -
  let ?ds = "sig_integer d @ sig_fraction d" and ?x = "sig_exponent d"
  define v where "v = fast_value (sig_fraction d) (fast_value (sig_integer d) 0)"
  have c: "sig_count d \<le> 16" "- 22 \<le> ?x" "?x \<le> 22" and vle: "\<not> push_bit 53 1 < v"
      and bits: "bits = (if 0 \<le> ?x then double_multiply (double_of_u64 v) (binary64_powers_of_ten ! nat ?x)
              else double_divide (double_of_u64 v) (binary64_powers_of_ten ! nat (- ?x)))"
    using fast unfolding binary64_fast_path_def Let_def v_def by (auto split: if_splits)
  have ds: "\<forall>c\<in>set ?ds. is_digit c" "length ?ds = sig_count d" using d(1) by (auto simp: sig_ok_def)
  have "digits_val ?ds < 10 ^ length ?ds" by (rule digits_val_less [OF ds(1)])
  also have "(10 :: nat) ^ length ?ds \<le> 10 ^ 16" using ds(2) c(1) by (intro power_increasing) simp_all
  finally have small: "digits_val ?ds < 10000000000000000" by simp
  have i: "unat (fast_value (sig_integer d) 0) = digits_val (sig_integer d)"
  proof -
    have "digits_val (sig_integer d) * 1 \<le> digits_val (sig_integer d) * 10 ^ length (sig_fraction d)"
      by (intro mult_le_mono) simp_all
    then have "digits_val (sig_integer d) < 18446744073709551616"
      using small unfolding digits_val_append by linarith
    then show ?thesis using fast_value_val [of 0 "sig_integer d"] by simp
  qed
  have v: "unat v = digits_val ?ds"
    using fast_value_val [of "fast_value (sig_integer d) 0" "sig_fraction d"] small unfolding v_def i digits_val_append by simp
  have val: "sig_value d = real (unat v) * 10 powi ?x" by (simp add: sig_value_def v)
  have pos: "0 < sig_value d" using sig_value_bounds(1) [OF d] by (rule less_le_trans [rotated]) simp
  then have v0: "0 < unat v" unfolding val by (simp add: zero_less_mult_iff)
  have v53: "unat v \<le> 2 ^ 53" using vle push_one_val [of 53] by (simp add: word_less_nat_alt)
  obtain na nb where x: "fp_fraction binary64 (double_of_u64 v) = (na, nb)" "0 < nb" "na = unat v * nb"
    using fp_exact [OF v0 _ representable_nat [OF v53]] v53 unfolding double_of_u64_def by auto
  have lo: "2 powi (- 74) \<le> sig_value d"
  proof -
    have "(2 :: real) powi (- 74) \<le> 10 powi (- 22)" by (simp add: power_int_minus)
    also have "\<dots> \<le> 10 powi ?x" using c by (intro powi10_le) simp
    also have "\<dots> \<le> sig_value d"
      unfolding val using v0 mult_right_mono [of 1 "real (unat v)" "10 powi ?x"] by simp
    finally show ?thesis .
  qed
  have hi: "sig_value d < 2 powi 127"
  proof -
    have "real (unat v) \<le> real (2 ^ 53)" using v53 by (simp only: of_nat_le_iff)
    then have "sig_value d \<le> real (2 ^ 53) * 10 powi 22"
      unfolding val using c powi10_le [of ?x 22] by (intro mult_mono) simp_all
    also have "\<dots> < 2 powi 127" by simp
    finally show ?thesis .
  qed
  show thesis
  proof (cases "0 \<le> ?x")
    case True
    obtain ta tb where t: "fp_fraction binary64 (binary64_powers_of_ten ! nat ?x) = (ta, tb)" "0 < tb" "ta = 10 ^ nat ?x * tb"
      using table_entry [of "nat ?x"] c(3) by force
    show thesis
    proof (rule that [OF _ _ _ _ lo hi])
      show "bits = r_bits (fp_quotient binary64 False (na * ta) (nb * tb))"
        using bits True x(1) t(1) by (simp add: double_multiply_def)
      show "sig_value d = real (na * ta) / real (nb * tb)"
        using True x t by (simp add: val power_int_def)
    qed (use v0 x t in simp_all)
  next
    case False
    obtain ta tb where t: "fp_fraction binary64 (binary64_powers_of_ten ! nat (- ?x)) = (ta, tb)" "0 < tb"
        "ta = 10 ^ nat (- ?x) * tb"
      using table_entry [of "nat (- ?x)"] c(2) by force
    show thesis
    proof (rule that [OF _ _ _ _ lo hi])
      show "bits = r_bits (fp_quotient binary64 False (na * tb) (nb * ta))"
        using bits False x(1) t(1) by (simp add: double_divide_def)
      show "sig_value d = real (na * tb) / real (nb * ta)"
        using False x t by (simp add: val power_int_def field_simps)
    qed (use v0 x t in simp_all)
  qed
qed

text \<open>
  Rounding a binary64 result again is rounding the value once, unless the result is halfway between two
  binary32 values: the bits below binary32's are not a one followed by zeros.
\<close>

lemma nearest_even_near: "\<bar>t - real q\<bar> < 1 / 2 \<Longrightarrow> nearest_even q t"
  by (simp add: nearest_even_def)

lemma nearest_even_twice:
  assumes q: "nearest_even q t" and q': "nearest_even q' (real q / 2 ^ 29)" and low: "q mod 2 ^ 29 \<noteq> 2 ^ 28"
  shows "nearest_even q' (t / 2 ^ 29)"
proof -
  let ?B = "2 ^ 29 :: nat"
  have t: "\<bar>t - real q\<bar> \<le> 1 / 2" using q by (simp add: nearest_even_def)
  have "\<bar>real q / 2 ^ 29 - real q'\<bar> \<le> 1 / 2" using q' by (simp add: nearest_even_def)
  then have "\<bar>real_of_int (int q - int q' * 2 ^ 29)\<bar> \<le> real_of_int (2 ^ 28)" by (simp add: abs_le_iff field_simps)
  then have le: "\<bar>int q - int q' * 2 ^ 29\<bar> \<le> 2 ^ 28" by linarith
  moreover have "\<bar>int q - int q' * 2 ^ 29\<bar> \<noteq> 2 ^ 28"
  proof
    assume "\<bar>int q - int q' * 2 ^ 29\<bar> = 2 ^ 28"
    then have "int q = 2 ^ 28 + 2 ^ 29 * int q' \<or> int q = 2 ^ 28 + 2 ^ 29 * (int q' - 1)"
      by (cases "0 \<le> int q - int q' * 2 ^ 29") (simp_all add: algebra_simps)
    then have "int q mod 2 ^ 29 = 2 ^ 28" by (elim disjE) (simp_all only: mod_mult_self2, simp_all)
    then have "int (q mod 2 ^ 29) = int (2 ^ 28)" by (simp add: zmod_int)
    then show False using low by (simp only: of_nat_eq_iff)
  qed
  ultimately have "\<bar>int q - int q' * 2 ^ 29\<bar> \<le> 2 ^ 28 - 1" by linarith
  then have "real_of_int \<bar>int q - int q' * 2 ^ 29\<bar> \<le> real_of_int (2 ^ 28 - 1)" by (simp only: of_int_le_iff)
  then have "\<bar>real q - real q' * 2 ^ 29\<bar> \<le> 2 ^ 28 - 1" by simp
  then have "\<bar>t - real q' * 2 ^ 29\<bar> < 2 ^ 28" using t by linarith
  then show ?thesis by (intro nearest_even_near) (simp add: abs_less_iff field_simps)
qed

lemma binade_low:
  assumes "2 powi e \<le> V" "nearest_even q (V / 2 powi (e - int n))"
  shows "2 ^ n \<le> q"
proof -
  have "(2 :: real) powi e = real (2 ^ n) * 2 powi (e - int n)" unfolding grid_power by simp
  then have "real (2 ^ n) \<le> V / 2 powi (e - int n)" using assms(1) by (simp add: field_simps)
  then show ?thesis by (rule nearest_even_bounds(1) [OF assms(2)])
qed

lemma fp_quotient_binary64:
  assumes "0 < a" "0 < b" "V = real a / real b" "2 powi e \<le> V" "V < 2 powi (e + 1)" "- 1022 \<le> e"
  obtains w where "\<And>neg. fp_quotient binary64 neg a b = finish_rounding binary64 neg w (e - 52)"
    "nearest_even (unat w) (V / 2 powi (e - 52))" "unat w \<le> 2 ^ 53"
proof -
  have "max e (min_exponent binary64) - (int (precision binary64) - 1) = e - 52" "precision binary64 = 53"
    using assms(6) by (simp_all add: binary64_def)
  then show thesis using fp_quotient_val [OF formats_ok(4) assms(1-5)] that by metis
qed

lemma fp_quotient_binary32:
  assumes "0 < a" "0 < b" "2 powi e \<le> real a / real b" "real a / real b < 2 powi (e + 1)" "- 126 \<le> e"
  obtains u where "\<And>neg. fp_quotient binary32 neg a b = finish_rounding binary32 neg u (e - 23)"
    "nearest_even (unat u) (real a / real b / 2 powi (e - 23))" "unat u \<le> 2 ^ 24"
proof -
  have "max e (min_exponent binary32) - (int (precision binary32) - 1) = e - 23" "precision binary32 = 24"
    using assms(5) by (simp_all add: binary32_def)
  then show thesis using fp_quotient_val [OF formats_ok(3) assms(1,2) refl assms(3,4)] that by metis
qed

text \<open>A significand that carried is the next binade's first.\<close>

lemma finish_carry:
  assumes "0 < precision f" "precision f < 64" "unat u = 2 ^ (precision f - 1)" "unat v = 2 ^ precision f"
  shows "finish_rounding f neg u (s + 1) = finish_rounding f neg v s"
proof -
  have pow: "(2 :: nat) ^ precision f = 2 * 2 ^ (precision f - 1)" using assms(1) by (simp flip: power_Suc)
  have "v = push_bit (precision f) 1" "u \<noteq> push_bit (precision f) 1"
    using assms pow push_one_val [OF assms(2)] by (auto simp: word_unat_eq_iff)
  moreover have "drop_bit 1 v = u" using assms(3,4) pow by (simp add: word_unat_eq_iff drop_val)
  ultimately show ?thesis unfolding finish_rounding_def Let_def by (simp add: algebra_simps)
qed

lemma rounded_twice:
  assumes e: "2 powi e \<le> V" "V < 2 powi (e + 1)" "- 126 \<le> e" "e \<le> 126"
    and w: "nearest_even (unat w) (V / 2 powi (e - 52))" "unat w \<le> 2 ^ 53" "unat w mod 2 ^ 29 \<noteq> 2 ^ 28"
    and ab: "0 < a" "0 < b" "real a / real b = real (unat w) * 2 powi (e - 52)"
  obtains u where "nearest_even (unat u) (V / 2 powi (e - 23))" "2 ^ 23 \<le> unat u" "unat u \<le> 2 ^ 24"
    "\<And>neg. fp_quotient binary32 neg a b = finish_rounding binary32 neg u (e - 23)"
proof -
  let ?y = "real a / real b"
  have sc: "V / 2 powi (e - 23) = V / 2 powi (e - 52) / 2 ^ 29"
    using powi_add [of "e - 52" 29] by simp
  have ge: "2 ^ 52 \<le> unat w" using binade_low [OF e(1), of "unat w" 52] w(1) by simp
  have twice: "nearest_even q' (V / 2 powi (e - 23))" if "nearest_even q' (real (unat w) / 2 ^ 29)" for q'
    unfolding sc by (rule nearest_even_twice [OF w(1) that w(3)])
  have y: "2 powi e \<le> ?y"
  proof -
    have "real (2 ^ 52) \<le> real (unat w)" using ge by (simp only: of_nat_le_iff)
    then have "real (2 ^ 52) * 2 powi (e - 52) \<le> ?y" unfolding ab(3) by (intro mult_right_mono) simp_all
    then show ?thesis unfolding grid_power by simp
  qed
  show thesis
  proof (cases "unat w < 2 ^ 53")
    case True
    have "?y < real (2 ^ 53) * 2 powi (e - 52)"
      unfolding ab(3) using True by (intro mult_strict_right_mono) (simp_all only: of_nat_less_iff, simp)
    then have y': "?y < 2 powi (e + 1)" unfolding grid_power by (simp add: algebra_simps)
    obtain u where u: "\<And>neg. fp_quotient binary32 neg a b = finish_rounding binary32 neg u (e - 23)"
        "nearest_even (unat u) (?y / 2 powi (e - 23))" "unat u \<le> 2 ^ 24"
      using fp_quotient_binary32 [OF ab(1,2) y y' e(3)] by blast
    have "?y / 2 powi (e - 23) = real (unat w) / 2 ^ 29"
      unfolding ab(3) using powi_add [of "e - 52" 29] by simp
    then have "nearest_even (unat u) (V / 2 powi (e - 23))" using u(2) twice by (simp only:)
    then show thesis using that u(1,3) binade_low [OF e(1), of "unat u" 23] by simp
  next
    case False
    then have w53: "unat w = 2 ^ 53" using w(2) by simp
    have y_eq: "?y = 2 powi (e + 1)" unfolding ab(3) w53 grid_power by (simp add: algebra_simps)
    have "2 powi (e + 1) \<le> ?y" "?y < 2 powi (e + 1 + 1)" unfolding y_eq by (simp_all add: powi_add)
    then obtain u where u: "\<And>neg. fp_quotient binary32 neg a b = finish_rounding binary32 neg u (e + 1 - 23)"
        "nearest_even (unat u) (?y / 2 powi (e + 1 - 23))"
      using fp_quotient_binary32 [OF ab(1,2), of "e + 1"] e(3) by force
    have "?y / 2 powi (e + 1 - 23) = real (2 ^ 23)" unfolding y_eq using powi_add [of "e + 1 - 23" 23] by (simp add: add.commute)
    then have "unat u = 2 ^ 23" using nearest_even_bounds(1,2) [OF u(2), of "2 ^ 23"] by simp
    moreover have c: "unat (push_bit 24 1 :: u64) = 2 ^ 24" by (rule push_one_val) simp
    ultimately have carry: "finish_rounding binary32 neg u (e + 1 - 23) = finish_rounding binary32 neg (push_bit 24 1) (e - 23)" for neg
      using finish_carry [of binary32 u "push_bit 24 1" neg "e - 23"] by (simp add: binary32_def)
    have "nearest_even (2 ^ 24) (V / 2 powi (e - 23))"
      by (rule twice) (simp add: w53 nearest_even_def)
    then show thesis using that [of "push_bit 24 1"] u(1) carry c by simp
  qed
qed

lemma kept_low_bits:
  assumes "format_ok f" "0 \<le> b" "b < 2 ^ (width f - precision f)" "n \<le> precision f - 1" "n < 64"
    "unat q mod 2 ^ (precision f - 1) = unat w mod 2 ^ (precision f - 1)"
  shows "unat (encode f False q b) mod 2 ^ n = unat w mod 2 ^ n"
proof -
  have d: "(2 :: nat) ^ n dvd 2 ^ (precision f - 1)" using assms(4) by (rule le_imp_power_dvd)
  have "unat (encode f False q b) mod 2 ^ (precision f - 1) = unat w mod 2 ^ (precision f - 1)"
    using encode_val [OF assms(1-3), of False q] assms(6) by simp
  then show ?thesis using mod_mod_cancel [OF d] by metis
qed

text \<open>The shortcut of binary64, and of binary32 when its test lets it through.\<close>

lemma fast_path_rounds:
  assumes d: "sig_ok d" "sig_count d \<noteq> 0" and fast: "binary64_fast_path flt d = Some bits"
  shows "rounds_to binary64 neg (sig_value d)
      \<lparr>r_bits = bits OR (if neg then push_bit 63 1 else 0), r_overflow = False, underflow_to_zero = False\<rparr>" (is ?double)
    and "bits AND (push_bit 29 1 - 1) \<noteq> push_bit 28 1 \<Longrightarrow> rounds_to binary32 neg (sig_value d)
      \<lparr>r_bits = float_of_double bits OR (if neg then push_bit 31 1 else 0), r_overflow = False, underflow_to_zero = False\<rparr>"
    (is "_ \<Longrightarrow> ?float")
proof -
  obtain a b where ab: "0 < a" "0 < b" "sig_value d = real a / real b" "bits = r_bits (fp_quotient binary64 False a b)"
      "2 powi (- 74) \<le> sig_value d" "sig_value d < 2 powi 127"
    using fast_path_val [OF d fast] .
  define V where "V = sig_value d"
  define e where "e = fp_exponent a b"
  note ab = ab [folded V_def]
  have e: "2 powi e \<le> V" "V < 2 powi (e + 1)" using fp_exponent_val [OF ab(1,2)] unfolding ab(3) e_def by auto
  have "(2 :: real) powi (- 74) < 2 powi (e + 1)" "(2 :: real) powi e < 2 powi 127" using e ab by linarith+
  then have "- 74 < e + 1" "e < 127" using powi_less_cancel by blast+
  then have er: "- 74 \<le> e" "e \<le> 126" "- 1101 < e" "e < 1030" by linarith+
  have b64: "precision binary64 = 53" "min_exponent binary64 = - 1022" "max_exponent binary64 = 1023" "width binary64 = 64"
    and b32: "precision binary32 = 24" "min_exponent binary32 = - 126" "max_exponent binary32 = 127" "width binary32 = 32"
    by (simp_all add: binary64_def binary32_def)
  have s64: "max e (min_exponent binary64) - (int (precision binary64) - 1) = e - 52"
    and s32: "e - 23 = max e (min_exponent binary32) - (int (precision binary32) - 1)"
    using er by (simp_all add: b64 b32)
  obtain w where w: "\<And>neg. fp_quotient binary64 neg a b = finish_rounding binary64 neg w (e - 52)"
      "nearest_even (unat w) (V / 2 powi (e - 52))" "unat w \<le> 2 ^ 53"
    using fp_quotient_binary64 [OF ab(1-3) e] er(1) by force
  have wl: "2 ^ 52 \<le> unat w" using binade_low [OF e(1), of "unat w" 52] w(2) by simp
  obtain q c where q: "\<And>neg. finish_rounding binary64 neg w (e - 52)
        = \<lparr>r_bits = encode binary64 neg q c, r_overflow = False, underflow_to_zero = False\<rparr>"
      "0 \<le> c" "c < 2 ^ (width binary64 - precision binary64)"
      "unat q mod 2 ^ (precision binary64 - 1) = unat w mod 2 ^ (precision binary64 - 1)"
    by (rule finish_normal [OF formats_ok(4), of w "e - 52"]) (use wl w(3) er in \<open>simp_all add: b64\<close>)
  have bits: "bits = encode binary64 False q c" unfolding ab(4) w(1) q(1) by simp
  have "\<lparr>r_bits = bits OR (if neg then push_bit 63 1 else 0), r_overflow = False, underflow_to_zero = False\<rparr>
      = finish_rounding binary64 neg w (e - 52)"
    unfolding q(1) encode_sign [of binary64 neg] bits by (simp add: b64)
  then show ?double
    using grid_rounds [OF formats_ok(4) e er(3,4) s64 [symmetric] w(2)] unfolding V_def by simp
  show ?float if test: "bits AND (push_bit 29 1 - 1) \<noteq> push_bit 28 1"
  proof -
    have "unat (encode binary64 False q c) mod 2 ^ 29 = unat w mod 2 ^ 29"
      by (rule kept_low_bits [OF formats_ok(4) q(2,3) _ _ q(4)]) (simp_all add: b64)
    then have "unat (bits AND (push_bit 29 1 - 1)) = unat w mod 2 ^ 29"
      unfolding bits by (rule trans [OF mask_val, rotated]) simp
    then have low: "unat w mod 2 ^ 29 \<noteq> 2 ^ 28" using test push_one_val [of 28] by (auto simp: word_unat_eq_iff)
    have P: "packs binary64 False (unat w) (real (unat w) * 2 powi (e - 52)) (finish_rounding binary64 False w (e - 52))"
      using w(3) wl er by (intro finish_rounding_val [OF formats_ok(4)]) (simp_all add: b64)
    obtain a' b' where fr: "fp_fraction binary64 (r_bits (finish_rounding binary64 False w (e - 52))) = (a', b')" by fastforce
    have val: "binary64_value (finish_rounding binary64 False w (e - 52)) binary64 = real (unat w) * 2 powi (e - 52)"
        "unat (r_bits (finish_rounding binary64 False w (e - 52))) div 2 ^ (width binary64 - 1) = 0"
      using P unfolding packs_def q(1) by simp_all
    note fv = fp_fraction_val [OF fr val(2), unfolded val(1)]
    have w0: "0 < real (unat w)" using less_le_trans [OF _ wl, of 0] by simp
    then have "0 < real (unat w) * 2 powi (e - 52) * real b'" using fv(1) by (intro mult_pos_pos) simp_all
    then have "0 < real a'" unfolding fv(2) .
    then have a': "0 < a'" by simp
    have quot: "real a' / real b' = real (unat w) * 2 powi (e - 52)" using fv by simp
    have "- 126 \<le> e" using er(1) by simp
    then obtain u where u: "nearest_even (unat u) (V / 2 powi (e - 23))" "2 ^ 23 \<le> unat u" "unat u \<le> 2 ^ 24"
        "\<And>neg. fp_quotient binary32 neg a' b' = finish_rounding binary32 neg u (e - 23)"
      using rounded_twice [OF e _ er(2) w(2,3) low a' fv(1) quot] by blast
    have fl: "float_of_double bits = r_bits (fp_quotient binary32 False a' b')"
      using fr unfolding float_of_double_def bits q(1) by simp
    obtain q' c' where q': "\<And>neg. finish_rounding binary32 neg u (e - 23)
          = \<lparr>r_bits = encode binary32 neg q' c', r_overflow = False, underflow_to_zero = False\<rparr>"
      by (rule finish_normal [OF formats_ok(3), of u "e - 23"]) (use u(2,3) er in \<open>simp_all add: b32\<close>)
    have "\<lparr>r_bits = float_of_double bits OR (if neg then push_bit 31 1 else 0), r_overflow = False, underflow_to_zero = False\<rparr>
        = finish_rounding binary32 neg u (e - 23)"
      unfolding q'(1) encode_sign [of binary32 neg] fl u(4) by (simp add: b32)
    then show ?thesis
      using grid_rounds [OF formats_ok(3) e er(3,4) s32 u(1)] unfolding V_def by simp
  qed
qed

section \<open>From the text to the encoding\<close>

lemma round_to_format_rounds:
  assumes f: "f \<in> {binary16, bfloat16, binary32, binary64}"
    and ds: "\<forall>c\<in>set (integer_digits d @ fraction_digits d). is_digit c"
    and len: "length (integer_digits d @ fraction_digits d) \<le> 100000000" and e: "clamps e (exponent d)"
    and V: "V = real (digits_val (integer_digits d @ fraction_digits d)) * 10 powi (e - int (length (fraction_digits d)))"
  shows "rounds_to f (negative d) V (round_to_format flt d f)"
proof -
  let ?s = "significant_digits d"
  have ok: "format_ok f" using f formats_ok by auto
  have exact: "rounds_to f (negative d) V (round_exact f (negative d) ?s)"
    by (rule clamped_rounds [OF ok ds len e V])
  note sig = significant_digits_val [OF ds len]
  have w: "width f = 64 \<Longrightarrow> f = binary64" "width f = 32 \<Longrightarrow> f = binary32"
    using f by (auto simp: binary16_def bfloat16_def binary32_def binary64_def)
  have fast: "sig_value ?s = V" if "binary64_fast_path flt ?s = Some bits" for bits
  proof -
    have "- 22 \<le> sig_exponent ?s" "sig_exponent ?s \<le> 22"
      using that by (auto simp: binary64_fast_path_def split: if_splits)
    then have "e = exponent d"
      using e len significant_exponent [of d] unfolding clamps_def exponent_limit_def by auto
    then show ?thesis using sig(2) unfolding V decimal_value_def by simp
  qed
  show ?thesis
  proof (cases "sig_count ?s \<noteq> 0 \<and> (width f = 64 \<or> width f = 32) \<and> binary64_fast_path flt ?s \<noteq> None")
    case False
    then have "round_to_format flt d f = round_exact f (negative d) ?s"
      unfolding round_to_format_def Let_def by auto
    then show ?thesis using exact by simp
  next
    case True
    then obtain bits where bits: "binary64_fast_path flt ?s = Some bits" by blast
    have count: "sig_count ?s \<noteq> 0" using True by simp
    note R = fast_path_rounds [OF sig(1) count bits, of "negative d", unfolded fast [OF bits]]
    show ?thesis
    proof (cases "width f = 64")
      case True
      then show ?thesis
        using R(1) w(1) unfolding round_to_format_def Let_def bits option.case by (simp only: count) simp
    next
      case False
      then have "width f = 32" using \<open>sig_count ?s \<noteq> 0 \<and> _\<close> by simp
      then show ?thesis
        using R(2) w(2) exact False unfolding round_to_format_def Let_def bits option.case by (simp only: count) simp
    qed
  qed
qed

text \<open>
  C4: A decimal text of the documented grammar, of up to 100 million characters, converts to the nearest
  value of the format, ties to the even encoding: \<open>parse\<close> accepts it with its sign, and \<open>round\<close>
  reports overflow exactly from half a unit in the last place beyond the largest
  finite value on (with the infinity of the sign), and otherwise gives an encoding of the
  sign whose value no representable number beats, even where one is as near, reporting an underflow
  exactly when a non-zero text rounds to zero. This holds with and without the shortcut through one
  hardware multiplication or division: no result is rounded twice, no 32-bit or 64-bit quantity
  overflows on the way, and exponents beyond the clamp give the same result as the written ones.
\<close>

theorem decimal_text_rounds_correctly:
  assumes t: "decimal_text neg V text" and len: "length text \<le> 100000000"
    and f: "f \<in> {binary16, bfloat16, binary32, binary64}"
  shows "\<exists>d. parse text = Some d \<and> negative d = neg \<and> rounds_to f neg V (round_to_format flt d f)"
  using t
proof cases
  case (1 s i fr p e x)
  obtain e' where p: "parse text = Some \<lparr>negative = neg, integer_digits = i, fraction_digits = fr, exponent = e'\<rparr>"
      "clamps e e'" using parse_text [OF 1(3-8)] unfolding 1(2) by blast
  let ?d = "\<lparr>negative = neg, integer_digits = i, fraction_digits = fr, exponent = e'\<rparr>"
  have "length (i @ fr) \<le> 100000000" using len unfolding 1(2) by simp
  then have "rounds_to f (negative ?d) V (round_to_format flt ?d f)"
    using 1(4,5) p(2) by (intro round_to_format_rounds [OF f, of ?d e]) (auto simp: 1(1))
  then show ?thesis using p(1) by simp
qed

text \<open>The tenth, in binary32.\<close>

theorem decimal_text_rounds_correctly_witness:
  "\<exists>d. parse ''-.1'' = Some d \<and> negative d \<and> rounds_to binary32 True (1 / 10) (round_to_format True d binary32)"
proof -
  have "decimal_text True (real (digits_val ([] @ ''1'')) * 10 powi (0 - int (length ''1''))) (''-'' @ [] @ ''.'' @ ''1'' @ [])"
    by (intro decimal_text.intros exponent_none) (simp_all add: sign_text_def is_digit_range)
  then have "decimal_text True (1 / 10) ''-.1''"
    by (simp add: digits_val_def digit_val_def power_int_minus inverse_eq_divide)
  from decimal_text_rounds_correctly [OF this, of binary32 True] show ?thesis by auto
qed

end
