(* ===== verification/Type_Conversions.thy ===== *)
theory Type_Conversions
  imports Type_Rules
begin

text \<open>
  Numeric conversions and literals of \<open>Types\<close>: the policy is compared with the value ranges of the
  kinds, and the range and exactness checks of literals with what they mean.
\<close>

section \<open>Conversions\<close>

text \<open>The integers a real or integer kind can hold, independently of the tables: bounds, where there are any.\<close>

fun kind_bounds :: "type_kind \<Rightarrow> int option \<times> int option" where
  "kind_bounds Int8_K = (Some (- 128), Some 127)"
| "kind_bounds Int16_K = (Some (- 32768), Some 32767)"
| "kind_bounds Int32_K = (Some (- 2147483648), Some 2147483647)"
| "kind_bounds Int64_K = (Some (- 9223372036854775808), Some 9223372036854775807)"
| "kind_bounds Nat8_K = (Some 0, Some 255)"
| "kind_bounds Nat16_K = (Some 0, Some 65535)"
| "kind_bounds Nat32_K = (Some 0, Some 4294967295)"
| "kind_bounds Nat64_K = (Some 0, Some 18446744073709551615)"
| "kind_bounds Nat_K = (Some 0, None)"
| "kind_bounds Real16_K = (Some (- 65504), Some 65504)"
| "kind_bounds Real16b_K = (Some (- (255 * 2 ^ 120)), Some (255 * 2 ^ 120))"
| "kind_bounds Real32_K = (Some (- ((2 ^ 24 - 1) * 2 ^ 104)), Some ((2 ^ 24 - 1) * 2 ^ 104))"
| "kind_bounds Real64_K = (Some (- ((2 ^ 53 - 1) * 2 ^ 971)), Some ((2 ^ 53 - 1) * 2 ^ 971))"
| "kind_bounds _ = (None, None)"

definition in_kind :: "type_kind \<Rightarrow> int \<Rightarrow> bool" where
  "in_kind k v \<longleftrightarrow> (case kind_bounds k of (lo, hi) \<Rightarrow>
     (case lo of Some l \<Rightarrow> l \<le> v | None \<Rightarrow> True) \<and> (case hi of Some h \<Rightarrow> v \<le> h | None \<Rightarrow> True))"













section \<open>Values in fixed-width types\<close>

definition fixed_integer_kinds :: "type_kind list" where
  "fixed_integer_kinds = [Int64_K, Int8_K, Int16_K, Int32_K, Nat8_K, Nat16_K, Nat32_K, Nat64_K]"

lemma fixed_integer_table:
  "list_all (\<lambda>k. let w = integer_width (simple k) in is_fixed_integer (simple k) \<and> 0 < w \<and>
     (if is_signed_integer (simple k)
      then kind_bounds k = (Some (signed_integer_min w), Some (signed_integer_max w))
        \<and> wrap_u64 (signed_integer_max w) = signed_integer_max w \<and> wrap_u64 (2 ^ nat (w - 1)) = - signed_integer_min w
        \<and> 0 \<le> signed_integer_max w \<and> signed_integer_min w \<le> 0
      else kind_bounds k = (Some 0, Some (unsigned_integer_max w)))) fixed_integer_kinds"
  by code_simp

text \<open>A value or literal fits a fixed-width integer type exactly when it is in the type's range; the
  literal of a negative number fits exactly when its negation is.\<close>

lemma integer_value_fits_correct:
  assumes "k \<in> set fixed_integer_kinds" "i64_range v" "0 \<le> u" "u \<le> 18446744073709551615"
  shows "integer_value_fits v (simple k) = in_kind k v
    \<and> integer_literal_value_fits u (simple k) = in_kind k u
    \<and> negative_integer_literal_value_fits u (simple k) = (in_kind k (- u) \<and> is_signed_integer (simple k))"
proof -
  define w where "w = integer_width (simple k)"
  have t: "is_fixed_integer (simple k)" "0 < w"
    "if is_signed_integer (simple k)
     then kind_bounds k = (Some (signed_integer_min w), Some (signed_integer_max w))
       \<and> wrap_u64 (signed_integer_max w) = signed_integer_max w \<and> wrap_u64 (2 ^ nat (w - 1)) = - signed_integer_min w
       \<and> 0 \<le> signed_integer_max w \<and> signed_integer_min w \<le> 0
     else kind_bounds k = (Some 0, Some (unsigned_integer_max w))"
    using fixed_integer_table assms(1) unfolding list_all_iff Let_def w_def by blast+
  have v: "wrap_u64 v = v" if "0 \<le> v" using assms(2) that by (simp add: wrap_u64_id)
  show ?thesis
  proof (cases "is_signed_integer (simple k)")
    case True
    then have "kind_bounds k = (Some (signed_integer_min w), Some (signed_integer_max w))"
      "wrap_u64 (signed_integer_max w) = signed_integer_max w" "wrap_u64 (2 ^ nat (w - 1)) = - signed_integer_min w"
      "0 \<le> signed_integer_max w" "signed_integer_min w \<le> 0"
      using t(3) by auto
    then show ?thesis using True t(1,2) assms(3)
      by (auto simp: integer_value_fits_def integer_literal_value_fits_def negative_integer_literal_value_fits_def
          in_kind_def w_def [symmetric] Let_def)
  next
    case False
    then show ?thesis using t v assms(3)
      by (auto simp: integer_value_fits_def integer_literal_value_fits_def negative_integer_literal_value_fits_def
          in_kind_def w_def [symmetric] Let_def)
  qed
qed

lemma integer_value_fits_correct_witness:
  "integer_value_fits (- 128) (simple Int8_K) \<and> \<not> integer_literal_value_fits 128 (simple Int8_K)
    \<and> negative_integer_literal_value_fits 128 (simple Int8_K)"
proof -
  have a: "Int8_K \<in> set fixed_integer_kinds" by (simp add: fixed_integer_kinds_def)
  have s: "is_signed_integer (simple Int8_K)" by code_simp
  show ?thesis using integer_value_fits_correct [OF a, of "- 128" 128] s by (simp add: in_kind_def)
qed

section \<open>Exactness in a floating-point format\<close>

lemma drop_zero_bits_spec: "0 < m \<Longrightarrow> odd (drop_zero_bits m) \<and> (\<exists>k. m = drop_zero_bits m * 2 ^ k)"
proof (induction m rule: drop_zero_bits.induct)
  case (1 m)
  show ?case
  proof (cases "even m")
    case True
    then have "0 < m div 2" using 1(2) by auto
    then obtain k where "odd (drop_zero_bits (m div 2))" "m div 2 = drop_zero_bits (m div 2) * 2 ^ k"
      using 1 True by auto
    moreover have "drop_zero_bits m = drop_zero_bits (m div 2)" using 1(2) True by (subst drop_zero_bits.simps) simp
    moreover have "m = 2 * (m div 2)" using True by simp
    ultimately have "odd (drop_zero_bits m)" "m = drop_zero_bits m * 2 ^ Suc k" by (simp, metis mult.left_commute power_Suc)
    then show ?thesis by blast
  next
    case False
    then have "drop_zero_bits m = m" using 1(2) by (subst drop_zero_bits.simps) simp
    moreover have "m = m * 2 ^ 0" by simp
    ultimately show ?thesis using False by metis
  qed
qed

lemma count_bits_le: "count_bits m \<le> p \<longleftrightarrow> m < 2 ^ p"
proof (induction m arbitrary: p rule: count_bits.induct)
  case (1 m)
  show ?case
  proof (cases "m = 0")
    case True
    then show ?thesis by (simp add: count_bits.simps)
  next
    case False
    then have c: "count_bits m = Suc (count_bits (m div 2))" by (subst count_bits.simps) simp
    show ?thesis
    proof (cases p)
      case 0
      then show ?thesis using False c by simp
    next
      case (Suc q)
      then have "count_bits m \<le> p \<longleftrightarrow> m div 2 < 2 ^ q" using 1 [OF False, of q] c by simp
      also have "\<dots> \<longleftrightarrow> m < 2 ^ p" using Suc by auto
      finally show ?thesis .
    qed
  qed
qed

lemma exact_bits:
  assumes "0 < m"
  shows "count_bits (drop_zero_bits m) \<le> p \<longleftrightarrow> (\<exists>s k. m = s * 2 ^ k \<and> s < 2 ^ p)"
proof -
  define d where "d = drop_zero_bits m"
  obtain j where d: "odd d" "m = d * 2 ^ j" using drop_zero_bits_spec [OF assms] unfolding d_def by blast
  have "d \<le> s" if "m = s * 2 ^ k" for s k
  proof (cases "j \<le> k")
    case True
    then have "d * 2 ^ j = s * 2 ^ (k - j) * 2 ^ j" using d that by (simp add: power_add [symmetric] mult.assoc)
    then have e: "d = s * 2 ^ (k - j)" by simp
    then have "k - j = 0" using d(1) by (cases "k - j") auto
    then show ?thesis using e by simp
  next
    case False
    then have "s * 2 ^ k = d * 2 ^ (j - k) * 2 ^ k" using d that by (simp add: power_add [symmetric] mult.assoc)
    then have "s = d * 2 ^ (j - k)" by simp
    then show ?thesis by simp
  qed
  then show ?thesis unfolding count_bits_le d_def [symmetric] using d(2) le_less_trans [of d _ "2 ^ p"] by metis
qed

text \<open>The exactness checks count significant bits: an integer passes exactly when it is an integer of at
  most the format's precision times a power of two, so its significand needs no rounding.\<close>

lemma integer_fits_exactly_in_float_correct:
  assumes "is_fixed_real t" "i64_range v" "0 \<le> u" "u \<le> 18446744073709551615"
  shows "integer_value_fits_exactly_in_float v t = (\<exists>s k. \<bar>v\<bar> = int s * 2 ^ k \<and> s < 2 ^ float_precision_bits t)
    \<and> integer_literal_fits_exactly_in_float u t = (\<exists>s k. u = int s * 2 ^ k \<and> s < 2 ^ float_precision_bits t)"
proof -
  have ex: "(x = 0 \<or> count_bits (drop_zero_bits (nat x)) \<le> p) \<longleftrightarrow> (\<exists>s k. x = int s * 2 ^ k \<and> s < 2 ^ p)" if "0 \<le> x" for x p
  proof (cases "x = 0")
    case True
    then have "x = int 0 * 2 ^ 0" "(0 :: nat) < 2 ^ p" by simp_all
    then show ?thesis using True by metis
  next
    case False
    have "x = int s * 2 ^ k \<longleftrightarrow> nat x = s * 2 ^ k" for s k :: nat
    proof -
      have "int (s * 2 ^ k) = int s * 2 ^ k" by simp
      then show ?thesis using that by linarith
    qed
    then show ?thesis using exact_bits [of "nat x" p] False that by simp
  qed
  have "(if v < 0 then wrap_u64 (wrap_u64 (- (v + 1)) + 1) else wrap_u64 v) = \<bar>v\<bar>"
    using assms(2) wrap_u64_id [of "- v"] wrap_u64_id [of v] by auto
  then have "integer_value_fits_exactly_in_float v t = (\<bar>v\<bar> = 0 \<or> count_bits (drop_zero_bits (nat \<bar>v\<bar>)) \<le> float_precision_bits t)"
    using assms(1) by (simp add: integer_value_fits_exactly_in_float_def)
  moreover have "integer_literal_fits_exactly_in_float u t = (u = 0 \<or> count_bits (drop_zero_bits (nat u)) \<le> float_precision_bits t)"
    using assms(1) by (simp add: integer_literal_fits_exactly_in_float_def)
  ultimately show ?thesis using ex [of "\<bar>v\<bar>" "float_precision_bits t"] ex [OF assms(3), of "float_precision_bits t"] by simp
qed

lemma integer_fits_exactly_in_float_correct_witness:
  "integer_value_fits_exactly_in_float (- 4096) (simple Real16_K)"
proof -
  have r: "is_fixed_real (simple Real16_K)" by code_simp
  have "\<exists>s k. \<bar>- 4096 :: int\<bar> = int s * 2 ^ k \<and> s < 2 ^ float_precision_bits (simple Real16_K)"
    by (rule exI [of _ 1], rule exI [of _ 12])
      (simp add: float_precision_bits_def numeric_info_def simple_def numeric_kind_info_def numeric_kinds_def row_def)
  then show ?thesis using integer_fits_exactly_in_float_correct [OF r, of "- 4096" 0] by simp
qed

text \<open>The check looks at the significand alone: it accepts a value beyond the largest finite one.\<close>

lemma exact_check_ignores_range:
  "integer_value_fits_exactly_in_float 65536 (simple Real16_K) \<and> float_type_max (simple Real16_K) < 65536"
  by (simp add: integer_value_fits_exactly_in_float_def float_type_max_def float_precision_bits_def is_fixed_real_def
      info_is_def numeric_info_def simple_def numeric_kind_info_def numeric_kinds_def row_def wrap_u64_def
      drop_zero_bits.simps count_bits.simps)

end
