(* ===== verification/Constant_Eval.thy ===== *)
theory Constant_Eval
  imports Type_Conversions "HOL-Library.Signed_Division"
begin

text \<open>
  Compile-time values of integer expressions (\<open>src/constant_integer_eval.hpp\<close>) on the part of the
  syntax tree (\<open>include/quidra/ast.hpp\<close>) they and the literal policy read. Every other form of
  expression is \<open>Other_Expr\<close>: the code returns before it looks into one. A \<open>long long\<close> is an \<open>int\<close>;
  the code's tests keep every operation in range, which the lemmas show.
\<close>

section \<open>Expressions\<close>

text \<open>
  The flag of \<open>Expr\<close> says that \<open>contextual_default_type\<close> is set, that of \<open>Name_Expr\<close> that
  \<open>this_qualifier\<close> is. A pointer \<open>ExprPtr\<close> to a sub-expression is the type parameter, which \<open>expr\<close>
  closes.
\<close>

datatype 'e call_arg = Call_Arg "string option" bool 'e

datatype 'e expr_data =
    Integer_Expr u64 string bool
  | Real_Literal_Expr string
  | Imaginary_Literal_Expr string bool
  | Literal_Constant_Expr string 'e
  | Name_Expr string bool
  | Unary_Expr string 'e
  | Binary_Expr string 'e 'e
  | Call_Expr string "'e call_arg list"
  | If_Expr "'e list" "'e list" 'e
  | Other_Expr

datatype expr = Expr bool "expr expr_data"

section \<open>Integer constants\<close>

abbreviation (input) ll_min :: int where "ll_min \<equiv> - 9223372036854775808"
abbreviation (input) ll_max :: int where "ll_max \<equiv> 9223372036854775807"

definition checked_add :: "int \<Rightarrow> int \<Rightarrow> int option" where
  "checked_add a b = (if (b > 0 \<and> a > ll_max - b) \<or> (b < 0 \<and> a < ll_min - b) then None else Some (a + b))"

definition checked_sub :: "int \<Rightarrow> int \<Rightarrow> int option" where
  "checked_sub a b = (if (b > 0 \<and> a < ll_min + b) \<or> (b < 0 \<and> a > ll_max + b) then None else Some (a - b))"

definition checked_mul :: "int \<Rightarrow> int \<Rightarrow> int option" where
  "checked_mul a b =
     (if a = 0 \<or> b = 0 then Some 0
      else if a > 0
      then if (b > 0 \<and> a > ll_max sdiv b) \<or> (b < 0 \<and> b < ll_min sdiv a) then None else Some (a * b)
      else if (b > 0 \<and> a < ll_min sdiv b) \<or> (b < 0 \<and> a < ll_max sdiv b) then None else Some (a * b))"

text \<open>\<open>constant_eval::integer\<close>. A type argument of a call is checked where the call has one.\<close>

fun constant_integer :: "(string \<rightharpoonup> int) option \<Rightarrow> expr \<Rightarrow> int option" where
  "constant_integer names (Expr _ (Integer_Expr v _ _)) =
     (if int (unat v) > ll_max then None else Some (int (unat v)))"
| "constant_integer names (Expr _ (Name_Expr n this_qualifier)) =
     (case names of None \<Rightarrow> None | Some m \<Rightarrow> if this_qualifier then None else m n)"
| "constant_integer names (Expr _ (Unary_Expr op operand)) =
     (if op \<noteq> ''-'' then None
      else case constant_integer names operand of
             None \<Rightarrow> None
           | Some v \<Rightarrow> if v = ll_min then None else Some (- v))"
| "constant_integer names (Expr _ (Call_Expr callee args)) =
     (case args of
        [Call_Arg arg_name writable e] \<Rightarrow>
          if writable \<or> arg_name \<noteq> None then None
          else (case builtin_scalar_type callee of
                  None \<Rightarrow> None
                | Some target \<Rightarrow>
                    if \<not> is_fixed_integer target then None
                    else case constant_integer names e of
                           None \<Rightarrow> None
                         | Some v \<Rightarrow> if \<not> integer_value_fits v target then None else Some v)
      | _ \<Rightarrow> None)"
| "constant_integer names (Expr _ (Binary_Expr op l r)) =
     (case (constant_integer names l, constant_integer names r) of
        (Some left, Some right) \<Rightarrow>
          if (op = ''/'' \<or> op = ''%'') \<and> right = 0 then None
          else if (op = ''/'' \<or> op = ''%'') \<and> left = ll_min \<and> right = - 1 then None
          else if op = ''/'' then Some (left sdiv right)
          else if op = ''%'' then Some (left smod right)
          else if op = ''+'' then checked_add left right
          else if op = ''-'' then checked_sub left right
          else if op = ''*'' then checked_mul left right
          else None
      | _ \<Rightarrow> None)"
| "constant_integer names (Expr _ _) = None"

datatype integer_state = Unknown | Known int | Out_Of_Type_Range

definition integer_fits_literal_type :: "int \<Rightarrow> qtype \<Rightarrow> bool" where
  "integer_fits_literal_type v t = (if kind_of t = Nat_K then v \<ge> 0 else integer_value_fits v t)"

definition known_in_type :: "int \<Rightarrow> qtype \<Rightarrow> integer_state" where
  "known_in_type v t = (if \<not> integer_fits_literal_type v t then Out_Of_Type_Range else Known v)"

definition evaluated :: "string \<Rightarrow> int \<Rightarrow> int \<Rightarrow> int option" where
  "evaluated op a b = (if op = ''+'' then checked_add a b else if op = ''-'' then checked_sub a b else checked_mul a b)"

definition literal_of :: "expr \<Rightarrow> (u64 \<times> bool) option" where
  "literal_of e = (case e of Expr _ (Integer_Expr v _ fits_u64) \<Rightarrow> Some (v, fits_u64) | _ \<Rightarrow> None)"

text \<open>The type is tested by every call of the recursion, and its answer is the same in all of them.\<close>

fun integer_in_type :: "expr \<Rightarrow> qtype \<Rightarrow> integer_state" where
  "integer_in_type (Expr _ (Integer_Expr v _ fits_u64)) t =
     (if kind_of t \<noteq> Nat_K \<and> \<not> is_fixed_integer t then Unknown
      else if \<not> fits_u64 \<or> int (unat v) > ll_max then Unknown
      else known_in_type (int (unat v)) t)"
| "integer_in_type (Expr _ (Unary_Expr op operand)) t =
     (if kind_of t \<noteq> Nat_K \<and> \<not> is_fixed_integer t then Unknown
      else if op \<noteq> ''-'' then Unknown
      else case literal_of operand of
             Some (v, fits_u64) \<Rightarrow>
               if \<not> fits_u64 \<or> int (unat v) > ll_max then Unknown else known_in_type (- int (unat v)) t
           | None \<Rightarrow>
               (case integer_in_type operand t of
                  Known v \<Rightarrow> if v = ll_min then Unknown else known_in_type (- v) t
                | state \<Rightarrow> state))"
| "integer_in_type (Expr _ (Binary_Expr op l r)) t =
     (if kind_of t \<noteq> Nat_K \<and> \<not> is_fixed_integer t then Unknown
      else if op \<noteq> ''+'' \<and> op \<noteq> ''-'' \<and> op \<noteq> ''*'' then Unknown
      else case integer_in_type l t of
             Known left \<Rightarrow>
               (case integer_in_type r t of
                  Known right \<Rightarrow>
                    (case evaluated op left right of
                       None \<Rightarrow>
                         if is_signed_integer t \<or> is_fixed_integer t \<and> integer_width t < 64 then Out_Of_Type_Range else Unknown
                     | Some v \<Rightarrow> known_in_type v t)
                | state \<Rightarrow> state)
           | state \<Rightarrow> state)"
| "integer_in_type (Expr _ _) t = Unknown"

section \<open>Checked operations\<close>

lemma checked_add_val: "i64_range a \<Longrightarrow> i64_range b \<Longrightarrow> checked_add a b = (if i64_range (a + b) then Some (a + b) else None)"
  by (auto simp: checked_add_def)

lemma checked_sub_val: "i64_range a \<Longrightarrow> i64_range b \<Longrightarrow> checked_sub a b = (if i64_range (a - b) then Some (a - b) else None)"
  by (auto simp: checked_sub_def)

lemma sdiv_pos: "0 \<le> x \<Longrightarrow> 0 < y \<Longrightarrow> x sdiv y = x div y" for x y :: int
  by (simp add: signed_divide_int_def sgn_if)

lemma sdiv_neg: "x < 0 \<Longrightarrow> 0 < y \<Longrightarrow> x sdiv y = - ((- x) div y)" for x y :: int
  by (simp add: signed_divide_int_def sgn_if)

lemma sdiv_pos_neg: "0 < x \<Longrightarrow> y < 0 \<Longrightarrow> x sdiv y = - (x div (- y))" for x y :: int
  by (simp add: signed_divide_int_def sgn_if)

lemma checked_mul_val:
  assumes "i64_range a" "i64_range b"
  shows "checked_mul a b = (if i64_range (a * b) then Some (a * b) else None)"
proof -
  have le: "x * y \<le> n \<longleftrightarrow> x \<le> n div y" if "0 < y" for x y n :: int
    using le_div_mult [OF that] by simp
  consider "a = 0 \<or> b = 0" | "0 < a" "0 < b" | "0 < a" "b < 0" | "a < 0" "0 < b" | "a < 0" "b < 0" by linarith
  then show ?thesis
  proof cases
    case 1
    then show ?thesis by (auto simp: checked_mul_def)
  next
    case 2
    then have "0 < a * b" by simp
    then have "i64_range (a * b) \<longleftrightarrow> a * b \<le> ll_max" by simp
    then have "i64_range (a * b) \<longleftrightarrow> \<not> a > ll_max sdiv b" using 2 le [of b a ll_max] by (auto simp: sdiv_pos)
    then show ?thesis using 2 by (simp add: checked_mul_def)
  next
    case 3
    then have neg: "a * b < 0" by (simp add: mult_pos_neg)
    have "(- b) * a \<le> 9223372036854775808 \<longleftrightarrow> - b \<le> 9223372036854775808 div a" using 3 by (intro le) simp
    then have "ll_min \<le> a * b \<longleftrightarrow> \<not> b < ll_min sdiv a" using 3 by (simp add: sdiv_pos mult.commute) linarith
    then show ?thesis using 3 neg by (auto simp: checked_mul_def)
  next
    case 4
    then have neg: "a * b < 0" by (simp add: mult_neg_pos)
    have "(- a) * b \<le> 9223372036854775808 \<longleftrightarrow> - a \<le> 9223372036854775808 div b" using 4 by (intro le) simp
    then have "ll_min \<le> a * b \<longleftrightarrow> \<not> a < ll_min sdiv b" using 4 by (simp add: sdiv_pos) linarith
    then show ?thesis using 4 neg by (auto simp: checked_mul_def)
  next
    case 5
    then have pos: "0 < a * b" by (simp add: mult_neg_neg)
    have "(- a) * (- b) \<le> 9223372036854775807 \<longleftrightarrow> - a \<le> 9223372036854775807 div (- b)" using 5 by (intro le) simp
    then have "a * b \<le> ll_max \<longleftrightarrow> \<not> a < ll_max sdiv b" using 5 by (simp add: sdiv_pos_neg) linarith
    then show ?thesis using 5 pos by (auto simp: checked_mul_def)
  qed
qed

section \<open>The range of a type\<close>

lemma fixed_kinds_table:
  "list_all (\<lambda>n. width n \<noteq> 0 \<and> (family n = Integer \<or> family n = Natural) \<longrightarrow>
     nk_kind n \<in> set fixed_integer_kinds \<and> width n \<in> {8, 16, 32, 64}
     \<and> (let (lo, hi) = kind_bounds (nk_kind n) in
         hi \<noteq> None \<and> lo \<noteq> None \<and> (family n = Integer \<or> width n < 64 \<longrightarrow> the hi \<le> ll_max \<and> ll_min \<le> the lo))) numeric_kinds"
  by code_simp

lemma fixed_integer_row:
  assumes "is_fixed_integer t"
  obtains n where "numeric_info t = Some n" "nk_kind n = kind_of t" "width n \<noteq> 0" "family n = Integer \<or> family n = Natural"
    "n \<in> set numeric_kinds"
proof -
  obtain n where n: "numeric_info t = Some n" "width n \<noteq> 0" "family n = Integer \<or> family n = Natural"
    using assms unfolding is_fixed_integer_def info_is_def by (cases "numeric_info t") auto
  then have "nk_kind n = kind_of t \<and> n \<in> set numeric_kinds"
    unfolding numeric_info_def numeric_kind_info_def find_Some_iff by (metis nth_mem)
  then show thesis using that n by blast
qed

lemma fixed_integer_kind:
  assumes "is_fixed_integer t"
  shows "kind_of t \<in> set fixed_integer_kinds"
    and "is_signed_integer t \<or> integer_width t < 64 \<Longrightarrow> in_kind (kind_of t) v \<Longrightarrow> i64_range v"
proof -
  obtain n where n: "numeric_info t = Some n" "nk_kind n = kind_of t" "width n \<noteq> 0" "family n = Integer \<or> family n = Natural"
      "n \<in> set numeric_kinds" using fixed_integer_row [OF assms] .
  note table = fixed_kinds_table [unfolded list_all_iff, rule_format, OF n(5) conjI [OF n(3,4)], unfolded n(2)]
  show "kind_of t \<in> set fixed_integer_kinds" using table by simp
  show "i64_range v" if "is_signed_integer t \<or> integer_width t < 64" "in_kind (kind_of t) v"
  proof -
    have "family n = Integer \<or> width n < 64"
      using that(1) assms n(1) by (auto simp: is_signed_integer_def info_is_def integer_width_def)
    then show ?thesis using table that(2) by (auto simp: in_kind_def Let_def split: prod.splits)
  qed
qed

lemma fits_in_kind:
  assumes "is_fixed_integer t" "i64_range v"
  shows "integer_value_fits v t \<longleftrightarrow> in_kind (kind_of t) v"
proof -
  have "integer_value_fits v t = integer_value_fits v (simple (kind_of t))"
    by (simp add: integer_value_fits_def is_fixed_integer_def is_signed_integer_def integer_width_def info_is_def
        numeric_info_def simple_def)
  then show ?thesis using integer_value_fits_correct [OF fixed_integer_kind(1) [OF assms(1)] assms(2), of 0] by simp
qed

lemma literal_type_in_kind:
  assumes "kind_of t = Nat_K \<or> is_fixed_integer t" "i64_range v"
  shows "integer_fits_literal_type v t \<longleftrightarrow> in_kind (kind_of t) v"
  using assms fits_in_kind [of t v] by (auto simp: integer_fits_literal_type_def in_kind_def)

section \<open>What the evaluation computes\<close>

text \<open>What the parser writes into an integer literal: the digits, and their value if it fits in 64 bits.\<close>

definition parsed_literal :: "u64 \<Rightarrow> string \<Rightarrow> bool \<Rightarrow> bool" where
  "parsed_literal v digits fits \<longleftrightarrow> (\<forall>c\<in>set digits. is_digit c) \<and> (fits \<longleftrightarrow> digits_val digits < 2 ^ 64)
     \<and> unat v = (if fits then digits_val digits else 0)"

fun all_literals :: "(u64 \<Rightarrow> string \<Rightarrow> bool \<Rightarrow> bool) \<Rightarrow> expr \<Rightarrow> bool" where
  "all_literals P (Expr _ (Integer_Expr v digits fits)) \<longleftrightarrow> P v digits fits"
| "all_literals P (Expr _ (Unary_Expr _ e)) \<longleftrightarrow> all_literals P e"
| "all_literals P (Expr _ (Binary_Expr _ l r)) \<longleftrightarrow> all_literals P l \<and> all_literals P r"
| "all_literals P (Expr _ (Call_Expr _ [Call_Arg _ _ e])) \<longleftrightarrow> all_literals P e"
| "all_literals P (Expr _ _) \<longleftrightarrow> True"

text \<open>
  The exact value over the unbounded integers, given only when it and every value on the way is in
  the range of a 64-bit integer (for a remainder, the quotient too).
\<close>

definition within64 :: "int \<Rightarrow> int option" where
  "within64 v = (if i64_range v then Some v else None)"

definition exact_binary :: "string \<Rightarrow> int \<Rightarrow> int \<Rightarrow> int option" where
  "exact_binary op a b =
     (if op = ''+'' then within64 (a + b) else if op = ''-'' then within64 (a - b) else if op = ''*'' then within64 (a * b)
      else if op = ''/'' \<and> b \<noteq> 0 then within64 (a sdiv b)
      else if op = ''%'' \<and> b \<noteq> 0 \<and> i64_range (a sdiv b) then Some (a smod b) else None)"

fun exact_integer :: "(string \<rightharpoonup> int) \<Rightarrow> expr \<Rightarrow> int option" where
  "exact_integer m (Expr _ (Integer_Expr _ digits _)) = within64 (int (digits_val digits))"
| "exact_integer m (Expr _ (Name_Expr n this_qualifier)) = (if this_qualifier then None else m n)"
| "exact_integer m (Expr _ (Unary_Expr op e)) =
     (if op = ''-'' then Option.bind (exact_integer m e) (\<lambda>v. within64 (- v)) else None)"
| "exact_integer m (Expr _ (Call_Expr callee [Call_Arg None False e])) =
     (case builtin_scalar_type callee of
        Some t \<Rightarrow> if is_fixed_integer t
          then Option.bind (exact_integer m e) (\<lambda>v. if in_kind (kind_of t) v then Some v else None) else None
      | None \<Rightarrow> None)"
| "exact_integer m (Expr _ (Binary_Expr op l r)) =
     Option.bind (exact_integer m l) (\<lambda>a. Option.bind (exact_integer m r) (exact_binary op a))"
| "exact_integer m (Expr _ _) = None"

lemma sdiv_min: "ll_min sdiv (- 1) = 9223372036854775808"
  by (simp add: signed_divide_int_def)

lemma sdiv_range:
  assumes "i64_range a" "i64_range b" "b \<noteq> 0" "\<not> (a = ll_min \<and> b = - 1)"
  shows "i64_range (a sdiv b)" "i64_range (a smod b)"
proof -
  show "i64_range (a sdiv b)"
  proof (cases "a = ll_min \<and> b < 0")
    case True
    then have "9223372036854775808 div (- b) \<le> 9223372036854775808 div 2" using assms(4) by (intro zdiv_mono2) auto
    moreover have "0 \<le> 9223372036854775808 div (- b)" using True by (simp add: pos_imp_zdiv_nonneg_iff)
    moreover have "a sdiv b = 9223372036854775808 div (- b)" using True by (simp add: signed_divide_int_def)
    ultimately show ?thesis by simp
  next
    case False
    show ?thesis
    proof (cases "a = ll_min")
      case True
      then have "a sdiv b = - (9223372036854775808 div b)" "0 < b" using False assms(3) by (simp_all add: sdiv_pos)
      moreover have "9223372036854775808 div b \<le> 9223372036854775808 div 1" using \<open>0 < b\<close> by (intro zdiv_mono2) auto
      moreover have "0 \<le> 9223372036854775808 div b" using \<open>0 < b\<close> by (simp add: pos_imp_zdiv_nonneg_iff)
      ultimately show ?thesis by simp
    next
      case False
      then have "\<bar>a\<bar> \<le> ll_max" using assms(1) by auto
      then show ?thesis using sdiv_int_range [of a b] by auto
    qed
  qed
  show "i64_range (a smod b)" using smod_int_range [OF assms(3), of a] assms(2) by auto
qed

lemma exact_binary_code:
  assumes "i64_range a" "i64_range b"
  shows "(if (op = ''/'' \<or> op = ''%'') \<and> b = 0 then None
          else if (op = ''/'' \<or> op = ''%'') \<and> a = ll_min \<and> b = - 1 then None
          else if op = ''/'' then Some (a sdiv b)
          else if op = ''%'' then Some (a smod b)
          else if op = ''+'' then checked_add a b
          else if op = ''-'' then checked_sub a b
          else if op = ''*'' then checked_mul a b
          else None) = exact_binary op a b"
    and "exact_binary op a b = Some v \<Longrightarrow> i64_range v"
proof -
  have r: "i64_range (a sdiv b) \<and> i64_range (a smod b)" if "b \<noteq> 0" "\<not> (a = ll_min \<and> b = - 1)"
    using sdiv_range [OF assms that] by blast
  show "(if (op = ''/'' \<or> op = ''%'') \<and> b = 0 then None
          else if (op = ''/'' \<or> op = ''%'') \<and> a = ll_min \<and> b = - 1 then None
          else if op = ''/'' then Some (a sdiv b)
          else if op = ''%'' then Some (a smod b)
          else if op = ''+'' then checked_add a b
          else if op = ''-'' then checked_sub a b
          else if op = ''*'' then checked_mul a b
          else None) = exact_binary op a b"
  proof (cases "op = ''/'' \<or> op = ''%''")
    case True
    show ?thesis
    proof (cases "b = 0 \<or> a = ll_min \<and> b = - 1")
      case bad: True
      then show ?thesis using True sdiv_min by (auto simp: exact_binary_def within64_def)
    next
      case False
      then show ?thesis using True r by (auto simp: exact_binary_def within64_def)
    qed
  next
    case False
    then show ?thesis
      using checked_add_val [OF assms] checked_sub_val [OF assms] checked_mul_val [OF assms]
      by (simp add: exact_binary_def within64_def)
  qed
  show "i64_range v" if "exact_binary op a b = Some v"
  proof (cases "op = ''%''")
    case True
    then have b: "b \<noteq> 0" "i64_range (a sdiv b)" "v = a smod b" using that by (auto simp: exact_binary_def split: if_splits)
    then have "\<not> (a = ll_min \<and> b = - 1)" using sdiv_min by auto
    then show ?thesis using r b by blast
  next
    case False
    then show ?thesis using that by (auto simp: exact_binary_def within64_def split: if_splits)
  qed
qed

lemma within64_Some: "within64 v = Some w \<longleftrightarrow> w = v \<and> i64_range v"
  by (auto simp: within64_def)

lemma exact_integer_range:
  assumes "\<forall>n v. m n = Some v \<longrightarrow> i64_range v" "exact_integer m e = Some v"
  shows "i64_range v"
  using assms
proof (induction m e arbitrary: v rule: exact_integer.induct)
  case (2 m d n this_qualifier)
  then show ?case by (cases this_qualifier) simp_all
next
  case (3 m d op e)
  then obtain w where "within64 (- w) = Some v" by (auto simp: bind_eq_Some_conv split: if_splits)
  then show ?case by (simp add: within64_Some)
next
  case (4 m d callee e)
  then obtain t where "builtin_scalar_type callee = Some t" "is_fixed_integer t" "exact_integer m e = Some v"
    by (auto simp: bind_eq_Some_conv split: option.splits if_splits)
  then show ?case using 4 by blast
next
  case (5 m d op l r)
  obtain a b where ab: "exact_integer m l = Some a" "exact_integer m r = Some b" "exact_binary op a b = Some v"
    using 5(4) by (auto simp: bind_eq_Some_conv)
  show ?case by (rule exact_binary_code(2) [OF 5(1) [OF 5(3) ab(1)] 5(2) [OF ab(1) 5(3) ab(2)] ab(3)])
qed (simp_all add: within64_Some)

text \<open>
  C14: The constant evaluator agrees with exact integer arithmetic: on an expression whose literals fit in
  64 bits it returns the exact value, truncated division and remainder, names and conversions to
  fixed-width types included, precisely when that value and every value on the way is a 64-bit
  integer (and in the range of the type converted to), and no value otherwise; it never overflows.
\<close>

theorem constant_integer_exact:
  assumes "all_literals parsed_literal e" "all_literals (\<lambda>v digits fits. fits) e"
    and "\<forall>n v. m n = Some v \<longrightarrow> i64_range v"
  shows "constant_integer (Some m) e = exact_integer m e"
  using assms
proof (induction m e rule: exact_integer.induct)
  case (1 m d v digits fits)
  then show ?case by (simp add: parsed_literal_def within64_def)
next
  case (3 m d op e)
  then show ?case
    using exact_integer_range [OF 3(4), of e] by (cases "exact_integer m e") (simp_all add: within64_def)
next
  case (4 m d callee e)
  have "integer_value_fits v t = in_kind (kind_of t) v" if "is_fixed_integer t" "exact_integer m e = Some v" for t v
    using fits_in_kind [OF that(1)] exact_integer_range [of m e v] 4(4) that(2) by blast
  then show ?case
    using 4 by (cases "builtin_scalar_type callee"; cases "exact_integer m e"; simp)
next
  case (5 m d op l r)
  have "constant_integer (Some m) (Expr d (Binary_Expr op l r))
      = Option.bind (exact_integer m l) (\<lambda>a. Option.bind (exact_integer m r) (\<lambda>b. exact_binary op a b))"
  proof (cases "exact_integer m l = None \<or> exact_integer m r = None")
    case True
    then show ?thesis using 5 by (cases "exact_integer m l"; cases "exact_integer m r"; simp)
  next
    case False
    then obtain a b where ab: "exact_integer m l = Some a" "exact_integer m r = Some b"
      by (cases "exact_integer m l"; cases "exact_integer m r") simp_all
    then have "i64_range a" "i64_range b" using exact_integer_range [OF 5(5)] by blast+
    note exact_binary_code(1) [OF this, of op]
    then show ?thesis using 5 ab by simp
  qed
  then show ?case by simp
qed (simp_all split: option.split list.split call_arg.split)

text \<open>
  A literal that does not fit in 64 bits has the value 0 in the tree, and the evaluator does not look at
  the flag that says so: it takes such a literal for the constant 0.
\<close>

lemma oversized_literal_is_zero:
  assumes "parsed_literal v digits False"
  shows "constant_integer names (Expr d (Integer_Expr v digits False)) = Some 0"
  using assms by (simp add: parsed_literal_def)

definition sample_expr :: expr where
  "sample_expr = Expr False (Binary_Expr ''%''
     (Expr False (Unary_Expr ''-'' (Expr False (Integer_Expr 17 ''17'' True)))) (Expr False (Name_Expr ''n'' False)))"

theorem constant_integer_exact_witness:
  "constant_integer (Some [''n'' \<mapsto> 5]) sample_expr = Some (- 2)"
proof -
  have "constant_integer (Some [''n'' \<mapsto> 5]) sample_expr = exact_integer [''n'' \<mapsto> 5] sample_expr"
    by (rule constant_integer_exact)
      (simp_all add: sample_expr_def parsed_literal_def is_digit_range digits_val_def digit_val_def)
  also have "\<dots> = Some (- 2)"
    by (simp add: sample_expr_def exact_binary_def within64_def digits_val_def digit_val_def signed_divide_int_def
        signed_modulo_int_def)
  finally show ?thesis .
qed

section \<open>Literal expressions in their type\<close>

text \<open>The expressions that are evaluated in a type: literals, negation, sums, differences and products.\<close>

fun literal_expression :: "expr \<Rightarrow> bool" where
  "literal_expression (Expr _ (Integer_Expr _ _ _)) \<longleftrightarrow> True"
| "literal_expression (Expr _ (Unary_Expr op e)) \<longleftrightarrow> op = ''-'' \<and> literal_expression e"
| "literal_expression (Expr _ (Binary_Expr op l r)) \<longleftrightarrow>
     op \<in> {''+'', ''-'', ''*''} \<and> literal_expression l \<and> literal_expression r"
| "literal_expression (Expr _ _) \<longleftrightarrow> False"

text \<open>
  The exact value, given only when every value on the way is in the range of the kind; a negated literal
  is one value.
\<close>

definition within_kind :: "type_kind \<Rightarrow> int \<Rightarrow> int option" where
  "within_kind k v = (if in_kind k v then Some v else None)"

definition exact_operation :: "string \<Rightarrow> int \<Rightarrow> int \<Rightarrow> int" where
  "exact_operation op a b = (if op = ''+'' then a + b else if op = ''-'' then a - b else a * b)"

fun exact_in_kind :: "type_kind \<Rightarrow> expr \<Rightarrow> int option" where
  "exact_in_kind k (Expr _ (Integer_Expr _ digits _)) = within_kind k (int (digits_val digits))"
| "exact_in_kind k (Expr _ (Unary_Expr op (Expr _ (Integer_Expr _ digits _)))) =
     (if op = ''-'' then within_kind k (- int (digits_val digits)) else None)"
| "exact_in_kind k (Expr _ (Unary_Expr op e)) =
     (if op = ''-'' then Option.bind (exact_in_kind k e) (\<lambda>v. within_kind k (- v)) else None)"
| "exact_in_kind k (Expr _ (Binary_Expr op l r)) =
     (if op \<in> {''+'', ''-'', ''*''}
      then Option.bind (exact_in_kind k l) (\<lambda>a. Option.bind (exact_in_kind k r) (\<lambda>b. within_kind k (exact_operation op a b)))
      else None)"
| "exact_in_kind k (Expr _ _) = None"

text \<open>
  An operation leaves the range of the kind while its operands are known and in the range: a literal, a
  negation or one of the three binary operations, reached from the left through values in the range.
  No name, call or other operation leaves it.
\<close>

fun leaves_range :: "type_kind \<Rightarrow> expr \<Rightarrow> bool" where
  "leaves_range k (Expr _ (Integer_Expr _ digits _)) \<longleftrightarrow> \<not> in_kind k (int (digits_val digits))"
| "leaves_range k (Expr _ (Unary_Expr op (Expr _ (Integer_Expr _ digits _)))) \<longleftrightarrow>
     op = ''-'' \<and> \<not> in_kind k (- int (digits_val digits))"
| "leaves_range k (Expr _ (Unary_Expr op e)) \<longleftrightarrow>
     op = ''-'' \<and> (leaves_range k e \<or> (\<exists>v. exact_in_kind k e = Some v \<and> \<not> in_kind k (- v)))"
| "leaves_range k (Expr _ (Binary_Expr op l r)) \<longleftrightarrow>
     op \<in> {''+'', ''-'', ''*''} \<and>
     (leaves_range k l \<or> (\<exists>a. exact_in_kind k l = Some a \<and>
       (leaves_range k r \<or> (\<exists>b. exact_in_kind k r = Some b \<and> \<not> in_kind k (exact_operation op a b)))))"
| "leaves_range k (Expr _ _) \<longleftrightarrow> False"

lemma leaves_range_no_value: "leaves_range k e \<Longrightarrow> exact_in_kind k e = None"
  by (induction k e rule: leaves_range.induct) (auto simp: within_kind_def bind_eq_None_conv bind_eq_Some_conv split: if_splits)

text \<open>On a literal expression there is a value or an operation that leaves the range.\<close>

lemma value_or_leaves: "literal_expression e \<Longrightarrow> exact_in_kind k e = None \<longleftrightarrow> leaves_range k e"
  by (induction k e rule: leaves_range.induct) (auto simp: within_kind_def bind_eq_None_conv)

lemma exact_in_kind_literal: "exact_in_kind k e = Some v \<Longrightarrow> literal_expression e"
  by (induction k e arbitrary: v rule: exact_in_kind.induct) (auto simp: bind_eq_Some_conv split: if_splits)

lemma evaluated_val:
  assumes "i64_range a" "i64_range b" "op \<in> {''+'', ''-'', ''*''}"
  shows "evaluated op a b = (if i64_range (exact_operation op a b) then Some (exact_operation op a b) else None)"
  using assms checked_add_val [OF assms(1,2)] checked_sub_val [OF assms(1,2)] checked_mul_val [OF assms(1,2)]
  by (auto simp: evaluated_def exact_operation_def)

definition state_ok :: "qtype \<Rightarrow> expr \<Rightarrow> integer_state \<Rightarrow> bool" where
  "state_ok t e st \<longleftrightarrow>
     (case st of
        Known v \<Rightarrow> literal_expression e \<and> exact_in_kind (kind_of t) e = Some v \<and> i64_range v
      | Out_Of_Type_Range \<Rightarrow> leaves_range (kind_of t) e
      | Unknown \<Rightarrow> kind_of t \<in> {Nat_K, Nat64_K, Int64_K} \<or> \<not> literal_expression e
          \<or> \<not> all_literals (\<lambda>v digits fits. int (digits_val digits) \<le> ll_max) e)"

lemma exact_unary:
  "literal_of e = None \<Longrightarrow>
    exact_in_kind k (Expr d (Unary_Expr ''-'' e)) = Option.bind (exact_in_kind k e) (\<lambda>v. within_kind k (- v))"
  by (cases e; rename_tac x y; case_tac y) (simp_all add: literal_of_def)

lemma leaves_unary:
  "literal_of e = None \<Longrightarrow> leaves_range k e \<Longrightarrow> leaves_range k (Expr d (Unary_Expr ''-'' e))"
  by (cases e; rename_tac x y; case_tac y) (simp_all add: literal_of_def)

lemma literal_ofE:
  assumes "literal_of e = Some (v, fits)"
  obtains d digits where "e = Expr d (Integer_Expr v digits fits)"
  using assms by (cases e; rename_tac x y; case_tac y) (simp_all add: literal_of_def)

lemma known_state:
  assumes t: "kind_of t = Nat_K \<or> is_fixed_integer t" and v: "i64_range v"
    and e: "literal_expression e" "exact_in_kind (kind_of t) e = within_kind (kind_of t) v"
  shows "state_ok t e (known_in_type v t)"
  using literal_type_in_kind [OF t v] e v value_or_leaves [OF e(1), of "kind_of t"]
  by (auto simp: state_ok_def known_in_type_def within_kind_def)

text \<open>Beyond 64 bits is beyond every signed type, and every type narrower than 64 bits.\<close>

lemma kind_limits:
  "list_all (\<lambda>n. width n \<noteq> 0 \<and> (family n = Integer \<or> family n = Natural) \<longrightarrow>
     (in_kind (nk_kind n) ll_min \<longrightarrow> nk_kind n = Int64_K)
     \<and> (family n = Natural \<and> \<not> width n < 64 \<longrightarrow> nk_kind n = Nat64_K)) numeric_kinds"
  by code_simp

lemma narrow_kind:
  assumes "kind_of t = Nat_K \<or> is_fixed_integer t"
  shows "is_signed_integer t \<or> is_fixed_integer t \<and> integer_width t < 64 \<Longrightarrow> in_kind (kind_of t) v \<Longrightarrow> i64_range v"
    and "\<not> (is_signed_integer t \<or> is_fixed_integer t \<and> integer_width t < 64) \<Longrightarrow> kind_of t \<in> {Nat_K, Nat64_K}"
    and "in_kind (kind_of t) ll_min \<Longrightarrow> kind_of t \<in> {Nat_K, Int64_K}"
proof -
  have sg: "is_signed_integer t \<Longrightarrow> is_fixed_integer t"
    by (auto simp: is_signed_integer_def is_fixed_integer_def info_is_def split: option.splits)
  then show "i64_range v" if "is_signed_integer t \<or> is_fixed_integer t \<and> integer_width t < 64" "in_kind (kind_of t) v"
    using fixed_integer_kind(2) [of t v] that by blast
  have wide: "kind_of t \<in> {Nat64_K}" if w: "is_fixed_integer t" "\<not> is_signed_integer t" "\<not> integer_width t < 64"
  proof -
    obtain n where n: "numeric_info t = Some n" "nk_kind n = kind_of t" "width n \<noteq> 0" "family n = Integer \<or> family n = Natural"
        "n \<in> set numeric_kinds" using fixed_integer_row [OF w(1)] .
    then have "family n = Natural" "\<not> width n < 64"
      using w by (auto simp: is_signed_integer_def info_is_def integer_width_def)
    then show ?thesis using kind_limits n unfolding list_all_iff by auto
  qed
  show "kind_of t \<in> {Nat_K, Nat64_K}" if "\<not> (is_signed_integer t \<or> is_fixed_integer t \<and> integer_width t < 64)"
    using assms wide that by blast
  show "kind_of t \<in> {Nat_K, Int64_K}" if "in_kind (kind_of t) ll_min"
  proof (cases "is_fixed_integer t")
    case True
    obtain n where "nk_kind n = kind_of t" "width n \<noteq> 0" "family n = Integer \<or> family n = Natural" "n \<in> set numeric_kinds"
      using fixed_integer_row [OF True] by metis
    then show ?thesis using kind_limits that unfolding list_all_iff by auto
  qed (use assms in simp)
qed

lemma exact_in_kind_in: "exact_in_kind k e = Some v \<Longrightarrow> in_kind k v"
  by (induction k e rule: exact_in_kind.induct) (auto simp: within_kind_def bind_eq_Some_conv split: if_splits)

lemma state_not_known:
  assumes "state_ok t e st" "\<And>v. st \<noteq> Known v"
    and "literal_expression e' \<Longrightarrow> literal_expression e"
    and "all_literals (\<lambda>v digits fits. int (digits_val digits) \<le> ll_max) e' \<Longrightarrow>
      all_literals (\<lambda>v digits fits. int (digits_val digits) \<le> ll_max) e"
    and "leaves_range (kind_of t) e \<Longrightarrow> leaves_range (kind_of t) e'"
  shows "state_ok t e' st"
  using assms by (cases st) (auto simp: state_ok_def)

lemma literal_state:
  assumes t: "kind_of t = Nat_K \<or> is_fixed_integer t" and p: "parsed_literal v digits fits"
    and e: "literal_expression e" "exact_in_kind (kind_of t) e = within_kind (kind_of t) (s * int (digits_val digits))"
    and s: "s = 1 \<or> s = - 1"
    and all: "all_literals (\<lambda>v digits fits. int (digits_val digits) \<le> ll_max) e \<Longrightarrow> int (digits_val digits) \<le> ll_max"
  shows "state_ok t e (if \<not> fits \<or> int (unat v) > ll_max then Unknown else known_in_type (s * int (unat v)) t)"
proof (cases "\<not> fits \<or> int (unat v) > ll_max")
  case True
  then have "\<not> int (digits_val digits) \<le> ll_max" using p by (auto simp: parsed_literal_def)
  then show ?thesis using True all by (auto simp: state_ok_def)
next
  case False
  then have v: "int (unat v) = int (digits_val digits)" using p by (simp add: parsed_literal_def)
  have "state_ok t e (known_in_type (s * int (unat v)) t)"
    using False s e unfolding v by (intro known_state [OF t]) auto
  then show ?thesis using False by simp
qed

lemma unary_state:
  assumes t: "kind_of t = Nat_K \<or> is_fixed_integer t" and lit: "literal_of operand = None"
    and IH: "state_ok t operand st"
  shows "state_ok t (Expr d (Unary_Expr ''-'' operand))
    (case st of Known v \<Rightarrow> if v = ll_min then Unknown else known_in_type (- v) t | state \<Rightarrow> state)"
proof (cases "\<exists>v. st = Known v")
  case True
  then obtain v where v: "st = Known v" by blast
  have o: "literal_expression operand" "exact_in_kind (kind_of t) operand = Some v" "i64_range v"
    using IH unfolding v by (simp_all add: state_ok_def)
  show ?thesis
  proof (cases "v = ll_min")
    case True
    then have "kind_of t \<in> {Nat_K, Int64_K}" using narrow_kind(3) [OF t] exact_in_kind_in [OF o(2)] by simp
    then show ?thesis using True unfolding v by (auto simp: state_ok_def)
  next
    case False
    have "state_ok t (Expr d (Unary_Expr ''-'' operand)) (known_in_type (- v) t)"
      using o False by (intro known_state [OF t]) (auto simp: exact_unary [OF lit])
    then show ?thesis using False unfolding v by simp
  qed
next
  case False
  then have "state_ok t (Expr d (Unary_Expr ''-'' operand)) st"
    by (intro state_not_known [OF IH]) (auto simp: leaves_unary [OF lit])
  then show ?thesis using False by (cases st) simp_all
qed

lemma binary_state:
  assumes t: "kind_of t = Nat_K \<or> is_fixed_integer t" and op: "op \<in> {''+'', ''-'', ''*''}"
    and l: "state_ok t l (Known a)" and r: "state_ok t r (Known b)"
  shows "state_ok t (Expr d (Binary_Expr op l r))
    (case evaluated op a b of
       None \<Rightarrow> if is_signed_integer t \<or> is_fixed_integer t \<and> integer_width t < 64 then Out_Of_Type_Range else Unknown
     | Some v \<Rightarrow> known_in_type v t)"
proof -
  have ab: "literal_expression l" "exact_in_kind (kind_of t) l = Some a" "i64_range a"
    "literal_expression r" "exact_in_kind (kind_of t) r = Some b" "i64_range b"
    using l r by (simp_all add: state_ok_def)
  let ?v = "exact_operation op a b"
  have ex: "exact_in_kind (kind_of t) (Expr d (Binary_Expr op l r)) = within_kind (kind_of t) ?v" using ab op by simp
  have lit: "literal_expression (Expr d (Binary_Expr op l r))" using ab op by simp
  have leaves: "leaves_range (kind_of t) (Expr d (Binary_Expr op l r)) \<longleftrightarrow> \<not> in_kind (kind_of t) ?v"
    using value_or_leaves [OF lit, of "kind_of t"] unfolding ex
    by (simp add: within_kind_def del: leaves_range.simps split: if_splits)
  show ?thesis
  proof (cases "i64_range ?v")
    case True
    then show ?thesis using known_state [OF t True lit ex] evaluated_val [OF ab(3,6) op] by simp
  next
    case False
    then show ?thesis
      using evaluated_val [OF ab(3,6) op] narrow_kind(1) [OF t, of ?v] narrow_kind(2) [OF t] leaves
      by (auto simp: state_ok_def simp del: leaves_range.simps)
  qed
qed

text \<open>
  C15: The evaluation of an expression in a fixed-width type or \<open>nat\<close>: a known value is the exact value of
  a literal expression, with every intermediate value in the range of the type; the answer that the
  range is left is given only when some literal, negation, sum, difference or product of the
  expression leaves it while its operands are known and in the range, so never for a name, a call or
  another operation; and the evaluator gives up only on other expressions, on literals beyond 63 bits,
  and for \<open>nat\<close> and the two 64-bit types.
\<close>

theorem integer_in_type_correct:
  assumes "kind_of t = Nat_K \<or> is_fixed_integer t" "all_literals parsed_literal e"
  shows "state_ok t e (integer_in_type e t)"
  using assms
proof (induction e t rule: integer_in_type.induct)
  case (1 d v digits fits t)
  then show ?case
    using literal_state [OF 1(1), where v = v and digits = digits and fits = fits and e = "Expr d (Integer_Expr v digits fits)" and s = 1]
    by auto
next
  case (2 d op operand t)
  show ?case
  proof (cases "op = ''-''")
    case minus: True
    show ?thesis
    proof (cases "literal_of operand")
      case None
      have "state_ok t operand (integer_in_type operand t)" using 2 minus None by auto
      from unary_state [OF 2(2) None this, of d] show ?thesis using 2(2) minus None by auto
    next
      case (Some vf)
      then obtain v fits where vf: "literal_of operand = Some (v, fits)" by (cases vf) simp
      then obtain d' digits where o: "operand = Expr d' (Integer_Expr v digits fits)" by (rule literal_ofE)
      show ?thesis
        using 2(2,3) minus literal_state [OF 2(2), where v = v and digits = digits and fits = fits and e = "Expr d (Unary_Expr op operand)" and s = "- 1"]
        unfolding o
        by (auto simp: literal_of_def)
    qed
  qed (simp add: state_ok_def)
next
  case (3 d op l r t)
  let ?e = "Expr d (Binary_Expr op l r)"
  have g: "\<not> (kind_of t \<noteq> Nat_K \<and> \<not> is_fixed_integer t)" using 3(3) by simp
  show ?case
  proof (cases "op \<in> {''+'', ''-'', ''*''}")
    case op: True
    then have o: "\<not> (op \<noteq> ''+'' \<and> op \<noteq> ''-'' \<and> op \<noteq> ''*'')" by auto
    have L: "state_ok t l (integer_in_type l t)" using 3(1) [OF g o] 3(3,4) by simp
    show ?thesis
    proof (cases "\<exists>a. integer_in_type l t = Known a")
      case True
      then obtain a where a: "integer_in_type l t = Known a" by blast
      have R: "state_ok t r (integer_in_type r t)" using 3(2) [OF g o a] 3(3,4) by simp
      show ?thesis
      proof (cases "\<exists>b. integer_in_type r t = Known b")
        case True
        then obtain b where b: "integer_in_type r t = Known b" by blast
        show ?thesis using binary_state [OF 3(3) op L [unfolded a] R [unfolded b], of d] g o a b by auto
      next
        case False
        have "exact_in_kind (kind_of t) l = Some a" using L a by (simp add: state_ok_def)
        then have "state_ok t ?e (integer_in_type r t)" by (intro state_not_known [OF R]) (use False op in auto)
        then show ?thesis using False g o a by (cases "integer_in_type r t") auto
      qed
    next
      case False
      have "state_ok t ?e (integer_in_type l t)" by (rule state_not_known [OF L]) (use False op in auto)
      then show ?thesis using False g o by (cases "integer_in_type l t") auto
    qed
  qed (auto simp: state_ok_def)
qed (simp_all add: state_ok_def)

text \<open>Every literal of the sum fits in \<open>int8\<close>, and the sum does not.\<close>

theorem integer_in_type_correct_witness:
  "state_ok (simple Int8_K) (Expr False (Binary_Expr ''+'' (Expr False (Integer_Expr 100 ''100'' True))
      (Expr False (Integer_Expr 28 ''28'' True)))) Out_Of_Type_Range"
proof -
  let ?e = "Expr False (Binary_Expr ''+'' (Expr False (Integer_Expr 100 ''100'' True)) (Expr False (Integer_Expr 28 ''28'' True)))"
  have t: "kind_of (simple Int8_K) = Nat_K \<or> is_fixed_integer (simple Int8_K)" by code_simp
  have "integer_in_type ?e (simple Int8_K) = Out_Of_Type_Range" by code_simp
  moreover have "all_literals parsed_literal ?e"
    by (simp add: parsed_literal_def is_digit_range digits_val_def digit_val_def)
  ultimately show ?thesis using integer_in_type_correct [OF t, of ?e] by simp
qed

text \<open>The negation of the smallest 64-bit integer is given up, where the same difference leaves the range.\<close>

lemma negated_minimum_given_up:
  defines "low \<equiv> Expr False (Binary_Expr ''-'' (Expr False (Unary_Expr ''-'' (Expr False (Integer_Expr 9223372036854775807 ''9223372036854775807'' True))))
      (Expr False (Integer_Expr 1 ''1'' True)))"
  shows "integer_in_type (Expr False (Unary_Expr ''-'' low)) (simple Int64_K) = Unknown"
    and "integer_in_type (Expr False (Binary_Expr ''-'' (Expr False (Integer_Expr 0 ''0'' True)) low)) (simple Int64_K) = Out_Of_Type_Range"
proof -
  have t: "is_fixed_integer (simple Int64_K)" "is_signed_integer (simple Int64_K)" "integer_width (simple Int64_K) = 64"
    "kind_of (simple Int64_K) = Int64_K"
    by code_simp+
  have fits: "integer_fits_literal_type v (simple Int64_K) \<longleftrightarrow> i64_range v" for v
    using t by (auto simp: integer_fits_literal_type_def integer_value_fits_def signed_integer_min_def signed_integer_max_def)
  show "integer_in_type (Expr False (Unary_Expr ''-'' low)) (simple Int64_K) = Unknown"
    "integer_in_type (Expr False (Binary_Expr ''-'' (Expr False (Integer_Expr 0 ''0'' True)) low)) (simple Int64_K) = Out_Of_Type_Range"
    unfolding low_def by (simp_all add: t fits known_in_type_def literal_of_def evaluated_def checked_sub_def)
qed

end
