(* ===== verification/Literal_Policy.thy ===== *)
theory Literal_Policy
  imports Constant_Eval
begin

text \<open>
  The categories of numeric literal expressions and the type a context gives them
  (\<open>src/numeric_literal_policy.hpp\<close>, with the operators of \<open>src/operator_policy.hpp\<close>).
\<close>

section \<open>Operators\<close>

definition is_short_circuit :: "string \<Rightarrow> bool" where
  "is_short_circuit op \<longleftrightarrow> op = ''and'' \<or> op = ''or''"

definition is_arithmetic :: "string \<Rightarrow> bool" where
  "is_arithmetic op \<longleftrightarrow> op = ''+'' \<or> op = ''-'' \<or> op = ''*'' \<or> op = ''/'' \<or> op = ''%'' \<or> op = ''^''"

definition is_bitwise_logic :: "string \<Rightarrow> bool" where
  "is_bitwise_logic op \<longleftrightarrow> op = ''AND'' \<or> op = ''OR'' \<or> op = ''XOR''"

definition is_shift :: "string \<Rightarrow> bool" where
  "is_shift op \<longleftrightarrow> op = ''<<'' \<or> op = ''>>''"

definition is_fixed_width_bitwise_binary :: "string \<Rightarrow> bool" where
  "is_fixed_width_bitwise_binary op \<longleftrightarrow> is_bitwise_logic op \<or> is_shift op"

definition participates_in_numeric_literal_family :: "string \<Rightarrow> bool" where
  "participates_in_numeric_literal_family op \<longleftrightarrow> is_arithmetic op \<or> is_fixed_width_bitwise_binary op"

section \<open>Categories\<close>

datatype literal_category =
  No_Category | Non_Negative_Integer | Negative_Integer | Real_Category | Imaginary_Category | Complex_Category | Mixed

definition integer_category :: "literal_category \<Rightarrow> bool" where
  "integer_category c \<longleftrightarrow> c = Non_Negative_Integer \<or> c = Negative_Integer"

definition single_family_category :: "literal_category \<Rightarrow> bool" where
  "single_family_category c \<longleftrightarrow> integer_category c \<or> c = Real_Category"

definition complex_category :: "literal_category \<Rightarrow> bool" where
  "complex_category c \<longleftrightarrow> c = Imaginary_Category \<or> c = Complex_Category"

definition join_numeric_literal_categories :: "literal_category \<Rightarrow> literal_category \<Rightarrow> literal_category" where
  "join_numeric_literal_categories l r =
     (if l = No_Category \<or> r = No_Category then No_Category
      else if l = Mixed \<or> r = Mixed then Mixed
      else if integer_category l \<and> integer_category r
      then (if l = Negative_Integer \<or> r = Negative_Integer then Negative_Integer else Non_Negative_Integer)
      else if l = r then l
      else let complex_part = (\<lambda>c. c = Real_Category \<or> complex_category c)
        in if complex_part l \<and> complex_part r then Complex_Category else Mixed)"

fun numeric_literal_family :: "expr \<Rightarrow> literal_category" where
  "numeric_literal_family (Expr contextual_default_type data) =
     (if contextual_default_type then No_Category
      else case data of
        Integer_Expr _ _ _ \<Rightarrow> Non_Negative_Integer
      | Real_Literal_Expr _ \<Rightarrow> Real_Category
      | Imaginary_Literal_Expr _ _ \<Rightarrow> Imaginary_Category
      | Literal_Constant_Expr _ _ \<Rightarrow> Real_Category
      | Unary_Expr op operand \<Rightarrow>
          if op = ''-'' \<or> op = ''NOT'' then
            (let c = numeric_literal_family operand in if op = ''-'' \<and> integer_category c then Negative_Integer else c)
          else No_Category
      | Binary_Expr op l r \<Rightarrow>
          if participates_in_numeric_literal_family op
          then join_numeric_literal_categories (numeric_literal_family l) (numeric_literal_family r) else No_Category
      | If_Expr conditions vals otherwise \<Rightarrow>
          foldl join_numeric_literal_categories (numeric_literal_family otherwise) (map numeric_literal_family vals)
      | _ \<Rightarrow> No_Category)"

fun direct_numeric_literal_family :: "expr \<Rightarrow> literal_category" where
  "direct_numeric_literal_family (Expr contextual_default_type data) =
     (if contextual_default_type then No_Category
      else case data of
        Integer_Expr _ _ _ \<Rightarrow> Non_Negative_Integer
      | Real_Literal_Expr _ \<Rightarrow> Real_Category
      | Imaginary_Literal_Expr _ _ \<Rightarrow> Imaginary_Category
      | Unary_Expr op operand \<Rightarrow>
          if op = ''-'' \<or> op = ''NOT'' then
            (let c = direct_numeric_literal_family operand in if op = ''-'' \<and> integer_category c then Negative_Integer else c)
          else No_Category
      | _ \<Rightarrow> No_Category)"

section \<open>The context of a literal\<close>

record literal_context =
  context_type :: "qtype option"
  ambiguous :: bool
  opposite_family :: bool
  natural_target :: "qtype option"

definition natural_type :: "qtype \<Rightarrow> bool" where
  "natural_type = info_is (\<lambda>n. family n = Natural)"

definition context_matches :: "literal_category \<Rightarrow> qtype \<Rightarrow> bool" where
  "context_matches c t =
     (if \<not> integer_category c then is_real t
      else if \<not> is_integer_family_type t then False
      else c \<noteq> Negative_Integer \<or> \<not> natural_type t)"

definition context_opposite :: "literal_category \<Rightarrow> qtype \<Rightarrow> bool" where
  "context_opposite c t = (if integer_category c then is_real t else is_integer_family_type t)"

definition consider_type :: "literal_category \<Rightarrow> literal_context \<Rightarrow> qtype \<Rightarrow> literal_context" where
  "consider_type c r t =
     (if context_matches c t then
        (if context_type r \<noteq> None then r\<lparr>ambiguous := True\<rparr> else r\<lparr>context_type := Some t\<rparr>)
      else if context_opposite c t then r\<lparr>opposite_family := True\<rparr>
      else if integer_category c \<and> natural_type t \<and> natural_target r = None then r\<lparr>natural_target := Some t\<rparr>
      else r)"

definition numeric_literal_context :: "qtype option \<Rightarrow> literal_category \<Rightarrow> literal_context" where
  "numeric_literal_context expected c =
     (let empty = \<lparr>context_type = None, ambiguous = False, opposite_family = False, natural_target = None\<rparr>
      in case expected of
           None \<Rightarrow> empty
         | Some t \<Rightarrow>
             if \<not> single_family_category c then empty
             else if kind_of t = Union_K then foldl (consider_type c) empty (cases_of t)
             else consider_type c empty t)"

section \<open>The order of operands and branches does not matter\<close>

lemma join_commute: "join_numeric_literal_categories a b = join_numeric_literal_categories b a"
  by (cases a; cases b) (simp_all add: join_numeric_literal_categories_def integer_category_def complex_category_def)

lemma join_assoc:
  "join_numeric_literal_categories (join_numeric_literal_categories a b) c
    = join_numeric_literal_categories a (join_numeric_literal_categories b c)"
  by (cases a; cases b; cases c)
    (simp_all add: join_numeric_literal_categories_def integer_category_def complex_category_def)

lemma join_idem: "join_numeric_literal_categories a a = a"
  by (cases a) (simp_all add: join_numeric_literal_categories_def integer_category_def complex_category_def)

lemma foldl_join: "foldl join_numeric_literal_categories c cs = fold join_numeric_literal_categories cs c"
  by (induction cs arbitrary: c) (simp_all add: join_commute)

lemma family_permuted:
  assumes "mset vals = mset vals'"
  shows "numeric_literal_family (Expr d (If_Expr cs vals e)) = numeric_literal_family (Expr d (If_Expr cs' vals' e))"
proof -
  let ?j = join_numeric_literal_categories
  have "?j x \<circ> ?j y = ?j y \<circ> ?j x" for x y
    by (rule ext) (simp, metis join_assoc join_commute)
  moreover have "mset (map numeric_literal_family vals) = mset (map numeric_literal_family vals')" using assms by simp
  ultimately have "fold ?j (map numeric_literal_family vals) = fold ?j (map numeric_literal_family vals')"
    by (intro fold_multiset_equiv) simp_all
  then show ?thesis by (simp add: foldl_join)
qed

lemma family_reordered:
  assumes "participates_in_numeric_literal_family op" "participates_in_numeric_literal_family op'"
  shows "numeric_literal_family (Expr d (Binary_Expr op l r)) = numeric_literal_family (Expr d (Binary_Expr op' r l))"
    and "numeric_literal_family (Expr False (Binary_Expr op (Expr False (Binary_Expr op' a b)) c))
      = numeric_literal_family (Expr False (Binary_Expr op' a (Expr False (Binary_Expr op b c))))"
proof -
  show "numeric_literal_family (Expr d (Binary_Expr op l r)) = numeric_literal_family (Expr d (Binary_Expr op' r l))"
    using assms by simp (rule impI, rule join_commute)
  show "numeric_literal_family (Expr False (Binary_Expr op (Expr False (Binary_Expr op' a b)) c))
      = numeric_literal_family (Expr False (Binary_Expr op' a (Expr False (Binary_Expr op b c))))"
    using assms by simp (rule join_assoc)
qed

section \<open>What the context chooses\<close>

lemma consider_type_loop:
  "context_type (foldl (consider_type c) r ts) =
     (case context_type r of Some t \<Rightarrow> Some t | None \<Rightarrow> find (context_matches c) ts)"
  by (induction ts arbitrary: r) (auto simp: consider_type_def split: option.split)

lemma consider_ambiguous_loop:
  "ambiguous (foldl (consider_type c) r ts) \<longleftrightarrow>
     ambiguous r \<or> (if context_type r = None then 2 else 1) \<le> length (filter (context_matches c) ts)"
proof (induction ts arbitrary: r)
  case (Cons t ts)
  show ?case unfolding foldl.simps Cons by (cases "context_type r") (simp_all add: consider_type_def)
qed simp

lemma consider_opposite_loop:
  "opposite_family (foldl (consider_type c) r ts) \<longleftrightarrow>
     opposite_family r \<or> (\<exists>t\<in>set ts. \<not> context_matches c t \<and> context_opposite c t)"
  by (induction ts arbitrary: r) (auto simp: consider_type_def)

lemma consider_natural_loop:
  "natural_target (foldl (consider_type c) r ts) =
     (case natural_target r of Some t \<Rightarrow> Some t | None \<Rightarrow>
        find (\<lambda>t. \<not> context_matches c t \<and> \<not> context_opposite c t \<and> integer_category c \<and> natural_type t) ts)"
  by (induction ts arbitrary: r) (auto simp: consider_type_def split: option.split)

lemmas consider_loop = consider_type_loop consider_ambiguous_loop consider_opposite_loop consider_natural_loop

section \<open>What a literal is\<close>

text \<open>
  The leaves of a literal expression, read from the top: a leaf counts as negative below a minus sign.
  There are none where some part is no literal.
\<close>

fun literal_leaves :: "bool \<Rightarrow> expr \<Rightarrow> literal_category set option" where
  "literal_leaves negated (Expr contextual_default_type data) =
     (if contextual_default_type then None
      else case data of
        Integer_Expr _ _ _ \<Rightarrow> Some {if negated then Negative_Integer else Non_Negative_Integer}
      | Real_Literal_Expr _ \<Rightarrow> Some {Real_Category}
      | Literal_Constant_Expr _ _ \<Rightarrow> Some {Real_Category}
      | Imaginary_Literal_Expr _ _ \<Rightarrow> Some {Imaginary_Category}
      | Unary_Expr op e \<Rightarrow>
          if op = ''-'' then literal_leaves True e else if op = ''NOT'' then literal_leaves negated e else None
      | Binary_Expr op l r \<Rightarrow>
          if op \<in> {''+'', ''-'', ''*'', ''/'', ''%'', ''^'', ''AND'', ''OR'', ''XOR'', ''<<'', ''>>''}
          then Option.bind (literal_leaves negated l) (\<lambda>a. map_option ((\<union>) a) (literal_leaves negated r)) else None
      | If_Expr _ vals otherwise \<Rightarrow>
          if None \<in> set (map (literal_leaves negated) (otherwise # vals)) then None
          else Some (\<Union> (the ` set (map (literal_leaves negated) (otherwise # vals))))
      | _ \<Rightarrow> None)"

text \<open>
  Integers make an integer, negative when some leaf is; reals make a real, imaginary leaves an imaginary
  literal, both together a complex literal; integers do not combine with the others.
\<close>

definition category_of :: "literal_category set \<Rightarrow> literal_category" where
  "category_of S =
     (let integers = Non_Negative_Integer \<in> S \<or> Negative_Integer \<in> S; others = Real_Category \<in> S \<or> Imaginary_Category \<in> S
      in if integers \<and> others then Mixed
         else if integers then (if Negative_Integer \<in> S then Negative_Integer else Non_Negative_Integer)
         else if Imaginary_Category \<notin> S then Real_Category
         else if Real_Category \<in> S then Complex_Category
         else Imaginary_Category)"

definition leaf_set :: "literal_category set \<Rightarrow> bool" where
  "leaf_set S \<longleftrightarrow>
     Non_Negative_Integer \<in> S \<or> Negative_Integer \<in> S \<or> Real_Category \<in> S \<or> Imaginary_Category \<in> S"

lemma category_of_join:
  "leaf_set S \<Longrightarrow> leaf_set T \<Longrightarrow>
    leaf_set (S \<union> T) \<and> category_of (S \<union> T) = join_numeric_literal_categories (category_of S) (category_of T)"
  unfolding leaf_set_def category_of_def Let_def Un_iff join_numeric_literal_categories_def integer_category_def complex_category_def
  by (cases "Negative_Integer \<in> S"; cases "Real_Category \<in> S"; cases "Imaginary_Category \<in> S";
      cases "Negative_Integer \<in> T"; cases "Real_Category \<in> T"; cases "Imaginary_Category \<in> T") simp_all

text \<open>A minus sign above a whole expression.\<close>

definition under_minus :: "bool \<Rightarrow> literal_category \<Rightarrow> literal_category" where
  "under_minus negated c = (if negated \<and> integer_category c then Negative_Integer else c)"

lemma under_minus_join:
  "join_numeric_literal_categories (under_minus b c) (under_minus b d) = under_minus b (join_numeric_literal_categories c d)"
  by (cases b; cases c; cases d)
    (simp_all add: under_minus_def join_numeric_literal_categories_def integer_category_def complex_category_def)

lemma join_none [simp]:
  "join_numeric_literal_categories No_Category c = No_Category" "join_numeric_literal_categories c No_Category = No_Category"
  by (simp_all add: join_numeric_literal_categories_def)

lemma foldl_join_none: "No_Category \<in> insert c (set cs) \<Longrightarrow> foldl join_numeric_literal_categories c cs = No_Category"
  by (induction cs arbitrary: c) auto

definition leaves_agree :: "bool \<Rightarrow> expr \<Rightarrow> bool" where
  "leaves_agree b e \<longleftrightarrow>
     (case literal_leaves b e of
        None \<Rightarrow> numeric_literal_family e = No_Category
      | Some S \<Rightarrow> leaf_set S \<and> category_of S = under_minus b (numeric_literal_family e))"

lemma branches_agree:
  assumes "\<forall>e\<in>set es. leaves_agree b e" "None \<notin> literal_leaves b ` set es" "leaf_set A" "category_of A = under_minus b c"
  shows "leaf_set (A \<union> \<Union> (the ` literal_leaves b ` set es))
    \<and> category_of (A \<union> \<Union> (the ` literal_leaves b ` set es))
      = under_minus b (foldl join_numeric_literal_categories c (map numeric_literal_family es))"
  using assms
proof (induction es arbitrary: A c)
  case (Cons e es)
  obtain S where S: "literal_leaves b e = Some S" using Cons.prems(2) by (cases "literal_leaves b e") auto
  then have e: "leaf_set S" "category_of S = under_minus b (numeric_literal_family e)"
    using Cons.prems(1) by (simp_all add: leaves_agree_def)
  have "A \<union> \<Union> (the ` literal_leaves b ` set (e # es)) = (A \<union> S) \<union> \<Union> (the ` literal_leaves b ` set es)"
    using S by auto
  moreover have "category_of (A \<union> S) = under_minus b (join_numeric_literal_categories c (numeric_literal_family e))"
    using category_of_join [OF Cons.prems(3) e(1)] Cons.prems(4) e(2) by (simp add: under_minus_join)
  ultimately show ?case
    using Cons.IH [of "A \<union> S" "join_numeric_literal_categories c (numeric_literal_family e)"]
      category_of_join [OF Cons.prems(3) e(1)] Cons.prems(1,2) by auto
qed simp

lemma operators: "participates_in_numeric_literal_family op \<longleftrightarrow>
    op \<in> {''+'', ''-'', ''*'', ''/'', ''%'', ''^'', ''AND'', ''OR'', ''XOR'', ''<<'', ''>>''}"
  by (auto simp: participates_in_numeric_literal_family_def is_arithmetic_def is_fixed_width_bitwise_binary_def
      is_bitwise_logic_def is_shift_def)

lemma family_leaves: "leaves_agree b e"
proof (induction b e rule: literal_leaves.induct)
  case (1 b d data)
  show ?case
  proof (cases d)
    case False
    show ?thesis
    proof (cases data)
      case (Unary_Expr op e)
      then show ?thesis using 1(1,2) [OF False Unary_Expr] False
        by (auto simp: leaves_agree_def under_minus_def Let_def integer_category_def split: option.splits)
    next
      case (Binary_Expr op l r)
      show ?thesis
      proof (cases "participates_in_numeric_literal_family op")
        case True
        then have op: "op \<in> {''+'', ''-'', ''*'', ''/'', ''%'', ''^'', ''AND'', ''OR'', ''XOR'', ''<<'', ''>>''}"
          by (simp only: operators)
        have code: "numeric_literal_family (Expr d data)
            = join_numeric_literal_categories (numeric_literal_family l) (numeric_literal_family r)"
          using Binary_Expr \<open>\<not> d\<close> True by simp
        have spec: "literal_leaves b (Expr d data) = Option.bind (literal_leaves b l) (\<lambda>a. map_option ((\<union>) a) (literal_leaves b r))"
          unfolding Binary_Expr literal_leaves.simps [of b d "Binary_Expr op l r"] expr_data.case if_not_P [OF \<open>\<not> d\<close>] if_P [OF op] by (rule refl)
        have L: "leaves_agree b l" by (rule 1(3) [OF \<open>\<not> d\<close> Binary_Expr op])
        show ?thesis
        proof (cases "literal_leaves b l")
          case None
          then show ?thesis using L unfolding leaves_agree_def code spec by simp
        next
          case (Some A)
          have "leaves_agree b r" by (rule 1(4) [OF \<open>\<not> d\<close> Binary_Expr op Some])
          then show ?thesis
            using L Some unfolding leaves_agree_def code spec
            by (cases "literal_leaves b r") (simp_all add: category_of_join under_minus_join)
        qed
      next
        case False
        then show ?thesis using Binary_Expr \<open>\<not> d\<close> by (simp add: leaves_agree_def operators)
      qed
    next
      case (If_Expr conds vals otherwise)
      let ?L = "literal_leaves b"
      have IH: "\<forall>e\<in>set (otherwise # vals). leaves_agree b e" using 1(5) False If_Expr by auto
      have code: "numeric_literal_family (Expr d data)
          = foldl join_numeric_literal_categories (numeric_literal_family otherwise) (map numeric_literal_family vals)"
        using False If_Expr by simp
      show ?thesis
      proof (cases "None \<in> ?L ` set (otherwise # vals)")
        case True
        then have "No_Category \<in> insert (numeric_literal_family otherwise) (set (map numeric_literal_family vals))"
          using IH by (force simp: leaves_agree_def split: option.splits)
        then show ?thesis
          using True False If_Expr unfolding leaves_agree_def code foldl_join_none [OF \<open>No_Category \<in> _\<close>] by simp
      next
        case none: False
        then obtain A where A: "?L otherwise = Some A" by (cases "?L otherwise") auto
        have "leaf_set A" "category_of A = under_minus b (numeric_literal_family otherwise)"
          using IH A by (simp_all add: leaves_agree_def)
        from branches_agree [OF _ _ this, of vals] show ?thesis
          using IH none A False If_Expr unfolding leaves_agree_def [of b "Expr d data"] code by simp
      qed
    qed (use False in \<open>simp_all add: leaves_agree_def leaf_set_def category_of_def under_minus_def integer_category_def\<close>)
  qed (simp add: leaves_agree_def)
qed

section \<open>The types of a family\<close>

definition int_type_kinds :: "type_kind set" where
  "int_type_kinds = {Int_K, Int8_K, Int16_K, Int32_K, Int64_K}"

definition nat_type_kinds :: "type_kind set" where
  "nat_type_kinds = {Nat_K, Nat8_K, Nat16_K, Nat32_K, Nat64_K}"

definition real_type_kinds :: "type_kind set" where
  "real_type_kinds = {Real_K, Real16_K, Real16b_K, Real32_K, Real64_K}"

definition literal_kinds :: "literal_category \<Rightarrow> type_kind set" where
  "literal_kinds c = (case c of Non_Negative_Integer \<Rightarrow> int_type_kinds \<union> nat_type_kinds | Negative_Integer \<Rightarrow> int_type_kinds | _ \<Rightarrow> real_type_kinds)"

lemma kinds_by_family:
  "is_real t \<longleftrightarrow> kind_of t \<in> real_type_kinds" "natural_type t \<longleftrightarrow> kind_of t \<in> nat_type_kinds"
  "is_integer_family_type t \<longleftrightarrow> kind_of t \<in> int_type_kinds \<union> nat_type_kinds"
  by (cases "kind_of t"; simp add: is_real_def natural_type_def is_integer_family_type_def info_is_def numeric_info_def
      numeric_kind_info_def numeric_kinds_def row_def real_type_kinds_def nat_type_kinds_def int_type_kinds_def)+

lemma context_kinds:
  assumes "single_family_category c"
  shows "context_matches c t \<longleftrightarrow> kind_of t \<in> literal_kinds c"
    and "context_opposite c t \<longleftrightarrow> kind_of t \<in> (if c = Real_Category then int_type_kinds \<union> nat_type_kinds else real_type_kinds)"
  using assms by (cases c; auto simp: context_matches_def context_opposite_def kinds_by_family literal_kinds_def
      single_family_category_def integer_category_def int_type_kinds_def nat_type_kinds_def)+

text \<open>
  C39: The category of an expression and the type its context gives it. An expression is a literal
  exactly when all its leaves are, and its category is that of the set of its leaves, whatever their
  order and nesting, where a leaf below a minus sign is negative. A literal of an integer or real
  category takes, from an expected union, the first case of its kinds: \<open>int\<close> and \<open>nat\<close> types for a
  non-negative integer, \<open>int\<close> types only for a negative one, real types for a real; there is an
  ambiguity exactly when a second case has such a kind; the cases of the other family are noted, and
  the first \<open>nat\<close> type a negative literal cannot take. Any other expected type counts as its only case.
\<close>

theorem literal_policy_correct:
  assumes c: "single_family_category c" and cs: "ts = (if kind_of t = Union_K then cases_of t else [t])"
  shows "numeric_literal_family e = (case literal_leaves False e of None \<Rightarrow> No_Category | Some S \<Rightarrow> category_of S)
    \<and> context_type (numeric_literal_context (Some t) c) = find (\<lambda>t. kind_of t \<in> literal_kinds c) ts
    \<and> ambiguous (numeric_literal_context (Some t) c) = (2 \<le> length (filter (\<lambda>t. kind_of t \<in> literal_kinds c) ts))
    \<and> opposite_family (numeric_literal_context (Some t) c)
      = (\<exists>t\<in>set ts. kind_of t \<in> (if c = Real_Category then int_type_kinds \<union> nat_type_kinds else real_type_kinds))
    \<and> natural_target (numeric_literal_context (Some t) c) = find (\<lambda>t. c = Negative_Integer \<and> kind_of t \<in> nat_type_kinds) ts"
proof (intro conjI)
  show "numeric_literal_family e = (case literal_leaves False e of None \<Rightarrow> No_Category | Some S \<Rightarrow> category_of S)"
    using family_leaves [of False e] by (simp add: leaves_agree_def under_minus_def split: option.splits)
  define empty where "empty = \<lparr>context_type = None, ambiguous = False, opposite_family = False, natural_target = None\<rparr>"
  have ctx: "numeric_literal_context (Some t) c = foldl (consider_type c) empty ts"
    using c cs by (simp add: numeric_literal_context_def empty_def)
  note kinds = context_kinds [OF c]
  show "context_type (numeric_literal_context (Some t) c) = find (\<lambda>t. kind_of t \<in> literal_kinds c) ts"
    unfolding ctx consider_loop kinds by (simp add: empty_def)
  show "ambiguous (numeric_literal_context (Some t) c) = (2 \<le> length (filter (\<lambda>t. kind_of t \<in> literal_kinds c) ts))"
    unfolding ctx consider_loop kinds by (simp add: empty_def)
  have apart: "kind_of u \<notin> literal_kinds c \<and> kind_of u \<in> (if c = Real_Category then int_type_kinds \<union> nat_type_kinds else real_type_kinds)
      \<longleftrightarrow> kind_of u \<in> (if c = Real_Category then int_type_kinds \<union> nat_type_kinds else real_type_kinds)" for u
    using c by (cases c) (auto simp: literal_kinds_def int_type_kinds_def nat_type_kinds_def real_type_kinds_def single_family_category_def integer_category_def)
  show "opposite_family (numeric_literal_context (Some t) c)
      = (\<exists>t\<in>set ts. kind_of t \<in> (if c = Real_Category then int_type_kinds \<union> nat_type_kinds else real_type_kinds))"
    unfolding ctx consider_loop kinds apart by (simp add: empty_def)
  have "(\<not> context_matches c u \<and> \<not> context_opposite c u \<and> integer_category c \<and> natural_type u)
      = (c = Negative_Integer \<and> kind_of u \<in> nat_type_kinds)" for u
    using c unfolding kinds kinds_by_family
    by (cases c) (auto simp: literal_kinds_def int_type_kinds_def nat_type_kinds_def real_type_kinds_def single_family_category_def integer_category_def)
  then show "natural_target (numeric_literal_context (Some t) c) = find (\<lambda>t. c = Negative_Integer \<and> kind_of t \<in> nat_type_kinds) ts"
    unfolding ctx consider_loop by (simp add: empty_def)
qed

text \<open>\<open>-(1 + 2)\<close> is a negative integer, and expecting \<open>nat8 | int8 | int16\<close> leaves it two types.\<close>

theorem literal_policy_correct_witness:
  "ambiguous (numeric_literal_context (Some (union_of [simple Nat8_K, simple Int8_K, simple Int16_K])) Negative_Integer)
    \<and> numeric_literal_family (Expr False (Unary_Expr ''-'' (Expr False (Binary_Expr ''+''
        (Expr False (Integer_Expr 1 ''1'' True)) (Expr False (Integer_Expr 2 ''2'' True)))))) = Negative_Integer"
proof -
  let ?t = "union_of [simple Nat8_K, simple Int8_K, simple Int16_K]"
  let ?e = "Expr False (Unary_Expr ''-'' (Expr False (Binary_Expr ''+''
        (Expr False (Integer_Expr 1 ''1'' True)) (Expr False (Integer_Expr 2 ''2'' True)))))"
  have u: "kind_of ?t = Union_K" "length (filter (\<lambda>t. kind_of t \<in> literal_kinds Negative_Integer) (cases_of ?t)) = 2"
    by code_simp+
  have e: "literal_leaves False ?e = Some {Negative_Integer}" by simp
  have "single_family_category Negative_Integer" by code_simp
  note policy = literal_policy_correct [OF this refl, of ?e ?t]
  show ?thesis using policy u unfolding e by (simp add: category_of_def)
qed

end
