(* ===== verification/Spec2Isabelle.thy ===== *)
theory Spec2Isabelle
  imports Int_Word Lexer Slice_Plan Tensor_View Type_Layout Node_Progress Json_Text Json_Grammar Sha256 Storage_Path Ieee_Fast
    Literal_Policy
begin

text \<open>
  This library models the parts of the Quidra compiler and runtime that carry their own computation and
  state, and proves what makes them correct. File names are those under \<open>src/\<close> and
  \<open>include/quidra/\<close> of the repository.

  \<^bold>\<open>The program.\<close> The lexer turns a source file into tokens; the parser, checker and semantic analyses
  build a typed tree, using the rules for types, tensor extents, slices, numeric literals and storage
  paths; lowering, the optimizer and the LLVM backend produce code, whose runtime computes with
  arbitrary-precision integers, checks tensor views and runs the nodes of parallel blocks. The package
  tools and the run cache read strict JSON and hash files. The theories follow these parts; a theory
  imports those of the parts the code calls.

  \<^bold>\<open>Integers of the runtime\<close> (\<open>src/runtime_integer.cpp\<close>).
  \<^item> \<open>Big_Integer\<close>, \<open>Big_Integer_Mul\<close>, \<open>Big_Integer_Text\<close>: \<open>struct BigInt\<close>, a sign and limbs in base
    \<open>10 ^ 9\<close>; its arithmetic loop by loop on 32- and 64-bit words, division by binary search of each
    quotient limb, text, parsing and the boxed entry points \<open>quidra_bigint_*\<close>. The lemmas relate every
    operation to the integer \<open>bi_val\<close> and keep the canonical form \<open>bi_ok\<close>.
  \<^item> \<open>Int_Word\<close>: the 64-bit word of generated code, an inline value or a tagged pointer into an
    explicit heap of boxes, and the entry points \<open>quidra_int_*\<close>: the value of the result depends only on
    the values of the operands, the result is canonical, and each failure happens exactly when it
    should. Reference counts are not modelled: a box stays in the heap.
  \<^item> \<open>Exact_Ring\<close>: the interface of an exact integer type, interpreted by \<open>BigInt\<close> and by the
    decimal-text coefficients of the compiler.

  \<^bold>\<open>Source text\<close> (\<open>src/lexer.cpp\<close>, \<open>token.hpp\<close>, \<open>diagnostic.hpp\<close>).
  \<^item> \<open>Utf8\<close>: the byte check, which accepts exactly the encodings of scalar values, and source positions.
  \<^item> \<open>Lexer\<close>: the cursor over the bytes, each token class, the layout pass with its indentation
    stack, and \<open>scan\<close>. Tokens tile the source, indentation is balanced, errors carry their place.

  \<^bold>\<open>Types, extents and slices.\<close>
  \<^item> \<open>Shape_Coefficient\<close>, \<open>Shape_Extent\<close> (\<open>shape_coefficient.hpp\<close>, \<open>shape_extent.hpp\<close>): polynomials over
    extent symbols with coefficients kept as decimal text; canonical texts decide equality of the
    polynomials, and arithmetic and substitution evaluate correctly.
  \<^item> \<open>Slice_Plan\<close> (\<open>slice_form.hpp\<close>, \<open>slice_bounds.hpp\<close>): the text and the resolution of a slice, with
    \<open>int64\<close> arithmetic whose every step is shown to stay in range.
  \<^item> \<open>Tensor_View\<close> (\<open>src/tensor_view_bounds.hpp\<close>): storage indices, with the unsigned arithmetic and its
    overflow tests written out; an accepted view has no element outside its storage.
  \<^item> \<open>Numeric_Types\<close>, \<open>Types\<close>, \<open>Type_Rules\<close>, \<open>Type_Conversions\<close>, \<open>Type_Layout\<close> (\<open>numeric_types.hpp\<close>,
    \<open>type_kind.hpp\<close>, \<open>types.hpp\<close>, \<open>abi/dtype.hpp\<close>): the tables of numeric kinds, the record of a type,
    identity, unions, assignability, conversions and the layout of tuples. Identity is equality of what
    is left when flow facts are erased, assignability the relation \<open>fits\<close>.
  \<^item> \<open>Storage_Path\<close> (\<open>src/semantics/storage_path.cpp\<close>): which paths can denote overlapping storage.

  \<^bold>\<open>Constants and literals.\<close>
  \<^item> \<open>Constant_Eval\<close> (\<open>src/constant_integer_eval.hpp\<close>): the value of integer expressions at compile time
    and of literal expressions in a type, against exact integer arithmetic.
  \<^item> \<open>Literal_Policy\<close> (\<open>src/numeric_literal_policy.hpp\<close>, \<open>src/operator_policy.hpp\<close>): the category of a
    literal expression and the type its context gives it; the specification reads the leaves only.
  \<^item> \<open>Ieee_Natural\<close>, \<open>Ieee_Decimal\<close>, \<open>Ieee_Rounding\<close>, \<open>Ieee_Correct\<close>, \<open>Ieee_Reader\<close>, \<open>Ieee_Fast\<close>
    (\<open>src/ieee_decimal.hpp\<close>): the limbs of \<open>class Natural\<close>, the reader of decimal texts, the rounding
    of the exact quotient to a binary format, and the shortcut over binary64 arithmetic. Every text of
    at most 100 million characters converts to the nearest value of the format, ties to even: the bound
    keeps the code's 64-bit exponents from wrapping. Arithmetic of C++ \<open>double\<close> is a function on
    encodings that rounds the exact result, as IEEE 754 defines it.

  \<^bold>\<open>Parallel blocks.\<close>
  \<^item> \<open>Work_Queue\<close>, \<open>Ready_Queue\<close> (\<open>src/ready_work.hpp\<close>): the interface of the queue of ready work, and the
    intrusive list that provides it.
  \<^item> \<open>Node_Dag\<close>, \<open>Node_Sections\<close>, \<open>Node_Run\<close>, \<open>Node_Progress\<close> (\<open>src/node_dag.hpp\<close>): the node table and its
    constructor; each critical section and the invariant it keeps; the threads as a step relation, in
    which any interleaving of the caller and the helpers is a run, the caller taking work in the middle
    of a helper's section included; and over all runs, safety, the result of the sequential run, no
    deadlock and no infinite run. A wait on the condition variable is a step
    enabled by its predicate. The bodies and joins of nodes are generated code: parameters. A queue
    serves one block.

  \<^bold>\<open>Files.\<close>
  \<^item> \<open>Strict_Json\<close>, \<open>Json_Text\<close> (\<open>src/platform/strict_json.cpp\<close>): the reader, whose position is the text
    still to be read, and a writer of JSON texts that it reads back.
  \<^item> \<open>Json_Grammar\<close>: the documents as an inductive grammar over values, in which a key occurs once in its
    object; the reader accepts exactly these.
  \<^item> \<open>Sha256\<close> (\<open>src/platform/sha256.cpp\<close>): the buffering and padding over any block engine (a locale),
    and the portable engine.

  \<open>Prelude\<close> holds the machine integer types, the result type of fallible code, decimal digits and the
  shared lemmas on words and lists.

  \<^bold>\<open>Termination.\<close> No definition takes fuel. Loops are recursive functions with a measure; the greatest
  common divisor, the power loop, the walk of the queue and the mutually recursive JSON reader, whose
  ends depend on an invariant, are partial functions or have their domain proved, and the properties
  say that they return.

  \<^bold>\<open>Not modelled.\<close> The parser, checker, frontend, semantic analyses, lowering, optimizer and LLVM backend
  (tree rewriting over the whole language, whose meaning would need a semantics of the language and of
  LLVM); the runtime's containers and services (raw memory and C library calls); accelerator backends,
  driver, JIT, editor services, packages, REPL and platform input and output (processes, files and
  native tools). Of the modelled files, the SHA-256 engines written with CPU intrinsics, the
  conversions of \<open>types.hpp\<close> that round a \<open>double\<close>, the callable tables of \<open>language.hpp\<close> and the parts of
  the syntax tree that constants and literals do not read are left out.
\<close>

end
